(* ===== verification/Tlpi_Prelude.thy ===== *)
theory Tlpi_Prelude
  imports Main
begin

text \<open>
  Shared vocabulary of the development: the collections of rewrite rules the component theories
  feed, C's \<^verbatim>\<open>size_t\<close> arithmetic on \<^typ>\<open>nat\<close> with the wrap-around written out, and
  generic lemmas on lists.
\<close>

section \<open>Rule collections\<close>

named_theorems heap_simps \<open>rewriting of allocator states\<close>

section \<open>Error numbers\<close>

datatype errno =
    EPERM | ENOENT | EINTR | EIO | EBADF | EAGAIN | ENOMEM | EACCES | EEXIST | ENOTDIR | EISDIR
  | EINVAL | EMFILE | EFBIG | ENOSPC | ERANGE | ENOTSUP

section \<open>C unsigned 64-bit arithmetic\<close>

text \<open>
  A \<^verbatim>\<open>size_t\<close> is a \<^typ>\<open>nat\<close> below \<^term>\<open>2 ^ 64 :: nat\<close>; addition and subtraction wrap.
\<close>

definition SIZE_MOD :: nat where
  "SIZE_MOD = 2 ^ 64"

definition sz_add :: "nat \<Rightarrow> nat \<Rightarrow> nat" where
  "sz_add a b = (a + b) mod SIZE_MOD"

definition sz_sub :: "nat \<Rightarrow> nat \<Rightarrow> nat" where
  "sz_sub a b = (a + SIZE_MOD - b) mod SIZE_MOD"

definition sz_mul :: "nat \<Rightarrow> nat \<Rightarrow> nat" where
  "sz_mul a b = (a * b) mod SIZE_MOD"

text \<open>Conversion of a \<^verbatim>\<open>size_t\<close> to a signed 64-bit integer (\<^verbatim>\<open>intptr_t\<close>, \<^verbatim>\<open>ssize_t\<close>).\<close>

definition to_signed64 :: "nat \<Rightarrow> int" where
  "to_signed64 n = (if n < 2 ^ 63 then int n else int n - 2 ^ 64)"

lemma SIZE_MOD_pos [simp]: "0 < SIZE_MOD"
  by (simp add: SIZE_MOD_def)

lemma sz_add_less [simp]: "a + b < SIZE_MOD \<Longrightarrow> sz_add a b = a + b"
  by (simp add: sz_add_def)

lemma sz_sub_less [simp]: "b \<le> a \<Longrightarrow> a < SIZE_MOD \<Longrightarrow> sz_sub a b = a - b"
  by (simp add: sz_sub_def mod_if)

lemma sz_mul_less [simp]: "a * b < SIZE_MOD \<Longrightarrow> sz_mul a b = a * b"
  by (simp add: sz_mul_def)

lemma to_signed64_small [simp]: "n < 2 ^ 63 \<Longrightarrow> to_signed64 n = int n"
  by (simp add: to_signed64_def)

end
