(* ===== verification/Heap_Alloc.thy ===== *)
theory Heap_Alloc
  imports Tlpi_Prelude "HOL-Library.Monad_Syntax"
begin

text \<open>
  Model of \<^verbatim>\<open>ch07/malloc_and_free.c\<close>: the block headers (\<^verbatim>\<open>m_block\<close>) live in an explicit store
  \<^verbatim>\<open>hmem\<close> from addresses to headers, the program break is part of the state and moved by
  \<^verbatim>\<open>sbrk\<close>/\<^verbatim>\<open>brk\<close>, and every access to a header outside the break or never written is the
  outcome \<^const>\<open>None\<close>, as is a list walk that does not end.  Diagnostic output
  (\<^verbatim>\<open>DEBUG_PRINT\<close>) does not influence the state and is left out.
\<close>

section \<open>State\<close>

record m_block =
  bsize :: nat
  bfree :: bool
  bprev :: nat
  bnext :: nat

record heap_state =
  hmem :: "nat \<Rightarrow> m_block option"
  first_block :: nat
  cur_brk :: nat
  brk_min :: nat
  brk_max :: nat
  page_size :: nat
  herrno :: "errno option"

definition HEADER_SIZE :: nat where
  "HEADER_SIZE = 32"

definition MEM_ALLOC_SIZE :: "heap_state \<Rightarrow> nat" where
  "MEM_ALLOC_SIZE s = page_size s"

definition MEM_DEALLOC_SIZE :: "heap_state \<Rightarrow> nat" where
  "MEM_DEALLOC_SIZE s = 4 * page_size s"

definition WRITABLE_AREA :: "nat \<Rightarrow> nat" where
  "WRITABLE_AREA p = sz_add p HEADER_SIZE"

definition HEADER_AREA :: "nat \<Rightarrow> nat" where
  "HEADER_AREA p = sz_sub p HEADER_SIZE"

text \<open>Headers may be touched only below the program break.\<close>

definition valid_hdr :: "heap_state \<Rightarrow> nat \<Rightarrow> bool" where
  "valid_hdr s p \<longleftrightarrow> brk_min s \<le> p \<and> p + HEADER_SIZE \<le> cur_brk s"

definition load :: "heap_state \<Rightarrow> nat \<Rightarrow> m_block option" where
  "load s p = (if valid_hdr s p then hmem s p else None)"

definition store :: "heap_state \<Rightarrow> nat \<Rightarrow> m_block \<Rightarrow> heap_state option" where
  "store s p b = (if valid_hdr s p then Some (s\<lparr>hmem := (hmem s)(p \<mapsto> b)\<rparr>) else None)"

text \<open>The C library's \<^verbatim>\<open>sbrk\<close> and \<^verbatim>\<open>brk\<close> on the modelled break.\<close>

definition sbrk :: "heap_state \<Rightarrow> nat \<Rightarrow> nat option \<times> heap_state" where
  "sbrk s n =
     (let nb = int (cur_brk s) + to_signed64 n in
      if int (brk_min s) \<le> nb \<and> nb \<le> int (brk_max s)
      then (Some (cur_brk s), s\<lparr>cur_brk := nat nb\<rparr>)
      else (None, s\<lparr>herrno := Some ENOMEM\<rparr>))"

definition brk :: "heap_state \<Rightarrow> nat \<Rightarrow> heap_state" where
  "brk s p =
     (if brk_min s \<le> p \<and> p \<le> brk_max s then s\<lparr>cur_brk := p\<rparr>
      else s\<lparr>herrno := Some ENOMEM\<rparr>)"

section \<open>Operations\<close>

partial_function (option) last_block :: "heap_state \<Rightarrow> nat \<Rightarrow> nat option" where
  "last_block s p =
     (case load s p of
        None \<Rightarrow> None
      | Some b \<Rightarrow> if bnext b \<noteq> 0 then last_block s (bnext b) else Some p)"

declare last_block.simps [code]

definition add_block :: "heap_state \<Rightarrow> nat \<Rightarrow> heap_state option" where
  "add_block s nb =
     (if first_block s = 0 then do {
        b \<leftarrow> load s nb;
        s1 \<leftarrow> store s nb (b\<lparr>bnext := 0, bprev := 0\<rparr>);
        Some (s1\<lparr>first_block := nb\<rparr>)
      } else do {
        p \<leftarrow> last_block s (first_block s);
        pb \<leftarrow> load s p;
        s1 \<leftarrow> store s p (pb\<lparr>bnext := nb\<rparr>);
        b \<leftarrow> load s1 nb;
        store s1 nb (b\<lparr>bprev := p, bnext := 0\<rparr>)
      })"

partial_function (option) scan_loop :: "heap_state \<Rightarrow> nat \<Rightarrow> nat \<Rightarrow> (nat \<times> bool) option" where
  "scan_loop s sz p =
     (case load s p of
        None \<Rightarrow> None
      | Some b \<Rightarrow>
          if bfree b \<and> sz \<le> bsize b then Some (p, False)
          else if bnext b \<noteq> 0 then scan_loop s sz (bnext b)
          else if bfree b then Some (p, True)
          else Some (0, False))"

declare scan_loop.simps [code]

definition scan :: "heap_state \<Rightarrow> nat \<Rightarrow> (nat \<times> bool) option" where
  "scan s sz = (if first_block s = 0 then Some (0, False) else scan_loop s sz (first_block s))"

definition resize_block :: "heap_state \<Rightarrow> nat \<Rightarrow> nat \<Rightarrow> heap_state option" where
  "resize_block s p sz = do {
     b \<leftarrow> load s p;
     if sz_sub (bsize b) sz \<le> HEADER_SIZE then Some s
     else do {
       let nb = sz_add p sz;
       s1 \<leftarrow> store s nb \<lparr>bsize = sz_sub (bsize b) sz, bfree = True, bprev = p, bnext = bnext b\<rparr>;
       b1 \<leftarrow> load s1 p;
       store s1 p (b1\<lparr>bsize := sz, bnext := nb\<rparr>)
     }
   }"

definition allocate :: "heap_state \<Rightarrow> nat \<Rightarrow> (nat \<times> heap_state) option" where
  "allocate s n =
     (case sbrk s n of
        (None, s1) \<Rightarrow> Some (0, s1)
      | (Some m, s1) \<Rightarrow> do {
          s2 \<leftarrow> store s1 m \<lparr>bsize = n, bfree = True, bprev = 0, bnext = 0\<rparr>;
          Some (m, s2)
        })"

definition merge_prev :: "heap_state \<Rightarrow> nat \<Rightarrow> (nat \<times> heap_state) option" where
  "merge_prev s p = do {
     b \<leftarrow> load s p;
     if bprev b = 0 then Some (p, s)
     else do {
       pb \<leftarrow> load s (bprev b);
       if \<not> bfree pb then Some (p, s)
       else do {
         s1 \<leftarrow> store s (bprev b) (pb\<lparr>bsize := sz_add (bsize pb) (bsize b), bnext := bnext b\<rparr>);
         s2 \<leftarrow> (if bnext b = 0 then Some s1
               else do {
                 nb \<leftarrow> load s1 (bnext b);
                 store s1 (bnext b) (nb\<lparr>bprev := bprev b\<rparr>)
               });
         Some (bprev b, s2)
       }
     }
   }"

definition merge_next :: "heap_state \<Rightarrow> nat \<Rightarrow> heap_state option" where
  "merge_next s p = do {
     b \<leftarrow> load s p;
     if bnext b = 0 then Some s
     else do {
       nb \<leftarrow> load s (bnext b);
       if bfree nb
       then store s p (b\<lparr>bsize := sz_add (bsize b) (bsize nb), bnext := bnext nb\<rparr>)
       else Some s
     }
   }"

definition free_and_merge :: "heap_state \<Rightarrow> nat \<Rightarrow> heap_state option" where
  "free_and_merge s p = do {
     b \<leftarrow> load s p;
     s1 \<leftarrow> store s p (b\<lparr>bfree := True\<rparr>);
     (q, s2) \<leftarrow> merge_prev s1 p;
     merge_next s2 q
   }"

partial_function (option) release_scan ::
    "heap_state \<Rightarrow> nat \<Rightarrow> nat \<Rightarrow> nat \<Rightarrow> (nat \<times> nat) option" where
  "release_scan s p ff tot =
     (if p = 0 then Some (ff, tot)
      else case load s p of
        None \<Rightarrow> None
      | Some b \<Rightarrow>
          if bfree b then release_scan s (bnext b) p (sz_add tot (bsize b))
          else release_scan s (bnext b) 0 0)"

declare release_scan.simps [code]

definition release_resource_if_need :: "heap_state \<Rightarrow> heap_state option" where
  "release_resource_if_need s = do {
     (ff, tot) \<leftarrow> release_scan s (first_block s) 0 0;
     if tot < MEM_DEALLOC_SIZE s then Some s
     else do {
       s1 \<leftarrow> (if ff = first_block s then Some (s\<lparr>first_block := 0\<rparr>)
             else do {
               fb \<leftarrow> load s ff;
               pb \<leftarrow> load s (bprev fb);
               store s (bprev fb) (pb\<lparr>bnext := 0\<rparr>)
             });
       Some (brk s1 ff)
     }
   }"

text \<open>The tail every successful path of \<^verbatim>\<open>my_malloc\<close> shares: split, mark used, return.\<close>

definition take_block :: "heap_state \<Rightarrow> nat \<Rightarrow> nat \<Rightarrow> (nat \<times> heap_state) option" where
  "take_block s p msize = do {
     s1 \<leftarrow> resize_block s p msize;
     b \<leftarrow> load s1 p;
     s2 \<leftarrow> store s1 p (b\<lparr>bfree := False\<rparr>);
     Some (WRITABLE_AREA p, s2)
   }"

definition page_round :: "heap_state \<Rightarrow> nat \<Rightarrow> nat" where
  "page_round s n =
     (let r = sz_mul (sz_add (n div page_size s) 1) (page_size s) in
      if r > MEM_ALLOC_SIZE s then r else MEM_ALLOC_SIZE s)"

definition my_malloc :: "heap_state \<Rightarrow> nat \<Rightarrow> (nat \<times> heap_state) option" where
  "my_malloc s n =
     (if n = 0 then Some (0, s)
      else do {
        let msize = sz_add n HEADER_SIZE;
        (p, unfit) \<leftarrow> scan s msize;
        if p = 0 then do {
          (m, s1) \<leftarrow> allocate s (page_round s msize);
          if m = 0 then Some (0, s1\<lparr>herrno := Some ENOMEM\<rparr>)
          else do {
            s2 \<leftarrow> add_block s1 m;
            take_block s2 m msize
          }
        } else if unfit then do {
          b \<leftarrow> load s p;
          let asz = page_round s (sz_sub msize (bsize b));
          (m, s1) \<leftarrow> allocate s asz;
          b1 \<leftarrow> load s1 p;
          s2 \<leftarrow> store s1 p (b1\<lparr>bsize := sz_add (bsize b1) asz\<rparr>);
          take_block s2 p msize
        } else take_block s p msize
      })"

definition my_free :: "heap_state \<Rightarrow> nat \<Rightarrow> heap_state option" where
  "my_free s p =
     (if p = 0 then Some s
      else do {
        s1 \<leftarrow> free_and_merge s (HEADER_AREA p);
        release_resource_if_need s1
      })"

section \<open>The program's own test sequences\<close>

text \<open>A failed \<^verbatim>\<open>assert\<close> is \<^const>\<open>None\<close>.\<close>

definition check_malloc_free :: "heap_state \<Rightarrow> heap_state option" where
  "check_malloc_free s0 = do {
     (a, s1) \<leftarrow> my_malloc s0 8000;
     if a = 0 then None else do {
     (b, s2) \<leftarrow> my_malloc s1 4000;
     if b = 0 then None else do {
     s3 \<leftarrow> my_free s2 a;
     (c, s4) \<leftarrow> my_malloc s3 4000;
     if c = 0 then None else do {
     (d, s5) \<leftarrow> my_malloc s4 4128;
     if d = 0 then None else do {
     s6 \<leftarrow> my_free s5 b;
     s7 \<leftarrow> my_free s6 c;
     my_free s7 d
     }}}}
   }"

definition check_release :: "heap_state \<Rightarrow> heap_state option" where
  "check_release s0 = do {
     (a, s1) \<leftarrow> my_malloc s0 8000;
     (b, s2) \<leftarrow> my_malloc s1 9000;
     (c, s3) \<leftarrow> my_malloc s2 10000;
     s4 \<leftarrow> my_free s3 a;
     s5 \<leftarrow> my_free s4 b;
     my_free s5 c
   }"

definition check_free_merge :: "heap_state \<Rightarrow> heap_state option" where
  "check_free_merge s0 = do {
     (a, s1) \<leftarrow> my_malloc s0 400;
     (b, s2) \<leftarrow> my_malloc s1 4000;
     (c, s3) \<leftarrow> my_malloc s2 3500;
     s4 \<leftarrow> my_free s3 a;
     s5 \<leftarrow> my_free s4 b;
     s6 \<leftarrow> my_free s5 c;
     (d, s7) \<leftarrow> my_malloc s6 8000;
     my_free s7 d
   }"

end
