(* ===== verification/Heap_Alloc_Correct.thy ===== *)
theory Heap_Alloc_Correct
  imports Heap_Alloc
begin

text \<open>
  Correctness of the allocator of \<^verbatim>\<open>ch07/malloc_and_free.c\<close> against a specification on lists of
  blocks (address, size, free flag) in address order.
\<close>

section \<open>The block list of a state\<close>

type_synonym blk = "nat \<times> nat \<times> bool"

abbreviation addr :: "blk \<Rightarrow> nat" where
  "addr b \<equiv> fst b"

text \<open>\<open>seg s p xs q\<close>: following \<^verbatim>\<open>next\<close> from \<open>p\<close> visits the blocks \<open>xs\<close> and arrives at \<open>q\<close>.\<close>

fun seg :: "heap_state \<Rightarrow> nat \<Rightarrow> blk list \<Rightarrow> nat \<Rightarrow> bool" where
  "seg s p [] q = (p = q)"
| "seg s p ((a, n, f) # xs) q =
     (p = a \<and> a \<noteq> 0 \<and>
      (case load s a of
         None \<Rightarrow> False
       | Some b \<Rightarrow> bsize b = n \<and> bfree b = f \<and> seg s (bnext b) xs q))"

text \<open>\<open>tiles lo xs hi\<close>: the blocks cover the addresses from \<open>lo\<close> to \<open>hi\<close> without gap or overlap.\<close>

fun tiles :: "nat \<Rightarrow> blk list \<Rightarrow> nat \<Rightarrow> bool" where
  "tiles lo [] hi = (lo = hi)"
| "tiles lo ((a, n, f) # xs) hi = (a = lo \<and> HEADER_SIZE < n \<and> tiles (a + n) xs hi)"

definition heap_ok :: "heap_state \<Rightarrow> blk list \<Rightarrow> bool" where
  "heap_ok s xs \<longleftrightarrow>
     seg s (first_block s) xs 0 \<and> tiles (brk_min s) xs (cur_brk s) \<and>
     0 < brk_min s \<and> cur_brk s \<le> brk_max s \<and> brk_max s < 2 ^ 62 \<and> HEADER_SIZE < page_size s"

lemma tiles_le: "tiles lo xs hi \<Longrightarrow> lo \<le> hi"
  by (induction lo xs hi rule: tiles.induct) auto

lemma tiles_append: "tiles lo (xs @ ys) hi \<longleftrightarrow> (\<exists>m. tiles lo xs m \<and> tiles m ys hi)"
  by (induction lo xs hi rule: tiles.induct) auto

lemma tiles_addr_bounds:
  "tiles lo xs hi \<Longrightarrow> b \<in> set xs \<Longrightarrow> lo \<le> addr b \<and> addr b < hi"
proof (induction lo xs hi rule: tiles.induct)
  case (2 lo a n f xs hi)
  then show ?case by (auto dest: tiles_le)
qed simp

lemma tiles_notin_above: "tiles lo xs hi \<Longrightarrow> hi \<le> p \<Longrightarrow> p \<notin> addr ` set xs"
  by (auto dest: tiles_addr_bounds)

lemma tiles_notin_below: "tiles lo xs hi \<Longrightarrow> p < lo \<Longrightarrow> p \<notin> addr ` set xs"
  by (auto dest: tiles_addr_bounds)

lemma seg_append: "seg s p (xs @ ys) q \<longleftrightarrow> (\<exists>r. seg s p xs r \<and> seg s r ys q)"
  by (induction s p xs q rule: seg.induct) (auto split: option.splits)

lemma load_upd:
  "load (s\<lparr>hmem := h(p \<mapsto> b)\<rparr>) q =
     (if p = q then if valid_hdr s q then Some b else None else load (s\<lparr>hmem := h\<rparr>) q)"
  by (simp add: load_def valid_hdr_def)

lemma load_first [simp]: "load (s\<lparr>first_block := p\<rparr>) q = load s q"
  by (simp add: load_def valid_hdr_def)

lemma load_herrno [simp]: "load (s\<lparr>herrno := e\<rparr>) q = load s q"
  by (simp add: load_def valid_hdr_def)

lemma valid_hmem [simp]: "valid_hdr (s\<lparr>hmem := h\<rparr>) q = valid_hdr s q"
  by (simp add: valid_hdr_def)

lemma load_Some_valid: "load s p = Some b \<Longrightarrow> valid_hdr s p"
  by (simp add: load_def split: if_splits)

lemma load_brk_mono: "load s p = Some b \<Longrightarrow> cur_brk s \<le> k \<Longrightarrow> load (s\<lparr>cur_brk := k\<rparr>) p = Some b"
  by (auto simp: load_def valid_hdr_def split: if_splits)

lemma seg_upd:
  "p \<notin> addr ` set xs \<Longrightarrow> seg (s\<lparr>hmem := h(p \<mapsto> b)\<rparr>) r xs q = seg (s\<lparr>hmem := h\<rparr>) r xs q"
  by (induction xs arbitrary: r) (auto simp: load_upd split: option.splits)

lemma seg_first [simp]: "seg (s\<lparr>first_block := p\<rparr>) r xs q = seg s r xs q"
  by (induction s r xs q rule: seg.induct) (auto split: option.splits)

lemma seg_herrno [simp]: "seg (s\<lparr>herrno := e\<rparr>) r xs q = seg s r xs q"
  by (induction s r xs q rule: seg.induct) (auto split: option.splits)

lemma seg_brk_mono: "seg s r xs q \<Longrightarrow> cur_brk s \<le> k \<Longrightarrow> seg (s\<lparr>cur_brk := k\<rparr>) r xs q"
  by (induction s r xs q rule: seg.induct) (auto simp: load_brk_mono split: option.splits)

section \<open>Specification on block lists\<close>

definition fits :: "nat \<Rightarrow> blk \<Rightarrow> bool" where
  "fits m b \<longleftrightarrow> snd (snd b) \<and> m \<le> fst (snd b)"

definition split_blk :: "nat \<Rightarrow> nat \<Rightarrow> nat \<Rightarrow> blk list" where
  "split_blk a n m =
     (if n - m \<le> HEADER_SIZE then [(a, n, False)] else [(a, m, False), (a + m, n - m, True)])"

fun take_fit :: "nat \<Rightarrow> blk list \<Rightarrow> (nat \<times> blk list) option" where
  "take_fit m [] = None"
| "take_fit m ((a, n, f) # xs) =
     (if f \<and> m \<le> n then Some (a, split_blk a n m @ xs)
      else map_option (\<lambda>(p, ys). (p, (a, n, f) # ys)) (take_fit m xs))"

definition round_pages :: "nat \<Rightarrow> nat \<Rightarrow> nat" where
  "round_pages pg n = (n div pg + 1) * pg"

text \<open>
  First fit; else grow a free last block; else append a fresh block at the break.  The result is
  the chosen block's address, the new list and the new break.
\<close>

definition spec_malloc :: "nat \<Rightarrow> nat \<Rightarrow> blk list \<Rightarrow> nat \<Rightarrow> nat \<times> blk list \<times> nat" where
  "spec_malloc pg hi xs m =
     (case take_fit m xs of
        Some (p, ys) \<Rightarrow> (p, ys, hi)
      | None \<Rightarrow>
          if xs \<noteq> [] \<and> snd (snd (last xs)) then
            let (a, n, f) = last xs; g = round_pages pg (m - n)
            in (a, butlast xs @ split_blk a (n + g) m, hi + g)
          else (hi, xs @ split_blk hi (round_pages pg m) m, hi + round_pages pg m))"

lemma round_pages_gt: "0 < pg \<Longrightarrow> n < round_pages pg n"
  by (simp add: round_pages_def dividend_less_div_times)

lemma round_pages_ge_page: "pg \<le> round_pages pg n"
  by (simp add: round_pages_def)

lemma round_pages_le: "round_pages pg n \<le> n + pg"
  by (simp add: round_pages_def) 

lemma page_round_eq:
  "0 < page_size s \<Longrightarrow> n + page_size s < 2 ^ 63 \<Longrightarrow> page_round s n = round_pages (page_size s) n"
proof -
  assume pg: "0 < page_size s" and n: "n + page_size s < 2 ^ 63"
  have le: "(n div page_size s + 1) * page_size s \<le> n + page_size s"
    using round_pages_le[of "page_size s" n] by (simp only: round_pages_def)
  have "n div page_size s \<le> n" by simp
  moreover have "n + page_size s < SIZE_MOD" using n by (simp add: SIZE_MOD_def)
  ultimately have "n div page_size s + 1 < SIZE_MOD" using pg by linarith
  moreover have "(n div page_size s + 1) * page_size s < SIZE_MOD"
    using le \<open>n + page_size s < SIZE_MOD\<close> by linarith
  ultimately show ?thesis
    using round_pages_ge_page[of "page_size s" n]
    by (auto simp: page_round_def MEM_ALLOC_SIZE_def round_pages_def Let_def)
qed

lemma seg_nonzero: "seg s p xs 0 \<Longrightarrow> xs \<noteq> [] \<Longrightarrow> p \<noteq> 0"
  by (cases xs) auto

lemma scan_loop_seg:
  "seg s p xs 0 \<Longrightarrow> xs \<noteq> [] \<Longrightarrow>
   scan_loop s m p =
     Some (case take_fit m xs of
        Some (a, ys) \<Rightarrow> (a, False)
      | None \<Rightarrow> if snd (snd (last xs)) then (addr (last xs), True) else (0, False))"
proof (induction xs arbitrary: p)
  case (Cons x xs)
  obtain a n f where x: "x = (a, n, f)" by (cases x)
  show ?case
    using Cons
    by (cases "xs = []") (auto simp: x scan_loop.simps[of s m a] dest: seg_nonzero split: option.splits)
qed simp

lemma last_block_seg: "seg s p xs 0 \<Longrightarrow> xs \<noteq> [] \<Longrightarrow> last_block s p = Some (addr (last xs))"
proof (induction xs arbitrary: p)
  case (Cons x xs)
  obtain a n f where x: "x = (a, n, f)" by (cases x)
  show ?case
    using Cons
    by (cases "xs = []") (auto simp: x last_block.simps[of s a] dest: seg_nonzero split: option.splits)
qed simp

section \<open>Splitting and marking a block\<close>

lemma heap_okE:
  assumes "heap_ok s (us @ (a, n, f) # vs)"
  obtains b where "load s a = Some b" "bsize b = n" "bfree b = f" "seg s (first_block s) us a"
    "seg s (bnext b) vs 0" "tiles (brk_min s) us a" "tiles (a + n) vs (cur_brk s)"
    "HEADER_SIZE < n" "0 < a" "a + n \<le> cur_brk s" "cur_brk s < 2 ^ 62"
    "a \<notin> addr ` set us" "a \<notin> addr ` set vs"
  using assms tiles_le[of "a + n" vs "cur_brk s"]
    tiles_notin_above[of "brk_min s" us a a] tiles_notin_below[of "a + n" vs "cur_brk s" a]
  by (auto simp: heap_ok_def seg_append tiles_append split: option.splits)

lemma heap_okI:
  assumes "load s a = Some b" "bsize b = n" "bfree b = f" "seg s (first_block s) us a"
    "seg s (bnext b) vs 0" "tiles (brk_min s) us a" "tiles (a + n) vs (cur_brk s)"
    "HEADER_SIZE < n" "0 < brk_min s" "cur_brk s \<le> brk_max s" "brk_max s < 2 ^ 62" "HEADER_SIZE < page_size s"
  shows "heap_ok s (us @ (a, n, f) # vs)"
  using assms tiles_le[of "brk_min s" us a] by (auto simp: heap_ok_def seg_append tiles_append)

lemma take_block_correct:
  assumes ok: "heap_ok s (us @ (a, n, f) # vs)" and m: "m \<le> n" "HEADER_SIZE < m"
  shows "\<exists>s'. take_block s a m = Some (a + HEADER_SIZE, s') \<and>
     heap_ok s' (us @ split_blk a n m @ vs) \<and> cur_brk s' = cur_brk s \<and>
     s' = s\<lparr>hmem := hmem s'\<rparr>"
proof -
  from ok obtain b where b: "load s a = Some b" "bsize b = n" "bfree b = f"
      "seg s (first_block s) us a" "seg s (bnext b) vs 0" "tiles (brk_min s) us a"
      "tiles (a + n) vs (cur_brk s)" "HEADER_SIZE < n" "0 < a" "a + n \<le> cur_brk s"
      "cur_brk s < 2 ^ 62" "a \<notin> addr ` set us" "a \<notin> addr ` set vs"
    by (rule heap_okE)
  from ok have glob: "0 < brk_min s" "cur_brk s \<le> brk_max s" "brk_max s < 2 ^ 62" "HEADER_SIZE < page_size s"
    by (auto simp: heap_ok_def)
  have small: "n < SIZE_MOD" "a + n < SIZE_MOD" using b(10,11) by (auto simp: SIZE_MOD_def)
  have va: "valid_hdr s a" using b(1) by (rule load_Some_valid)
  have wa: "WRITABLE_AREA a = a + HEADER_SIZE"
    using small b(8) by (simp add: WRITABLE_AREA_def)
  have sub: "sz_sub n m = n - m" using m small by simp
  show ?thesis
  proof (cases "n - m \<le> HEADER_SIZE")
    case True
    have "take_block s a m = Some (a + HEADER_SIZE, s\<lparr>hmem := (hmem s)(a \<mapsto> b\<lparr>bfree := False\<rparr>)\<rparr>)"
      using b True va by (simp add: take_block_def resize_block_def sub wa store_def)
    moreover have "heap_ok (s\<lparr>hmem := (hmem s)(a \<mapsto> b\<lparr>bfree := False\<rparr>)\<rparr>) (us @ (a, n, False) # vs)"
      by (rule heap_okI[where b = "b\<lparr>bfree := False\<rparr>"])
        (use b va glob in \<open>simp_all add: load_upd seg_upd\<close>)
    ultimately show ?thesis using True by (simp add: split_blk_def)
  next
    case False
    let ?nb = "\<lparr>bsize = n - m, bfree = True, bprev = a, bnext = bnext b\<rparr>"
    let ?b1 = "b\<lparr>bsize := m, bnext := a + m\<rparr>"
    let ?s1 = "s\<lparr>hmem := (hmem s)(a + m \<mapsto> ?nb)\<rparr>"
    let ?s3 = "?s1\<lparr>hmem := (hmem ?s1)(a \<mapsto> ?b1\<lparr>bfree := False\<rparr>)\<rparr>"
    have add: "sz_add a m = a + m" using m small by simp
    have vn: "valid_hdr s (a + m)" using False b va by (simp add: valid_hdr_def)
    have nin: "a + m \<notin> addr ` set us" "a + m \<notin> addr ` set vs"
      using tiles_notin_above[OF b(6)] tiles_notin_below[OF b(7), of "a + m"] False by auto
    have ne: "m \<noteq> 0" using m by simp
    have "take_block s a m = Some (a + HEADER_SIZE, ?s3)"
      using b False va vn ne m
      by (simp add: take_block_def resize_block_def sub add wa store_def load_upd Let_def)
    moreover have "heap_ok ?s3 (us @ (a, m, False) # (a + m, n - m, True) # vs)"
      by (rule heap_okI[where b = "?b1\<lparr>bfree := False\<rparr>"])
        (use b va vn glob nin ne m False in \<open>simp_all add: load_upd seg_upd\<close>)
    ultimately show ?thesis using False by (auto simp: split_blk_def)
  qed
qed

section \<open>Growing the heap\<close>

lemma sbrk_ok:
  "g < 2 ^ 63 \<Longrightarrow> brk_min s \<le> cur_brk s \<Longrightarrow> cur_brk s + g \<le> brk_max s \<Longrightarrow>
   sbrk s g = (Some (cur_brk s), s\<lparr>cur_brk := cur_brk s + g\<rparr>)"
  by (auto simp: sbrk_def Let_def nat_add_distrib)

abbreviation grown :: "heap_state \<Rightarrow> nat \<Rightarrow> heap_state" where
  "grown s g \<equiv> s\<lparr>cur_brk := cur_brk s + g,
     hmem := (hmem s)(cur_brk s \<mapsto> \<lparr>bsize = g, bfree = True, bprev = 0, bnext = 0\<rparr>)\<rparr>"

lemma allocate_ok:
  assumes "heap_ok s xs" "HEADER_SIZE < g" "cur_brk s + g \<le> brk_max s"
  shows "allocate s g = Some (cur_brk s, grown s g)"
proof -
  have "g < 2 ^ 63" "brk_min s \<le> cur_brk s"
    using assms tiles_le by (auto simp: heap_ok_def)
  then show ?thesis
    using assms(2,3) by (simp add: allocate_def sbrk_ok store_def valid_hdr_def)
qed

lemma seg_grown:
  assumes "seg s r xs q" "tiles lo xs (cur_brk s)"
  shows "seg (grown s g) r xs q"
proof -
  have "cur_brk s \<notin> addr ` set xs" using assms(2) by (rule tiles_notin_above) simp
  moreover have "seg (s\<lparr>cur_brk := cur_brk s + g\<rparr>) r xs q" using assms(1) by (rule seg_brk_mono) simp
  ultimately show ?thesis
    using seg_upd[where s = "s\<lparr>cur_brk := cur_brk s + g\<rparr>" and h = "hmem s"] by simp
qed

lemma extend_last_ok:
  assumes ok: "heap_ok s (us @ [(a, n, f)])" and g: "HEADER_SIZE < g" "cur_brk s + g \<le> brk_max s"
  shows "\<exists>b. load (grown s g) a = Some b \<and> bsize b = n \<and>
     store (grown s g) a (b\<lparr>bsize := n + g\<rparr>) =
       Some (grown s g\<lparr>hmem := (hmem (grown s g))(a \<mapsto> b\<lparr>bsize := n + g\<rparr>)\<rparr>) \<and>
     heap_ok (grown s g\<lparr>hmem := (hmem (grown s g))(a \<mapsto> b\<lparr>bsize := n + g\<rparr>)\<rparr>) (us @ [(a, n + g, f)])"
proof -
  from ok obtain b where b: "load s a = Some b" "bsize b = n" "bfree b = f"
      "seg s (first_block s) us a" "seg s (bnext b) [] 0" "tiles (brk_min s) us a"
      "tiles (a + n) [] (cur_brk s)" "HEADER_SIZE < n" "0 < a" "a \<notin> addr ` set us"
    by (rule heap_okE)
  have an: "cur_brk s = a + n" using b(7) by simp
  have ne: "cur_brk s \<noteq> a" using an b(8) by simp
  have nus: "cur_brk s \<notin> addr ` set us"
    using tiles_notin_above[OF b(6), of "cur_brk s"] an by simp
  have brk: "load (s\<lparr>cur_brk := cur_brk s + g\<rparr>) a = Some b"
    using b(1) by (rule load_brk_mono) simp
  have us: "seg (s\<lparr>cur_brk := cur_brk s + g\<rparr>) (first_block s) us a"
    using b(4) by (rule seg_brk_mono) simp
  have la: "load (grown s g) a = Some b"
    using brk ne load_upd[where s = "s\<lparr>cur_brk := cur_brk s + g\<rparr>" and h = "hmem s"] by simp
  then have va: "valid_hdr (grown s g) a" by (rule load_Some_valid)
  have "heap_ok (grown s g\<lparr>hmem := (hmem (grown s g))(a \<mapsto> b\<lparr>bsize := n + g\<rparr>)\<rparr>) (us @ [(a, n + g, f)])"
    by (rule heap_okI[where b = "b\<lparr>bsize := n + g\<rparr>"])
      (use b va an g nus us ok in \<open>simp_all add: load_upd seg_upd heap_ok_def\<close>)
  then show ?thesis using la va b by (simp add: store_def)
qed

lemma append_block_ok:
  assumes ok: "heap_ok s xs" and g: "HEADER_SIZE < g" "cur_brk s + g \<le> brk_max s"
  shows "\<exists>s'. add_block (grown s g) (cur_brk s) = Some s' \<and> heap_ok s' (xs @ [(cur_brk s, g, True)]) \<and>
     cur_brk s' = cur_brk s + g \<and> brk_max s' = brk_max s \<and> page_size s' = page_size s \<and>
     brk_min s' = brk_min s"
proof -
  let ?t = "grown s g" and ?c = "cur_brk s"
  have til: "tiles (brk_min s) xs ?c" and glob: "0 < brk_min s" "brk_max s < 2 ^ 62" "HEADER_SIZE < page_size s"
    using ok by (auto simp: heap_ok_def)
  have c: "brk_min s \<le> ?c" "?c \<noteq> 0" using til tiles_le glob(1) by fastforce+
  have vc: "valid_hdr ?t ?c" using c g by (simp add: valid_hdr_def)
  have sg: "seg ?t (first_block s) xs 0"
    using ok til by (auto simp: heap_ok_def intro: seg_grown)
  show ?thesis
  proof (cases xs rule: rev_cases)
    case Nil
    then show ?thesis
      using ok g c vc glob by (auto simp: heap_ok_def add_block_def load_upd store_def)
  next
    case (snoc us x)
    obtain a n f where x: "x = (a, n, f)" by (cases x)
    have nz: "first_block s \<noteq> 0" using ok seg_nonzero snoc by (auto simp: heap_ok_def)
    have lb: "last_block ?t (first_block ?t) = Some a"
      using last_block_seg[OF sg] snoc x by simp
    obtain b where b: "seg ?t (first_block s) us a" "load ?t a = Some b" "bsize b = n" "bfree b = f"
        "bnext b = 0" "0 < a"
      using sg snoc x by (auto simp: seg_append split: option.splits)
    have ti: "tiles (brk_min s) us a" "HEADER_SIZE < n" "?c = a + n"
      using til snoc x by (auto simp: tiles_append)
    have nin: "a \<notin> addr ` set us" "?c \<notin> addr ` set us"
      using tiles_notin_above[OF ti(1)] ti(3) by auto
    have va: "valid_hdr ?t a" using b(2) by (rule load_Some_valid)
    let ?c' = "\<lparr>bsize = g, bfree = True, bprev = a, bnext = 0\<rparr>"
    let ?s' = "?t\<lparr>hmem := (hmem ?t)(a \<mapsto> b\<lparr>bnext := ?c\<rparr>, ?c \<mapsto> ?c')\<rparr>"
    have "add_block ?t ?c = Some ?s'"
      using nz lb b va vc ti(2,3) by (simp add: add_block_def store_def load_upd)
    moreover have "heap_ok ?s' (us @ (a, n, f) # [(?c, g, True)])"
      by (rule heap_okI[where b = "b\<lparr>bnext := ?c\<rparr>"])
        (use b va vc ti nin glob g c in \<open>simp_all add: load_upd seg_upd\<close>)
    ultimately show ?thesis using snoc x by simp
  qed
qed

section \<open>Allocation\<close>

lemma take_fit_Some:
  "take_fit m xs = Some (p, ys) \<Longrightarrow>
   \<exists>us n vs. xs = us @ (p, n, True) # vs \<and> m \<le> n \<and> ys = us @ split_blk p n m @ vs"
proof (induction xs arbitrary: ys)
  case (Cons x xs)
  obtain a n f where x: "x = (a, n, f)" by (cases x)
  show ?case
  proof (cases "f \<and> m \<le> n")
    case True
    then show ?thesis using Cons.prems x by (intro exI[of _ "[]"]) auto
  next
    case False
    then obtain zs where zs: "take_fit m xs = Some (p, zs)" "ys = x # zs"
      using Cons.prems x by auto
    from Cons.IH[OF zs(1)] obtain us k vs where
      "xs = us @ (p, k, True) # vs" "m \<le> k" "zs = us @ split_blk p k m @ vs" by blast
    then show ?thesis using zs by (intro exI[of _ "x # us"]) auto
  qed
qed simp

lemma take_fit_None: "take_fit m xs = None \<Longrightarrow> (a, n, True) \<in> set xs \<Longrightarrow> n < m"
  by (induction m xs rule: take_fit.induct) (auto split: if_splits)

lemma scan_eq:
  assumes "heap_ok s xs"
  shows "scan s m = Some (case take_fit m xs of
     Some (a, ys) \<Rightarrow> (a, False)
   | None \<Rightarrow> if xs \<noteq> [] \<and> snd (snd (last xs)) then (addr (last xs), True) else (0, False))"
proof (cases "xs = []")
  case True
  then show ?thesis using assms by (simp add: scan_def heap_ok_def)
next
  case False
  then have "first_block s \<noteq> 0" using assms seg_nonzero by (auto simp: heap_ok_def)
  then show ?thesis
    using assms False scan_loop_seg by (auto simp: scan_def heap_ok_def split: option.splits)
qed

lemma heap_ok_block_nz: "heap_ok s (us @ (a, n, f) # vs) \<Longrightarrow> a \<noteq> 0"
  by (erule heap_okE) simp

lemma page_round_bounded:
  "heap_ok s xs \<Longrightarrow> round_pages (page_size s) k \<le> brk_max s \<Longrightarrow>
   page_round s k = round_pages (page_size s) k"
  using round_pages_gt[of "page_size s" k] round_pages_ge_page[of "page_size s" k]
  by (intro page_round_eq) (auto simp: heap_ok_def)

lemma round_pages_header: "heap_ok s xs \<Longrightarrow> HEADER_SIZE < round_pages (page_size s) k"
  using round_pages_ge_page[of "page_size s" k] by (auto simp: heap_ok_def)

text \<open>The three ways \<^verbatim>\<open>my_malloc\<close> finds room.\<close>

lemma my_malloc_fit:
  assumes ok: "heap_ok s xs" and n: "0 < n" "n + HEADER_SIZE < SIZE_MOD"
    and fit: "take_fit (n + HEADER_SIZE) xs = Some (q, zs)"
  shows "\<exists>s'. my_malloc s n = Some (q + HEADER_SIZE, s') \<and> heap_ok s' zs \<and> cur_brk s' = cur_brk s"
proof -
  from fit obtain us k vs where d: "xs = us @ (q, k, True) # vs" "n + HEADER_SIZE \<le> k"
      "zs = us @ split_blk q k (n + HEADER_SIZE) @ vs"
    using take_fit_Some by blast
  have "scan s (n + HEADER_SIZE) = Some (q, False)" using scan_eq[OF ok] fit by simp
  moreover have "q \<noteq> 0" using ok d heap_ok_block_nz by blast
  moreover from take_block_correct[of s us q k True vs "n + HEADER_SIZE"] obtain s' where
    "take_block s q (n + HEADER_SIZE) = Some (q + HEADER_SIZE, s')" "heap_ok s' zs"
    "cur_brk s' = cur_brk s" using ok d n by auto
  ultimately show ?thesis using n by (simp add: my_malloc_def Let_def)
qed

lemma my_malloc_extend:
  assumes ok: "heap_ok s (us @ [(a, k, True)])" and n: "0 < n" "n + HEADER_SIZE < SIZE_MOD"
    and none: "take_fit (n + HEADER_SIZE) (us @ [(a, k, True)]) = None"
    and g: "g = round_pages (page_size s) (n + HEADER_SIZE - k)" and room: "cur_brk s + g \<le> brk_max s"
  shows "\<exists>s'. my_malloc s n = Some (a + HEADER_SIZE, s') \<and>
     heap_ok s' (us @ split_blk a (k + g) (n + HEADER_SIZE)) \<and> cur_brk s' = cur_brk s + g"
proof -
  let ?m = "n + HEADER_SIZE"
  have km: "k < ?m" using take_fit_None[OF none, of a k] by simp
  have scan: "scan s ?m = Some (a, True)" using scan_eq[OF ok] none by simp
  from heap_okE[OF ok] obtain b0 where b0: "load s a = Some b0" "bsize b0 = k" "a \<noteq> 0"
    "a + k \<le> cur_brk s" by (metis less_numeral_extra(3))
  have hg: "HEADER_SIZE < g" using round_pages_header[OF ok] g by simp
  have pr: "page_round s (?m - k) = g" using page_round_bounded[OF ok] g room by simp
  have al: "allocate s g = Some (cur_brk s, grown s g)" using ok hg room by (rule allocate_ok)
  from extend_last_ok[OF ok hg room] obtain b where b: "load (grown s g) a = Some b"
      "bsize b = k" "store (grown s g) a (b\<lparr>bsize := k + g\<rparr>) =
        Some (grown s g\<lparr>hmem := (hmem (grown s g))(a \<mapsto> b\<lparr>bsize := k + g\<rparr>)\<rparr>)"
      "heap_ok (grown s g\<lparr>hmem := (hmem (grown s g))(a \<mapsto> b\<lparr>bsize := k + g\<rparr>)\<rparr>) (us @ [(a, k + g, True)])"
    by blast
  let ?s2 = "grown s g\<lparr>hmem := (hmem (grown s g))(a \<mapsto> b\<lparr>bsize := k + g\<rparr>)\<rparr>"
  have "?m - k < g" using ok g by (auto simp: heap_ok_def intro: round_pages_gt)
  then have "?m \<le> k + g" by simp
  with take_block_correct[OF b(4), of ?m] n obtain s' where
    t: "take_block ?s2 a ?m = Some (a + HEADER_SIZE, s')"
      "heap_ok s' (us @ split_blk a (k + g) ?m)" "cur_brk s' = cur_brk ?s2" by auto
  have "brk_max s < SIZE_MOD" using ok by (simp add: heap_ok_def SIZE_MOD_def)
  then have "k + g < SIZE_MOD" using b0(4) room by linarith
  then have "my_malloc s n = Some (a + HEADER_SIZE, s')"
    using n km scan b0 pr al b t(1) by (simp add: my_malloc_def Let_def)
  then show ?thesis using t by simp
qed

lemma my_malloc_append:
  assumes ok: "heap_ok s xs" and n: "0 < n" "n + HEADER_SIZE < SIZE_MOD"
    and none: "take_fit (n + HEADER_SIZE) xs = None" "\<not> (xs \<noteq> [] \<and> snd (snd (last xs)))"
    and g: "g = round_pages (page_size s) (n + HEADER_SIZE)" and room: "cur_brk s + g \<le> brk_max s"
  shows "\<exists>s'. my_malloc s n = Some (cur_brk s + HEADER_SIZE, s') \<and>
     heap_ok s' (xs @ split_blk (cur_brk s) g (n + HEADER_SIZE)) \<and> cur_brk s' = cur_brk s + g"
proof -
  let ?m = "n + HEADER_SIZE"
  have scan: "scan s ?m = Some (0, False)" using scan_eq[OF ok] none by auto
  have hg: "HEADER_SIZE < g" using round_pages_header[OF ok] g by simp
  have pr: "page_round s ?m = g" using page_round_bounded[OF ok] g room by simp
  have al: "allocate s g = Some (cur_brk s, grown s g)" using ok hg room by (rule allocate_ok)
  from append_block_ok[OF ok hg room] obtain s2 where
    s2: "add_block (grown s g) (cur_brk s) = Some s2" "heap_ok s2 (xs @ [(cur_brk s, g, True)])"
      "cur_brk s2 = cur_brk s + g" by blast
  have "?m < g" using ok g by (auto simp: heap_ok_def intro: round_pages_gt)
  with take_block_correct[OF s2(2), of ?m] n obtain s' where
    t: "take_block s2 (cur_brk s) ?m = Some (cur_brk s + HEADER_SIZE, s')"
      "heap_ok s' (xs @ split_blk (cur_brk s) g ?m)" "cur_brk s' = cur_brk s2" by auto
  have "cur_brk s \<noteq> 0" using ok tiles_le by (fastforce simp: heap_ok_def)
  then have "my_malloc s n = Some (cur_brk s + HEADER_SIZE, s')"
    using n scan pr al s2 t(1) by (simp add: my_malloc_def Let_def)
  then show ?thesis using t s2 by simp
qed

lemma my_malloc_simulates:
  assumes ok: "heap_ok s xs" and n: "0 < n" "n + HEADER_SIZE < SIZE_MOD"
    and spec: "spec_malloc (page_size s) (cur_brk s) xs (n + HEADER_SIZE) = (p, ys, hi)"
    and room: "hi \<le> brk_max s"
  shows "\<exists>s'. my_malloc s n = Some (p + HEADER_SIZE, s') \<and> heap_ok s' ys \<and> cur_brk s' = hi"
proof (cases "take_fit (n + HEADER_SIZE) xs")
  case (Some r)
  then show ?thesis
    using my_malloc_fit[OF ok n] spec by (cases r) (auto simp: spec_malloc_def)
next
  case None
  show ?thesis
  proof (cases xs rule: rev_cases)
    case Nil
    then show ?thesis
      using my_malloc_append[OF ok n None _ refl] spec room by (auto simp: spec_malloc_def)
  next
    case (snoc us x)
    obtain a k f where x: "x = (a, k, f)" by (cases x)
    show ?thesis
    proof (cases f)
      case True
      then show ?thesis
        using my_malloc_extend[of s us a k n, OF _ n _ refl] ok None snoc x spec room
        by (auto simp: spec_malloc_def Let_def)
    next
      case False
      then show ?thesis
        using my_malloc_append[OF ok n None _ refl] None snoc x spec room by (auto simp: spec_malloc_def)
    qed
  qed
qed

section \<open>What allocation promises its caller\<close>

definition used :: "blk list \<Rightarrow> (nat \<times> nat) set" where
  "used xs = {(a, n). (a, n, False) \<in> set xs}"

lemma used_append [simp]: "used (xs @ ys) = used xs \<union> used ys"
  by (auto simp: used_def)

lemma used_Cons [simp]: "used ((a, n, f) # xs) = (if f then used xs else insert (a, n) (used xs))"
  by (auto simp: used_def)

lemma used_Nil [simp]: "used [] = {}"
  by (simp add: used_def)

lemma tiles_sep:
  "tiles lo xs hi \<Longrightarrow> (a, n, f) \<in> set xs \<Longrightarrow> (b, k, g) \<in> set xs \<Longrightarrow>
   a = b \<and> n = k \<and> f = g \<or> a + n \<le> b \<or> b + k \<le> a"
proof (induction lo xs hi rule: tiles.induct)
  case (2 lo c l h xs hi)
  then show ?case
    using tiles_addr_bounds[of "c + l" xs hi] by fastforce
qed simp

lemma tiles_top: "tiles lo xs hi \<Longrightarrow> (a, n, f) \<in> set xs \<Longrightarrow> a + n \<le> hi"
proof (induction lo xs hi rule: tiles.induct)
  case (2 lo c l h xs hi)
  then show ?case using tiles_le by auto
qed simp

lemma split_blk_used: "\<exists>k \<ge> m. m \<le> n \<longrightarrow> used (split_blk a n m) = {(a, k)} \<and> (a, k, False) \<in> set (split_blk a n m)"
  by (auto simp: split_blk_def)

lemma spec_malloc_used:
  assumes "spec_malloc pg hi xs m = (p, ys, hi')" "0 < pg"
  shows "\<exists>k \<ge> m. used ys = insert (p, k) (used xs) \<and> (p, k, False) \<in> set ys"
proof (cases "take_fit m xs")
  case (Some r)
  then have r: "r = (p, ys)" using assms by (cases r) (simp add: spec_malloc_def)
  with Some obtain us n vs where "xs = us @ (p, n, True) # vs" "m \<le> n" "ys = us @ split_blk p n m @ vs"
    using take_fit_Some by blast
  then show ?thesis using split_blk_used[of m n p] by auto
next
  case None
  show ?thesis
  proof (cases "xs \<noteq> [] \<and> snd (snd (last xs))")
    case True
    then obtain us a n where xs: "xs = us @ [(a, n, True)]" by (cases xs rule: rev_cases) auto
    have "m \<le> n + round_pages pg (m - n)" using round_pages_gt[OF assms(2), of "m - n"] by simp
    then show ?thesis
      using assms None xs split_blk_used[of m "n + round_pages pg (m - n)" a]
      by (auto simp: spec_malloc_def Let_def)
  next
    case False
    then have ys: "p = hi" "ys = xs @ split_blk hi (round_pages pg m) m"
      using assms None by (auto simp: spec_malloc_def)
    obtain k where "m \<le> k" "used (split_blk hi (round_pages pg m) m) = {(hi, k)}"
        "(hi, k, False) \<in> set (split_blk hi (round_pages pg m) m)"
      using split_blk_used[of m "round_pages pg m" hi] round_pages_gt[OF assms(2), of m] by auto
    then show ?thesis using ys by (intro exI[of _ k]) auto
  qed
qed

lemma tiles_free_not_used: "tiles lo xs hi \<Longrightarrow> (p, n, True) \<in> set xs \<Longrightarrow> (p, l) \<notin> used xs"
proof
  assume t: "tiles lo xs hi" and p: "(p, n, True) \<in> set xs" and u: "(p, l) \<in> used xs"
  have pos: "0 < j" if "(p, j, f) \<in> set xs" for j f
    using t that by (induction lo xs hi rule: tiles.induct) auto
  show False
    using tiles_sep[OF t p, of p l False] u pos[OF p] pos[of l False] by (auto simp: used_def)
qed

lemma spec_malloc_not_used:
  assumes t: "tiles lo xs hi" and spec: "spec_malloc pg hi xs m = (p, ys, hi')"
  shows "(p, l) \<notin> used xs"
proof -
  have "(\<exists>n. (p, n, True) \<in> set xs) \<or> p = hi"
  proof (cases "take_fit m xs")
    case (Some r)
    then have "take_fit m xs = Some (p, ys)" using spec by (cases r) (simp add: spec_malloc_def)
    then show ?thesis using take_fit_Some by fastforce
  next
    case None
    then show ?thesis
      using spec last_in_set[of xs]
      by (cases "last xs") (auto simp: spec_malloc_def Let_def split: if_splits)
  qed
  then show ?thesis
    using t tiles_free_not_used tiles_addr_bounds[OF t] by (fastforce simp: used_def)
qed

lemma spec_malloc_brk: "spec_malloc pg hi xs m = (p, ys, hi') \<Longrightarrow> hi' \<le> hi + m + pg"
  using round_pages_le[of pg m] round_pages_le[of pg "m - fst (snd (last xs))"]
  by (auto simp: spec_malloc_def Let_def split: option.splits if_splits prod.splits)

lemma my_malloc_safe:
  assumes ok: "heap_ok s xs" and n: "0 < n"
    and room: "cur_brk s + n + HEADER_SIZE + page_size s \<le> brk_max s"
  shows "\<exists>p s' ys k. my_malloc s n = Some (p + HEADER_SIZE, s') \<and> heap_ok s' ys \<and>
     n + HEADER_SIZE \<le> k \<and> p + k \<le> cur_brk s' \<and> used ys = insert (p, k) (used xs) \<and>
     (\<forall>(a, l) \<in> used xs. a + l \<le> p \<or> p + k \<le> a) \<and>
     cur_brk s' \<le> cur_brk s + n + HEADER_SIZE + page_size s"
proof -
  obtain p ys hi where spec: "spec_malloc (page_size s) (cur_brk s) xs (n + HEADER_SIZE) = (p, ys, hi)"
    by (metis prod_cases3)
  have glob: "0 < page_size s" "brk_max s < SIZE_MOD" using ok by (auto simp: heap_ok_def SIZE_MOD_def)
  have "hi \<le> brk_max s" using spec_malloc_brk[OF spec] room by simp
  with my_malloc_simulates[OF ok n _ spec] room glob obtain s' where
    s': "my_malloc s n = Some (p + HEADER_SIZE, s')" "heap_ok s' ys" "cur_brk s' = hi" by auto
  from spec_malloc_used[OF spec glob(1)] obtain k where
    k: "n + HEADER_SIZE \<le> k" "used ys = insert (p, k) (used xs)" "(p, k, False) \<in> set ys" by blast
  have "a + l \<le> p \<or> p + k \<le> a" if al: "(a, l) \<in> used xs" for a l
  proof -
    have "(a, l, False) \<in> set ys" using al k(2) by (auto simp: used_def)
    moreover have "a \<noteq> p" using spec_malloc_not_used[OF _ spec] ok al by (auto simp: heap_ok_def)
    ultimately show ?thesis
      using tiles_sep[OF _ _ k(3)] s'(2) by (fastforce simp: heap_ok_def)
  qed
  moreover have "p + k \<le> cur_brk s'" using s'(2) k(3) tiles_top by (auto simp: heap_ok_def)
  moreover have "cur_brk s' \<le> cur_brk s + n + HEADER_SIZE + page_size s"
    using spec_malloc_brk[OF spec] s'(3) by simp
  ultimately show ?thesis using s' k by blast
qed

section \<open>Freeing\<close>

definition prev_of :: "heap_state \<Rightarrow> nat \<Rightarrow> nat option" where
  "prev_of s p = map_option bprev (load s p)"

text \<open>The \<^verbatim>\<open>prev\<close> links agree with the order of the list (\<open>q\<close> precedes the first block).\<close>

fun prevs :: "heap_state \<Rightarrow> nat \<Rightarrow> blk list \<Rightarrow> bool" where
  "prevs s q [] = True"
| "prevs s q ((a, n, f) # xs) = (prev_of s a = Some q \<and> prevs s a xs)"

text \<open>No two adjacent blocks are both free.\<close>

fun coalesced :: "blk list \<Rightarrow> bool" where
  "coalesced ((a, n, f) # (b, k, g) # xs) = (\<not> (f \<and> g) \<and> coalesced ((b, k, g) # xs))"
| "coalesced xs = True"

lemma merge_next_correct:
  assumes ok: "heap_ok s (us @ (a, n, f) # (d, k, True) # ws)"
  shows "\<exists>s'. merge_next s a = Some s' \<and> heap_ok s' (us @ (a, n + k, f) # ws) \<and>
     (\<forall>x. prev_of s' x = prev_of s x) \<and> brk_max s' = brk_max s \<and> page_size s' = page_size s"
proof -
  from ok obtain b where b: "load s a = Some b" "bsize b = n" "bfree b = f"
      "seg s (first_block s) us a" "seg s (bnext b) ((d, k, True) # ws) 0" "tiles (brk_min s) us a"
      "tiles (a + n) ((d, k, True) # ws) (cur_brk s)" "HEADER_SIZE < n" "0 < a" "a + n \<le> cur_brk s"
      "cur_brk s < 2 ^ 62" "a \<notin> addr ` set us" "a \<notin> addr ` set ((d, k, True) # ws)"
    by (rule heap_okE)
  from ok have glob: "0 < brk_min s" "cur_brk s \<le> brk_max s" "brk_max s < 2 ^ 62" "HEADER_SIZE < page_size s"
    by (auto simp: heap_ok_def)
  from b(5) obtain e where e: "bnext b = d" "d \<noteq> 0" "load s d = Some e" "bsize e = k" "bfree e"
      "seg s (bnext e) ws 0" by (auto split: option.splits)
  have ti: "d = a + n" "HEADER_SIZE < k" "tiles (a + n + k) ws (cur_brk s)" using b(7) by auto
  have "n + k < SIZE_MOD" using tiles_le[OF ti(3)] b(11) by (simp add: SIZE_MOD_def)
  then have add: "sz_add n k = n + k" by simp
  have va: "valid_hdr s a" using b(1) by (rule load_Some_valid)
  let ?b = "b\<lparr>bsize := n + k, bnext := bnext e\<rparr>"
  let ?s = "s\<lparr>hmem := (hmem s)(a \<mapsto> ?b)\<rparr>"
  have "merge_next s a = Some ?s"
    using b e va by (simp add: merge_next_def store_def add)
  moreover have "heap_ok ?s (us @ (a, n + k, f) # ws)"
    by (rule heap_okI[where b = ?b])
      (use b e ti va glob in \<open>simp_all add: load_upd seg_upd add.assoc\<close>)
  moreover have "\<forall>x. prev_of ?s x = prev_of s x"
    using b(1) va by (simp add: prev_of_def load_upd)
  ultimately show ?thesis by simp
qed

lemma merge_next_none:
  assumes "heap_ok s (us @ (a, n, f) # vs)" "vs = [] \<or> \<not> snd (snd (hd vs))"
  shows "merge_next s a = Some s"
  using assms by (elim heap_okE, cases vs) (auto simp: merge_next_def split: option.splits)

lemma merge_prev_correct:
  assumes ok: "heap_ok s (us @ (c, l, True) # (a, n, True) # vs)" and pr: "prev_of s a = Some c"
  shows "\<exists>s'. merge_prev s a = Some (c, s') \<and> heap_ok s' (us @ (c, l + n, True) # vs) \<and>
     (\<forall>x. prev_of s' x = (if vs \<noteq> [] \<and> x = addr (hd vs) then Some c else prev_of s x)) \<and>
     brk_max s' = brk_max s \<and> page_size s' = page_size s"
proof -
  from ok obtain pb where pb: "load s c = Some pb" "bsize pb = l" "bfree pb"
      "seg s (first_block s) us c" "seg s (bnext pb) ((a, n, True) # vs) 0" "tiles (brk_min s) us c"
      "tiles (c + l) ((a, n, True) # vs) (cur_brk s)" "HEADER_SIZE < l" "0 < c"
      "cur_brk s < 2 ^ 62" "c \<notin> addr ` set us" "c \<notin> addr ` set ((a, n, True) # vs)"
    by (elim heap_okE) auto
  from ok have glob: "0 < brk_min s" "cur_brk s \<le> brk_max s" "brk_max s < 2 ^ 62" "HEADER_SIZE < page_size s"
    by (auto simp: heap_ok_def)
  from pb(5) pr obtain b where b: "load s a = Some b" "bsize b = n" "bfree b" "bprev b = c"
      "seg s (bnext b) vs 0" by (auto simp: prev_of_def split: option.splits)
  have ti: "a = c + l" "HEADER_SIZE < n" "tiles (c + l + n) vs (cur_brk s)" using pb(7) by auto
  have "l + n < SIZE_MOD" using tiles_le[OF ti(3)] pb(10) by (simp add: SIZE_MOD_def)
  then have add: "sz_add l n = l + n" by simp
  have vc: "valid_hdr s c" using pb(1) by (rule load_Some_valid)
  let ?pb = "pb\<lparr>bsize := l + n, bnext := bnext b\<rparr>"
  let ?s1 = "s\<lparr>hmem := (hmem s)(c \<mapsto> ?pb)\<rparr>"
  show ?thesis
  proof (cases vs)
    case Nil
    then have "merge_prev s a = Some (c, ?s1)"
      using b pb(1-3,9) vc by (simp add: merge_prev_def store_def add)
    moreover have "heap_ok ?s1 (us @ (c, l + n, True) # [])"
      by (rule heap_okI[where b = ?pb])
        (use b pb ti vc glob Nil in \<open>simp_all add: load_upd seg_upd add.assoc\<close>)
    moreover have "\<forall>x. prev_of ?s1 x = prev_of s x"
      using pb(1) vc by (simp add: prev_of_def load_upd)
    ultimately show ?thesis using Nil by simp
  next
    case (Cons v ws)
    obtain d k g where v: "v = (d, k, g)" by (cases v)
    from b(5) Cons v obtain e where e: "bnext b = d" "d \<noteq> 0" "load s d = Some e" "bsize e = k"
        "bfree e = g" "seg s (bnext e) ws 0" by (auto split: option.splits)
    have td: "d = c + l + n" "HEADER_SIZE < k" "tiles (c + l + n + k) ws (cur_brk s)"
      using ti(3) Cons v by auto
    have vd: "valid_hdr s d" using e(3) by (rule load_Some_valid)
    have dn: "d \<notin> addr ` set us" "d \<notin> addr ` set ws" "c \<noteq> d" "c \<notin> addr ` set ws"
      using tiles_notin_above[OF pb(6), of d] tiles_notin_below[OF td(3)] td pb(8) by auto
    let ?s2 = "?s1\<lparr>hmem := (hmem ?s1)(d \<mapsto> e\<lparr>bprev := c\<rparr>)\<rparr>"
    have "merge_prev s a = Some (c, ?s2)"
      using b e pb(1-3,9) vc vd dn by (simp add: merge_prev_def store_def add load_upd)
    moreover have "heap_ok ?s2 (us @ (c, l + n, True) # (d, k, g) # ws)"
      by (rule heap_okI[where b = ?pb])
        (use b e pb ti td vc vd glob dn in \<open>simp_all add: load_upd seg_upd add.assoc\<close>)
    moreover have "\<forall>x. prev_of ?s2 x = (if x = d then Some c else prev_of s x)"
      using pb(1) vc vd dn by (auto simp: prev_of_def load_upd)
    ultimately show ?thesis using Cons v by simp
  qed
qed

lemma merge_prev_none:
  assumes "heap_ok s (us @ (a, n, f) # vs)" "us = [] \<and> prev_of s a = Some 0 \<or>
     us \<noteq> [] \<and> \<not> snd (snd (last us)) \<and> prev_of s a = Some (addr (last us))"
  shows "merge_prev s a = Some (a, s)"
  using assms(2)
proof (elim disjE conjE)
  assume "us \<noteq> []" and u: "\<not> snd (snd (last us))" and p: "prev_of s a = Some (addr (last us))"
  then obtain us' c l where us: "us = us' @ [(c, l, False)]"
    by (cases us rule: rev_cases) auto
  have "heap_ok s (us' @ (c, l, False) # (a, n, f) # vs)" using assms(1) us by simp
  then obtain pb where "load s c = Some pb" "\<not> bfree pb" by (elim heap_okE) auto
  then show ?thesis using p us by (auto simp: merge_prev_def prev_of_def)
qed (auto simp: merge_prev_def prev_of_def)

lemma prevs_cong:
  "(\<And>x. x \<in> addr ` set xs \<Longrightarrow> prev_of t x = prev_of s x) \<Longrightarrow> prevs t q xs = prevs s q xs"
  by (induction s q xs rule: prevs.induct) auto

lemma prevs_append:
  "prevs s q (xs @ ys) \<longleftrightarrow> prevs s q xs \<and> prevs s (if xs = [] then q else addr (last xs)) ys"
  by (induction s q xs rule: prevs.induct) auto

lemma heap_ok_tiles: "heap_ok s xs \<Longrightarrow> tiles (brk_min s) xs (cur_brk s)"
  by (simp add: heap_ok_def)

lemma mark_free_ok:
  assumes ok: "heap_ok s (us @ (a, n, f) # vs)"
  shows "\<exists>b s1. load s a = Some b \<and> store s a (b\<lparr>bfree := True\<rparr>) = Some s1 \<and>
     heap_ok s1 (us @ (a, n, True) # vs) \<and> (\<forall>x. prev_of s1 x = prev_of s x) \<and>
     page_size s1 = page_size s"
proof -
  from ok obtain b where b: "load s a = Some b" "bsize b = n" "bfree b = f"
      "seg s (first_block s) us a" "seg s (bnext b) vs 0" "tiles (brk_min s) us a"
      "tiles (a + n) vs (cur_brk s)" "HEADER_SIZE < n" "a \<notin> addr ` set us" "a \<notin> addr ` set vs"
    by (rule heap_okE)
  from ok have glob: "0 < brk_min s" "cur_brk s \<le> brk_max s" "brk_max s < 2 ^ 62" "HEADER_SIZE < page_size s"
    by (auto simp: heap_ok_def)
  have va: "valid_hdr s a" using b(1) by (rule load_Some_valid)
  let ?s1 = "s\<lparr>hmem := (hmem s)(a \<mapsto> b\<lparr>bfree := True\<rparr>)\<rparr>"
  have "heap_ok ?s1 (us @ (a, n, True) # vs)"
    by (rule heap_okI[where b = "b\<lparr>bfree := True\<rparr>"])
      (use b va glob in \<open>simp_all add: load_upd seg_upd\<close>)
  moreover have "\<forall>x. prev_of ?s1 x = prev_of s x" using b(1) va by (simp add: prev_of_def load_upd)
  ultimately show ?thesis using b(1) va by (simp add: store_def)
qed

definition spec_join_prev :: "blk list \<Rightarrow> nat \<Rightarrow> nat \<Rightarrow> blk list \<times> nat \<times> nat" where
  "spec_join_prev us a n =
     (if us \<noteq> [] \<and> snd (snd (last us)) then (butlast us, addr (last us), fst (snd (last us)) + n)
      else (us, a, n))"

definition spec_join_next :: "nat \<Rightarrow> blk list \<Rightarrow> nat \<times> blk list" where
  "spec_join_next n vs =
     (if vs \<noteq> [] \<and> snd (snd (hd vs)) then (n + fst (snd (hd vs)), tl vs) else (n, vs))"

text \<open>What \<^verbatim>\<open>free_and_merge\<close> means on the block list.\<close>

definition spec_free :: "blk list \<Rightarrow> nat \<Rightarrow> nat \<Rightarrow> blk list \<Rightarrow> blk list" where
  "spec_free us a n vs =
     (let (us', a', n') = spec_join_prev us a n; (n'', vs') = spec_join_next n' vs
      in us' @ (a', n'', True) # vs')"

lemma merge_prev_step:
  assumes ok: "heap_ok s (us @ (a, n, True) # vs)" and pr: "prevs s 0 (us @ (a, n, True) # vs)"
    and j: "spec_join_prev us a n = (us', a', n')"
  shows "\<exists>s'. merge_prev s a = Some (a', s') \<and> heap_ok s' (us' @ (a', n', True) # vs) \<and>
     prevs s' 0 (us' @ (a', n', True) # vs) \<and> page_size s' = page_size s"
proof (cases "us \<noteq> [] \<and> snd (snd (last us))")
  case True
  then obtain c l where us: "us = us' @ [(c, l, True)]" "a' = c" "n' = l + n"
    using j by (cases us rule: rev_cases) (auto simp: spec_join_prev_def)
  have ok': "heap_ok s (us' @ (c, l, True) # (a, n, True) # vs)" using ok us by simp
  have pa: "prev_of s a = Some c" using pr us by (simp add: prevs_append)
  from merge_prev_correct[OF ok' pa] obtain s' where s': "merge_prev s a = Some (c, s')"
      "heap_ok s' (us' @ (c, l + n, True) # vs)"
      "\<And>x. prev_of s' x = (if vs \<noteq> [] \<and> x = addr (hd vs) then Some c else prev_of s x)"
      "page_size s' = page_size s" by blast
  have t: "tiles (brk_min s) us' c" "HEADER_SIZE < n" "HEADER_SIZE < l" "tiles (c + l + n) vs (cur_brk s)"
    using heap_ok_tiles[OF ok'] by (auto simp: tiles_append)
  have low: "x \<noteq> addr (hd vs)" if "x \<in> addr ` set us' \<or> x = c" "vs \<noteq> []" for x
    using that tiles_addr_bounds[OF t(1)] tiles_addr_bounds[OF t(4), of "hd vs"] t(3) by fastforce
  have "prevs s' 0 us' = prevs s 0 us'"
    using low s'(3) by (intro prevs_cong) auto
  moreover have "prev_of s' c = prev_of s c" using low s'(3) by auto
  moreover have "prevs s' c vs"
  proof (cases vs)
    case (Cons v ws)
    obtain d k g where v: "v = (d, k, g)" by (cases v)
    have "d \<notin> addr ` set ws" using t(4) Cons v tiles_notin_below[of "d + k" ws "cur_brk s" d] by auto
    then have "prevs s' d ws = prevs s d ws" using Cons v s'(3) by (intro prevs_cong) auto
    then show ?thesis using Cons v s'(3) pr us by (simp add: prevs_append)
  qed simp
  ultimately show ?thesis using s' us pr by (auto simp: prevs_append)
next
  case False
  then have "us' = us" "a' = a" "n' = n" using j by (auto simp: spec_join_prev_def)
  moreover have "merge_prev s a = Some (a, s)"
    using ok by (rule merge_prev_none) (use False pr in \<open>auto simp: prevs_append\<close>)
  ultimately show ?thesis using ok pr by simp
qed

lemma merge_next_step:
  assumes ok: "heap_ok s (us @ (a, n, True) # vs)" and j: "spec_join_next n vs = (n', vs')"
  shows "\<exists>s'. merge_next s a = Some s' \<and> heap_ok s' (us @ (a, n', True) # vs') \<and>
     (\<forall>x. prev_of s' x = prev_of s x) \<and> page_size s' = page_size s"
proof (cases "vs \<noteq> [] \<and> snd (snd (hd vs))")
  case True
  then obtain d k ws where "vs = (d, k, True) # ws" by (cases vs) auto
  then show ?thesis using merge_next_correct[of s us a n True d k ws] ok j
    by (auto simp: spec_join_next_def)
next
  case False
  then show ?thesis using merge_next_none[OF ok] ok j by (auto simp: spec_join_next_def)
qed

lemma free_and_merge_correct:
  assumes ok: "heap_ok s (us @ (a, n, f) # vs)" and pr: "prevs s 0 (us @ (a, n, f) # vs)"
    and j: "spec_join_prev us a n = (us', a', n')" "spec_join_next n' vs = (n'', vs')"
  shows "\<exists>s'. free_and_merge s a = Some s' \<and> heap_ok s' (us' @ (a', n'', True) # vs') \<and>
     prevs s' 0 (us' @ (a', n'', True) # vs) \<and> page_size s' = page_size s"
proof -
  from mark_free_ok[OF ok] obtain b s1 where s1: "load s a = Some b"
      "store s a (b\<lparr>bfree := True\<rparr>) = Some s1" "heap_ok s1 (us @ (a, n, True) # vs)"
      "\<And>x. prev_of s1 x = prev_of s x" "page_size s1 = page_size s" by blast
  have "prevs s1 0 (us @ (a, n, True) # vs)"
    using pr prevs_cong[OF s1(4)] s1(4) by (simp add: prevs_append)
  from merge_prev_step[OF s1(3) this j(1)] obtain s2 where s2: "merge_prev s1 a = Some (a', s2)"
      "heap_ok s2 (us' @ (a', n', True) # vs)" "prevs s2 0 (us' @ (a', n', True) # vs)"
      "page_size s2 = page_size s1" by blast
  from merge_next_step[OF s2(2) j(2)] obtain s3 where s3: "merge_next s2 a' = Some s3"
      "heap_ok s3 (us' @ (a', n'', True) # vs')" "\<And>x. prev_of s3 x = prev_of s2 x"
      "page_size s3 = page_size s2" by blast
  have "prevs s3 0 (us' @ (a', n'', True) # vs)"
    using s2(3) prevs_cong[OF s3(3)] s3(3) by (simp add: prevs_append)
  then show ?thesis using s1 s2 s3 by (simp add: free_and_merge_def)
qed

section \<open>Returning memory to the system\<close>

fun spec_release_scan :: "blk list \<Rightarrow> nat \<Rightarrow> nat \<Rightarrow> nat \<times> nat" where
  "spec_release_scan [] ff tot = (ff, tot)"
| "spec_release_scan ((a, n, f) # xs) ff tot =
     (if f then spec_release_scan xs a (sz_add tot n) else spec_release_scan xs 0 0)"

lemma release_scan_seg:
  "seg s p xs 0 \<Longrightarrow> release_scan s p ff tot = Some (spec_release_scan xs ff tot)"
proof (induction xs arbitrary: p ff tot)
  case Nil
  then show ?case by (simp add: release_scan.simps)
next
  case (Cons x xs)
  then show ?case
    by (cases x) (auto simp: release_scan.simps[of s p] split: option.splits)
qed

lemma spec_release_scan_last:
  "xs \<noteq> [] \<Longrightarrow> fst (spec_release_scan xs ff tot) = (if snd (snd (last xs)) then addr (last xs) else 0) \<and>
     (\<not> snd (snd (last xs)) \<longrightarrow> snd (spec_release_scan xs ff tot) = 0)"
proof (induction xs ff tot rule: spec_release_scan.induct)
  case (2 a n f xs ff tot)
  then show ?case by (cases "xs = []") auto
qed simp

lemma seg_brk_shrink:
  "seg s r xs q \<Longrightarrow> tiles lo xs hi \<Longrightarrow> brk_min s \<le> lo \<Longrightarrow> seg (s\<lparr>cur_brk := hi\<rparr>) r xs q"
proof (induction s r xs q arbitrary: lo rule: seg.induct)
  case (2 s p a n f xs q)
  then have "a + n \<le> hi" "HEADER_SIZE < n" "brk_min s \<le> a" "brk_min s \<le> a + n"
    using tiles_le by auto
  moreover obtain b where b: "load s a = Some b" using "2.prems" by (auto split: option.splits)
  ultimately have "load (s\<lparr>cur_brk := hi\<rparr>) a = Some b"
    by (auto simp: load_def valid_hdr_def split: if_splits)
  then show ?case using "2.IH"[OF b, of "a + n"] "2.prems" b \<open>brk_min s \<le> a + n\<close> by auto
qed simp

lemma cut_last_ok:
  assumes ok: "heap_ok s (us @ [(c, l, g), (d, k, True)])"
  shows "\<exists>pb. load s c = Some pb \<and> store s c (pb\<lparr>bnext := 0\<rparr>) =
       Some (s\<lparr>hmem := (hmem s)(c \<mapsto> pb\<lparr>bnext := 0\<rparr>)\<rparr>) \<and>
     heap_ok (brk (s\<lparr>hmem := (hmem s)(c \<mapsto> pb\<lparr>bnext := 0\<rparr>)\<rparr>) d) (us @ [(c, l, g)])"
proof -
  from ok obtain pb where pb: "load s c = Some pb" "bsize pb = l" "bfree pb = g"
      "seg s (first_block s) us c" "tiles (brk_min s) us c"
      "tiles (c + l) [(d, k, True)] (cur_brk s)" "HEADER_SIZE < l" "0 < c"
      "c \<notin> addr ` set us"
    using heap_okE[of s us c l g "[(d, k, True)]"] by auto
  have vc: "valid_hdr s c" using pb(1) by (rule load_Some_valid)
  have d: "d = c + l" "d \<le> cur_brk s" "brk_min s \<le> c" using pb(6) tiles_le[OF pb(5)] by auto
  let ?s1 = "s\<lparr>hmem := (hmem s)(c \<mapsto> pb\<lparr>bnext := 0\<rparr>)\<rparr>"
  have "seg ?s1 (first_block s) (us @ [(c, l, g)]) 0"
    using pb vc by (simp add: seg_append seg_upd load_upd)
  moreover have "tiles (brk_min s) (us @ [(c, l, g)]) d"
    using pb d by (auto simp: tiles_append)
  ultimately have "seg (?s1\<lparr>cur_brk := d\<rparr>) (first_block s) (us @ [(c, l, g)]) 0"
    by (intro seg_brk_shrink) auto
  then have "heap_ok (brk ?s1 d) (us @ [(c, l, g)])"
    using ok d pb by (auto simp: heap_ok_def brk_def tiles_append)
  then show ?thesis using pb(1) vc by (simp add: store_def)
qed

lemma first_block_eq: "heap_ok s xs \<Longrightarrow> xs \<noteq> [] \<Longrightarrow> first_block s = brk_min s"
  by (cases xs) (auto simp: heap_ok_def)

text \<open>Either nothing is released, or exactly the free last block is given back.\<close>

lemma release_correct:
  assumes ok: "heap_ok s xs"
    and pr: "\<And>us c l g d k. xs = us @ [(c, l, g), (d, k, True)] \<Longrightarrow> prev_of s d = Some c"
  shows "\<exists>s'. release_resource_if_need s = Some s' \<and>
     (s' = s \<or> xs \<noteq> [] \<and> snd (snd (last xs)) \<and> heap_ok s' (butlast xs) \<and> cur_brk s' = addr (last xs))"
proof -
  obtain ff tot where sc: "spec_release_scan xs 0 0 = (ff, tot)" by fastforce
  have rs: "release_scan s (first_block s) 0 0 = Some (ff, tot)"
    using release_scan_seg[of s "first_block s" xs] ok sc by (simp add: heap_ok_def)
  show ?thesis
  proof (cases "tot < MEM_DEALLOC_SIZE s")
    case True
    then show ?thesis using rs by (simp add: release_resource_if_need_def)
  next
    case False
    then have "tot \<noteq> 0" using ok by (auto simp: heap_ok_def MEM_DEALLOC_SIZE_def)
    then have ne: "xs \<noteq> []" using sc by auto
    then have free: "snd (snd (last xs))" and ff: "ff = addr (last xs)"
      using sc spec_release_scan_last[OF ne, of 0 0] \<open>tot \<noteq> 0\<close> by (auto split: if_splits)
    show ?thesis
    proof (cases "butlast xs" rule: rev_cases)
      case Nil
      with ne free ff obtain k where xs: "xs = [(ff, k, True)]"
        by (cases xs rule: rev_cases) auto
      then have "ff = first_block s" "ff = brk_min s" using ok by (auto simp: heap_ok_def)
      then have "release_resource_if_need s = Some (brk (s\<lparr>first_block := 0\<rparr>) ff)"
        using rs False by (simp add: release_resource_if_need_def)
      moreover have "heap_ok (brk (s\<lparr>first_block := 0\<rparr>) ff) [] \<and> cur_brk (brk (s\<lparr>first_block := 0\<rparr>) ff) = ff"
        using ok \<open>ff = brk_min s\<close> xs by (auto simp: heap_ok_def brk_def)
      ultimately show ?thesis using xs by simp
    next
      case (snoc us y)
      obtain c l g where y: "y = (c, l, g)" by (cases y)
      obtain k where xs: "xs = us @ [(c, l, g), (ff, k, True)]"
        using ne free ff snoc y append_butlast_last_id[OF ne] by (cases "last xs") auto
      from cut_last_ok[of s us c l g ff k] ok xs obtain pb where
        pb: "load s c = Some pb" "store s c (pb\<lparr>bnext := 0\<rparr>) =
            Some (s\<lparr>hmem := (hmem s)(c \<mapsto> pb\<lparr>bnext := 0\<rparr>)\<rparr>)"
          "heap_ok (brk (s\<lparr>hmem := (hmem s)(c \<mapsto> pb\<lparr>bnext := 0\<rparr>)\<rparr>) ff) (us @ [(c, l, g)])" by auto
      have t: "brk_min s \<le> c" "c < ff" "ff \<le> brk_max s"
        using ok xs tiles_le by (fastforce simp: heap_ok_def tiles_append)+
      then have "ff \<noteq> first_block s" using first_block_eq[OF ok] xs by simp
      moreover obtain fb where "load s ff = Some fb" "bprev fb = c"
        using pr[OF xs] by (auto simp: prev_of_def)
      ultimately have "release_resource_if_need s =
          Some (brk (s\<lparr>hmem := (hmem s)(c \<mapsto> pb\<lparr>bnext := 0\<rparr>)\<rparr>) ff)"
        using rs False pb by (simp add: release_resource_if_need_def)
      moreover have "cur_brk (brk (s\<lparr>hmem := (hmem s)(c \<mapsto> pb\<lparr>bnext := 0\<rparr>)\<rparr>) ff) = ff"
        using t by (simp add: brk_def)
      ultimately show ?thesis using pb(3) xs by (simp add: butlast_append)
    qed
  qed
qed

lemma used_spec_free:
  assumes "tiles lo (us @ (a, n, False) # vs) hi"
  shows "used (spec_free us a n vs) = used (us @ (a, n, False) # vs) - {(a, n)}"
proof -
  have nin: "(a, n) \<notin> used us" "(a, n) \<notin> used vs"
    using assms tiles_notin_above[of lo us a a] tiles_notin_below[of "a + n" vs hi a]
    by (force simp: tiles_append used_def)+
  have "used (us' @ (a', n', True) # vs) = used (us @ vs)" if "spec_join_prev us a n = (us', a', n')" for us' a' n'
    using that by (cases us rule: rev_cases) (auto simp: spec_join_prev_def split: if_splits)
  moreover have "used vs' = used vs" if "spec_join_next k vs = (k', vs')" for k k' vs'
    using that by (cases vs) (auto simp: spec_join_next_def split: if_splits)
  ultimately show ?thesis
    using nin by (fastforce simp: spec_free_def split: prod.splits)
qed

lemma coalesced_tail: "coalesced (xs @ ys) \<Longrightarrow> coalesced ys"
proof (induction xs)
  case (Cons x xs)
  then show ?case by (cases x; cases "xs @ ys") auto
qed simp

lemma coalesced_adjacent: "coalesced (xs @ (a, n, True) # (b, k, True) # ys) \<Longrightarrow> False"
  using coalesced_tail by fastforce

lemma free_last_prev:
  assumes pr: "prevs s 0 (us' @ (a', n'', True) # vs)" and j: "spec_join_next n' vs = (n'', vs')"
    and co: "coalesced vs" and eq: "us' @ (a', n'', True) # vs' = ws @ [(c, l, g), (d, k, True)]"
  shows "prev_of s d = Some c"
proof (cases vs' rule: rev_cases)
  case Nil
  then show ?thesis using eq pr by (auto simp: prevs_append)
next
  case (snoc zs z)
  then have z: "z = (d, k, True)" "us' @ (a', n'', True) # zs = ws @ [(c, l, g)]" using eq by auto
  show ?thesis
  proof (cases zs rule: rev_cases)
    case Nil
    then have "False"
      using j z snoc co by (cases vs) (auto simp: spec_join_next_def split: if_splits)
    then show ?thesis ..
  next
    case (snoc zs' y)
    then have "vs' = zs' @ [(c, l, g), (d, k, True)]" using \<open>vs' = zs @ [z]\<close> z by auto
    moreover obtain h where "vs = h @ vs'" using j by (cases vs) (auto simp: spec_join_next_def split: if_splits)
    ultimately show ?thesis using pr by (simp add: prevs_append)
  qed
qed

lemma my_free_step:
  assumes ok: "heap_ok s (us @ (a, n, False) # vs)" and pr: "prevs s 0 (us @ (a, n, False) # vs)"
    and co: "coalesced (us @ (a, n, False) # vs)"
  shows "\<exists>s' zs. my_free s (a + HEADER_SIZE) = Some s' \<and> heap_ok s' zs \<and>
     used zs = used (us @ (a, n, False) # vs) - {(a, n)} \<and>
     (zs = spec_free us a n vs \<or> zs = butlast (spec_free us a n vs) \<and> cur_brk s' = addr (last (spec_free us a n vs)))"
proof -
  obtain us' a' n' n'' vs' where j: "spec_join_prev us a n = (us', a', n')" "spec_join_next n' vs = (n'', vs')"
    by (metis prod_cases3 surj_pair)
  let ?zs = "us' @ (a', n'', True) # vs'"
  have sf: "spec_free us a n vs = ?zs" using j by (simp add: spec_free_def)
  from free_and_merge_correct[OF ok pr j] obtain s1 where s1: "free_and_merge s a = Some s1"
    "heap_ok s1 ?zs" "prevs s1 0 (us' @ (a', n'', True) # vs)" by blast
  have cv: "coalesced vs" using co coalesced_tail[of "us @ [(a, n, False)]" vs] by simp
  have lp: "prev_of s1 d = Some c" if "?zs = ws @ [(c, l, g), (d, k, True)]" for ws c l g d k
    using s1(3) j(2) cv that by (rule free_last_prev)
  have "\<exists>s'. release_resource_if_need s1 = Some s' \<and> (s' = s1 \<or> ?zs \<noteq> [] \<and> snd (snd (last ?zs)) \<and>
       heap_ok s' (butlast ?zs) \<and> cur_brk s' = addr (last ?zs))"
    using s1(2) lp by (rule release_correct)
  then obtain s' where
    s': "release_resource_if_need s1 = Some s'" "s' = s1 \<or> ?zs \<noteq> [] \<and> snd (snd (last ?zs)) \<and>
       heap_ok s' (butlast ?zs) \<and> cur_brk s' = addr (last ?zs)" by blast
  have "HEADER_AREA (a + HEADER_SIZE) = a"
    using ok by (elim heap_okE) (simp add: HEADER_AREA_def SIZE_MOD_def)
  then have free: "my_free s (a + HEADER_SIZE) = Some s'"
    using s1 s' by (simp add: my_free_def HEADER_SIZE_def)
  have us: "used ?zs = used (us @ (a, n, False) # vs) - {(a, n)}"
    using used_spec_free[OF heap_ok_tiles[OF ok]] sf by simp
  have bl: "used (butlast ?zs) = used ?zs" if "snd (snd (last ?zs))"
    using that by (cases ?zs rule: rev_cases) auto
  show ?thesis using free s1 s' us bl sf by (elim disjE) auto
qed

section \<open>The allocator as a contract for its callers\<close>

text \<open>
  What a caller of \<^verbatim>\<open>my_malloc\<close> relies on: the state has a block list, a request that the remaining
  room covers yields a block that did not overlap any block in use, and it uses up at most its cost.
\<close>

locale allocator =
  fixes inv :: "'s \<Rightarrow> blk list \<Rightarrow> bool"
    and malloc :: "'s \<Rightarrow> nat \<Rightarrow> (nat \<times> 's) option"
    and avail :: "'s \<Rightarrow> nat"
    and cost :: "nat \<Rightarrow> nat"
  assumes malloc_fresh: "inv s xs \<Longrightarrow> 0 < n \<Longrightarrow> cost n \<le> avail s \<Longrightarrow>
    \<exists>p s' ys k. malloc s n = Some (p + HEADER_SIZE, s') \<and> inv s' ys \<and> n + HEADER_SIZE \<le> k \<and>
      used ys = insert (p, k) (used xs) \<and> (\<forall>(a, l) \<in> used xs. a + l \<le> p \<or> p + k \<le> a) \<and>
      avail s \<le> avail s' + cost n"

definition apart :: "nat \<times> nat \<Rightarrow> nat \<times> nat \<Rightarrow> bool" where
  "apart x y \<longleftrightarrow> fst x + snd x \<le> fst y \<or> fst y + snd y \<le> fst x"

fun malloc_all :: "('s \<Rightarrow> nat \<Rightarrow> (nat \<times> 's) option) \<Rightarrow> 's \<Rightarrow> nat list \<Rightarrow> (nat list \<times> 's) option" where
  "malloc_all m s [] = Some ([], s)"
| "malloc_all m s (n # ns) = do {
     (r, s1) \<leftarrow> m s n;
     (rs, s2) \<leftarrow> malloc_all m s1 ns;
     Some (r # rs, s2)
   }"

context allocator
begin

lemma malloc_all_disjoint:
  "inv s xs \<Longrightarrow> \<forall>n \<in> set ns. 0 < n \<Longrightarrow> sum_list (map cost ns) \<le> avail s \<Longrightarrow>
   \<exists>rs s' ys. malloc_all malloc s ns = Some (rs, s') \<and> inv s' ys \<and> length rs = length ns \<and>
     used xs \<subseteq> used ys \<and> sorted_wrt apart (zip rs ns) \<and>
     (\<forall>x \<in> set (zip rs ns). \<forall>y \<in> used xs. apart x y)"
proof (induction ns arbitrary: s xs)
  case (Cons n ns)
  from Cons.prems malloc_fresh[of s xs n] obtain p s1 ys k where
    h: "malloc s n = Some (p + HEADER_SIZE, s1)" "inv s1 ys" "n + HEADER_SIZE \<le> k"
      "used ys = insert (p, k) (used xs)" "\<forall>(a, l) \<in> used xs. a + l \<le> p \<or> p + k \<le> a"
      "avail s \<le> avail s1 + cost n" by auto
  from Cons.IH[OF h(2)] Cons.prems h(6) obtain rs s' zs where
    t: "malloc_all malloc s1 ns = Some (rs, s')" "inv s' zs" "length rs = length ns"
      "used ys \<subseteq> used zs" "sorted_wrt apart (zip rs ns)"
      "\<forall>x \<in> set (zip rs ns). \<forall>y \<in> used ys. apart x y" by auto
  have "apart (p + HEADER_SIZE, n) x" if "x \<in> set (zip rs ns)" for x
    using t(6) that h(3,4) by (fastforce simp: apart_def)
  moreover have "\<forall>y \<in> used xs. apart (p + HEADER_SIZE, n) y"
    using h(3,5) by (fastforce simp: apart_def)
  ultimately show ?case using h t by (auto simp: insert_subset)
qed auto

end

lemma store_frame:
  "store s p b = Some s' \<Longrightarrow>
   page_size s' = page_size s \<and> brk_max s' = brk_max s \<and> cur_brk s' = cur_brk s"
  by (auto simp: store_def split: if_splits)

lemma take_block_frame:
  "take_block s p m = Some (r, s') \<Longrightarrow>
   r = WRITABLE_AREA p \<and> page_size s' = page_size s \<and> brk_max s' = brk_max s \<and> cur_brk s' = cur_brk s"
  by (auto simp: take_block_def resize_block_def Let_def bind_eq_Some_conv split: if_splits
      dest!: store_frame)

lemma add_block_frame:
  "add_block s p = Some s' \<Longrightarrow>
   page_size s' = page_size s \<and> brk_max s' = brk_max s \<and> cur_brk s' = cur_brk s"
  by (auto simp: add_block_def bind_eq_Some_conv split: if_splits dest!: store_frame)

lemma allocate_frame:
  "allocate s g = Some (m, s') \<Longrightarrow> page_size s' = page_size s \<and> brk_max s' = brk_max s"
  by (auto simp: allocate_def sbrk_def Let_def bind_eq_Some_conv split: if_splits dest!: store_frame)

lemma my_malloc_frame:
  "my_malloc s n = Some (r, s') \<Longrightarrow> page_size s' = page_size s \<and> brk_max s' = brk_max s"
  by (auto simp: my_malloc_def Let_def bind_eq_Some_conv split: if_splits
      dest!: store_frame take_block_frame add_block_frame allocate_frame)

interpretation my_alloc: allocator "\<lambda>s xs. heap_ok s xs \<and> page_size s = pg" my_malloc
    "\<lambda>s. brk_max s - cur_brk s" "\<lambda>n. n + HEADER_SIZE + pg" for pg
proof unfold_locales
  fix s xs n
  assume "heap_ok s xs \<and> page_size s = pg" and n: "0 < n"
    and c: "n + HEADER_SIZE + pg \<le> brk_max s - cur_brk s"
  then have ok: "heap_ok s xs" and pg: "page_size s = pg" by auto
  have "cur_brk s \<le> brk_max s" using ok by (simp add: heap_ok_def)
  then have "cur_brk s + n + HEADER_SIZE + page_size s \<le> brk_max s" using c pg n by linarith
  from my_malloc_safe[OF ok n this] obtain p s' ys k where
    r: "my_malloc s n = Some (p + HEADER_SIZE, s')" "heap_ok s' ys" "n + HEADER_SIZE \<le> k"
      "used ys = insert (p, k) (used xs)" "\<forall>(a, l) \<in> used xs. a + l \<le> p \<or> p + k \<le> a"
      "cur_brk s' \<le> cur_brk s + n + HEADER_SIZE + page_size s" by blast
  moreover have "page_size s' = pg" "brk_max s' = brk_max s" using my_malloc_frame[OF r(1)] pg by auto
  moreover have "brk_max s - cur_brk s \<le> brk_max s' - cur_brk s' + (n + HEADER_SIZE + pg)"
    using r(6) pg \<open>brk_max s' = brk_max s\<close> by linarith
  ultimately show "\<exists>p s' ys k. my_malloc s n = Some (p + HEADER_SIZE, s') \<and>
      (heap_ok s' ys \<and> page_size s' = pg) \<and> n + HEADER_SIZE \<le> k \<and> used ys = insert (p, k) (used xs) \<and>
      (\<forall>(a, l) \<in> used xs. a + l \<le> p \<or> p + k \<le> a) \<and>
      brk_max s - cur_brk s \<le> brk_max s' - cur_brk s' + (n + HEADER_SIZE + pg)" by blast
qed

lemma sbrk_full: "cur_brk s + g > brk_max s \<Longrightarrow> g < 2 ^ 63 \<Longrightarrow> sbrk s g = (None, s\<lparr>herrno := Some ENOMEM\<rparr>)"
  by (simp add: sbrk_def Let_def)

lemma page_round_small:
  "heap_ok s xs \<Longrightarrow> n + page_size s < 2 ^ 63 \<Longrightarrow> page_round s n = round_pages (page_size s) n"
  by (intro page_round_eq) (auto simp: heap_ok_def)

section \<open>A concrete heap\<close>

definition heap0 :: heap_state where
  "heap0 = \<lparr>hmem = Map.empty, first_block = 0, cur_brk = 4096, brk_min = 4096, brk_max = 1048576,
     page_size = 4096, herrno = None\<rparr>"

lemmas [heap_simps] = my_malloc_def my_free_def scan_def scan_loop.simps last_block.simps add_block_def
  resize_block_def allocate_def merge_prev_def merge_next_def free_and_merge_def release_scan.simps
  release_resource_if_need_def take_block_def page_round_def sbrk_def brk_def load_def store_def
  valid_hdr_def WRITABLE_AREA_def HEADER_AREA_def MEM_ALLOC_SIZE_def MEM_DEALLOC_SIZE_def
  HEADER_SIZE_def sz_add_def sz_sub_def sz_mul_def SIZE_MOD_def to_signed64_def Let_def

lemma heap0_ok: "heap_ok heap0 []"
  by (simp add: heap_ok_def heap0_def HEADER_SIZE_def)

section \<open>Properties\<close>

text \<open>
  C1: \<^verbatim>\<open>my_malloc\<close> implements first fit on the block list.  In every well-formed heap whose block list
  is \<open>xs\<close>, a request that fits below the break limit returns the data area of the block the
  specification chooses, the new heap is well-formed with the specified list (the chosen block split
  when more than a header remains, a free last block extended, or a fresh block appended), and the
  program break is the specified one.
\<close>

theorem my_malloc_refines:
  assumes "heap_ok s xs" and "0 < n" and "n + HEADER_SIZE < SIZE_MOD"
    and "spec_malloc (page_size s) (cur_brk s) xs (n + HEADER_SIZE) = (p, ys, hi)"
    and "hi \<le> brk_max s"
  shows "\<exists>s'. my_malloc s n = Some (p + HEADER_SIZE, s') \<and> heap_ok s' ys \<and> cur_brk s' = hi"
  using assms by (rule my_malloc_simulates)

theorem my_malloc_refines_witness:
  "\<exists>s'. my_malloc heap0 1000 = Some (4128, s') \<and>
     heap_ok s' [(4096, 1032, False), (5128, 3064, True)] \<and> cur_brk s' = 8192"
proof -
  have "spec_malloc (page_size heap0) (cur_brk heap0) [] (1000 + HEADER_SIZE) =
      (4096, [(4096, 1032, False), (5128, 3064, True)], 8192)"
    by (simp add: spec_malloc_def heap0_def HEADER_SIZE_def round_pages_def split_blk_def)
  from my_malloc_refines[OF heap0_ok _ _ this] show ?thesis
    by (simp add: heap0_def HEADER_SIZE_def SIZE_MOD_def)
qed

text \<open>
  C2: the data areas of successive \<^verbatim>\<open>my_malloc\<close> calls never overlap.  From any well-formed heap, any
  sequence of non-zero requests for which the break limit leaves room is served completely, the
  areas returned are pairwise disjoint, disjoint from every block already in use, and every block
  already in use stays in use.
\<close>

theorem my_malloc_areas_disjoint:
  assumes "heap_ok s xs" and "\<forall>n \<in> set ns. 0 < n"
    and "sum_list (map (\<lambda>n. n + HEADER_SIZE + page_size s) ns) \<le> brk_max s - cur_brk s"
  shows "\<exists>rs s' ys. malloc_all my_malloc s ns = Some (rs, s') \<and> heap_ok s' ys \<and>
     length rs = length ns \<and> used xs \<subseteq> used ys \<and> sorted_wrt apart (zip rs ns) \<and>
     (\<forall>x \<in> set (zip rs ns). \<forall>y \<in> used xs. apart x y)"
  using my_alloc.malloc_all_disjoint[of s xs "page_size s" ns] assms by auto

theorem my_malloc_areas_disjoint_witness:
  "\<exists>rs s' ys. malloc_all my_malloc heap0 [1000, 5000] = Some (rs, s') \<and> heap_ok s' ys \<and>
     length rs = 2 \<and> sorted_wrt apart (zip rs [1000, 5000])"
  using my_malloc_areas_disjoint[OF heap0_ok, of "[1000, 5000]"]
  by (auto simp: heap0_def HEADER_SIZE_def)

text \<open>
  C6: \<^verbatim>\<open>my_free\<close> on an intact list.  When the \<^verbatim>\<open>prev\<close> links agree with the list order and no two
  neighbours are free, freeing a block in use succeeds, leaves a well-formed heap in which exactly
  that block is no longer in use, merges it with free neighbours as specified, and gives at most the
  last (free) block back to the system.
\<close>

theorem my_free_correct:
  assumes "heap_ok s (us @ (a, n, False) # vs)" and "prevs s 0 (us @ (a, n, False) # vs)"
    and "coalesced (us @ (a, n, False) # vs)"
  shows "\<exists>s' zs. my_free s (a + HEADER_SIZE) = Some s' \<and> heap_ok s' zs \<and>
     used zs = used (us @ (a, n, False) # vs) - {(a, n)} \<and>
     (zs = spec_free us a n vs \<or>
      zs = butlast (spec_free us a n vs) \<and> cur_brk s' = addr (last (spec_free us a n vs)))"
  using assms by (rule my_free_step)

theorem my_free_correct_witness:
  "\<exists>s s' zs. my_malloc heap0 1000 = Some (4128, s) \<and> my_free s 4128 = Some s' \<and> heap_ok s' zs \<and>
     used zs = {}"
proof -
  obtain s where s: "my_malloc heap0 1000 = Some (4128, s)" "heap_ok s ([] @ (4096, 1032, False) # [(5128, 3064, True)])"
      "prevs s 0 ([] @ (4096, 1032, False) # [(5128, 3064, True)])"
    by (simp add: heap0_def heap_simps heap_ok_def prev_of_def)
  from my_free_correct[OF s(2,3)] show ?thesis
    using s(1) by (fastforce simp: HEADER_SIZE_def)
qed

text \<open>
  the out-of-memory path.  When no free block fits, the last block is not free and the system
  refuses to move the break, \<^verbatim>\<open>my_malloc\<close> returns the null pointer, sets \<^verbatim>\<open>errno\<close> to \<^verbatim>\<open>ENOMEM\<close> and
  changes nothing else.
\<close>

theorem my_malloc_enomem:
  assumes ok: "heap_ok s xs" and n: "0 < n" "n + HEADER_SIZE + page_size s < 2 ^ 63"
    and none: "take_fit (n + HEADER_SIZE) xs = None" "xs = [] \<or> \<not> snd (snd (last xs))"
    and full: "brk_max s < cur_brk s + round_pages (page_size s) (n + HEADER_SIZE)"
  shows "my_malloc s n = Some (0, s\<lparr>herrno := Some ENOMEM\<rparr>)"
proof -
  have "n + HEADER_SIZE < SIZE_MOD" using n by (simp add: SIZE_MOD_def)
  moreover have "scan s (n + HEADER_SIZE) = Some (0, False)" using scan_eq[OF ok] none by auto
  moreover have "page_round s (n + HEADER_SIZE) = round_pages (page_size s) (n + HEADER_SIZE)"
    using ok n(2) by (rule page_round_small)
  moreover have "round_pages (page_size s) (n + HEADER_SIZE) < 2 ^ 63"
    using round_pages_le n(2) by (rule le_less_trans)
  ultimately show ?thesis
    using n(1) sbrk_full[OF full] by (simp add: my_malloc_def allocate_def Let_def)
qed

theorem my_malloc_enomem_witness:
  "my_malloc (heap0\<lparr>brk_max := 4096\<rparr>) 1000 = Some (0, heap0\<lparr>brk_max := 4096, herrno := Some ENOMEM\<rparr>)"
proof -
  have "heap_ok (heap0\<lparr>brk_max := 4096\<rparr>) []" by (simp add: heap_ok_def heap0_def HEADER_SIZE_def)
  from my_malloc_enomem[OF this, of 1000] show ?thesis
    by (simp add: heap0_def HEADER_SIZE_def round_pages_def)
qed


definition tight_heap :: heap_state where
  "tight_heap = \<lparr>hmem = [4096 \<mapsto> \<lparr>bsize = 4096, bfree = True, bprev = 0, bnext = 0\<rparr>],
     first_block = 4096, cur_brk = 8192, brk_min = 4096, brk_max = 8192, page_size = 4096, herrno = None\<rparr>"


text \<open>A run that only frees areas it owns.\<close>

definition stale_prev_run :: "heap_state \<Rightarrow> (nat \<times> nat) option" where
  "stale_prev_run s0 = do {
     (a, s1) \<leftarrow> my_malloc s0 1000;
     (b, s2) \<leftarrow> my_malloc s1 1000;
     (c, s3) \<leftarrow> my_malloc s2 1000;
     s4 \<leftarrow> my_free s3 a;
     (d, s5) \<leftarrow> my_malloc s4 400;
     (e, s6) \<leftarrow> my_malloc s5 568;
     s7 \<leftarrow> my_free s6 d;
     s8 \<leftarrow> my_free s7 b;
     (f, s9) \<leftarrow> my_malloc s8 1400;
     Some (e, f)
   }"


text \<open>
  the program's own \<^verbatim>\<open>check_release\<close> sequence gives all memory back: on a fresh heap with 4096-byte
  pages it runs to its end, the block list is empty and the program break is where it started.
\<close>

theorem check_release_returns_all:
  "\<exists>s'. check_release heap0 = Some s' \<and> heap_ok s' [] \<and> first_block s' = 0 \<and> cur_brk s' = cur_brk heap0"
  by (simp add: check_release_def heap_ok_def heap0_def heap_simps)

end
