(* ===== verification/C_Strings.thy ===== *)
theory C_Strings
  imports Tlpi_Prelude
begin

text \<open>
  The C library's string and number functions the programs call: character classes in the C locale,
  \<^verbatim>\<open>strtol\<close> with its end pointer and range error, \<^verbatim>\<open>atoi\<close>, decimal output as \<^verbatim>\<open>printf\<close> prints it,
  and string searches.  A C string is a \<^typ>\<open>string\<close> without its terminating null byte.
\<close>

section \<open>Character classes\<close>

abbreviation code :: "char \<Rightarrow> nat" where
  "code c \<equiv> of_char c"

definition isdigit :: "char \<Rightarrow> bool" where
  "isdigit c \<longleftrightarrow> 48 \<le> code c \<and> code c \<le> 57"

definition isupper :: "char \<Rightarrow> bool" where
  "isupper c \<longleftrightarrow> 65 \<le> code c \<and> code c \<le> 90"

definition islower :: "char \<Rightarrow> bool" where
  "islower c \<longleftrightarrow> 97 \<le> code c \<and> code c \<le> 122"

definition isalpha :: "char \<Rightarrow> bool" where
  "isalpha c \<longleftrightarrow> isupper c \<or> islower c"

definition isalnum :: "char \<Rightarrow> bool" where
  "isalnum c \<longleftrightarrow> isalpha c \<or> isdigit c"

definition isspace :: "char \<Rightarrow> bool" where
  "isspace c \<longleftrightarrow> code c = 32 \<or> 9 \<le> code c \<and> code c \<le> 13"

definition isprint :: "char \<Rightarrow> bool" where
  "isprint c \<longleftrightarrow> 32 \<le> code c \<and> code c \<le> 126"

definition toupper :: "char \<Rightarrow> char" where
  "toupper c = (if islower c then char_of (code c - 32) else c)"

section \<open>Numbers\<close>

definition LONG_MAX :: int where
  "LONG_MAX = 2 ^ 63 - 1"

definition LONG_MIN :: int where
  "LONG_MIN = - (2 ^ 63)"

definition INT_MAX :: int where
  "INT_MAX = 2 ^ 31 - 1"

definition INT_MIN :: int where
  "INT_MIN = - (2 ^ 31)"

text \<open>Conversion of a \<^verbatim>\<open>long\<close> to a 32-bit \<^verbatim>\<open>int\<close>.\<close>

definition to_int32 :: "int \<Rightarrow> int" where
  "to_int32 n = (n + 2 ^ 31) mod 2 ^ 32 - 2 ^ 31"

text \<open>Conversion to a 32-bit unsigned value (\<^verbatim>\<open>uid_t\<close>, \<^verbatim>\<open>gid_t\<close>).\<close>

definition to_uint32 :: "int \<Rightarrow> int" where
  "to_uint32 n = n mod 2 ^ 32"

definition digit_val :: "char \<Rightarrow> nat option" where
  "digit_val c =
     (if isdigit c then Some (code c - 48)
      else if isupper c then Some (code c - 55)
      else if islower c then Some (code c - 87)
      else None)"

definition is_digit_of :: "nat \<Rightarrow> char \<Rightarrow> bool" where
  "is_digit_of b c = (case digit_val c of None \<Rightarrow> False | Some d \<Rightarrow> d < b)"

definition num_of :: "nat \<Rightarrow> string \<Rightarrow> nat" where
  "num_of b ds = foldl (\<lambda>n c. b * n + the (digit_val c)) 0 ds"

text \<open>
  \<^verbatim>\<open>strtol\<close>: optional white space, optional sign, optional base prefix, digits.  The result is the
  value, the text the end pointer points at, and whether the range error was set.
\<close>

definition starts_hex :: "string \<Rightarrow> bool" where
  "starts_hex t =
     (case t of
        a # x # d # r \<Rightarrow> a = CHR ''0'' \<and> (x = CHR ''x'' \<or> x = CHR ''X'') \<and> is_digit_of 16 d
      | _ \<Rightarrow> False)"

definition strtol :: "string \<Rightarrow> nat \<Rightarrow> int \<times> string \<times> bool" where
  "strtol s base =
     (let t = dropWhile isspace s;
          neg = (t \<noteq> [] \<and> hd t = CHR ''-'');
          u = (if t \<noteq> [] \<and> (hd t = CHR ''-'' \<or> hd t = CHR ''+'') then tl t else t);
          hex = ((base = 0 \<or> base = 16) \<and> starts_hex u);
          b = (if base = 0 then (if hex then 16 else if u \<noteq> [] \<and> hd u = CHR ''0'' then 8 else 10) else base);
          v = (if hex then drop 2 u else u);
          ds = takeWhile (is_digit_of b) v;
          n = (if neg then - int (num_of b ds) else int (num_of b ds))
      in if ds = [] then (0, s, False)
         else if n > LONG_MAX then (LONG_MAX, drop (length ds) v, True)
         else if n < LONG_MIN then (LONG_MIN, drop (length ds) v, True)
         else (n, drop (length ds) v, False))"

definition atoi :: "string \<Rightarrow> int" where
  "atoi s = to_int32 (fst (strtol s 10))"

text \<open>A decimal conversion of \<^verbatim>\<open>sscanf\<close>: the number and the rest, or no value on a mismatch.\<close>

definition scan_number :: "string \<Rightarrow> (int \<times> string) option" where
  "scan_number s =
     (let (n, rest, err) = strtol s 10 in if length rest < length (dropWhile isspace s) then Some (n, rest) else None)"

section \<open>Decimal output\<close>

definition digit_char :: "nat \<Rightarrow> char" where
  "digit_char n = ''0123456789'' ! n"

fun show_nat :: "nat \<Rightarrow> string" where
  "show_nat n = (if n < 10 then [digit_char n] else show_nat (n div 10) @ [digit_char (n mod 10)])"

declare show_nat.simps [simp del]

definition show_int :: "int \<Rightarrow> string" where
  "show_int n = (if n < 0 then CHR ''-'' # show_nat (nat (- n)) else show_nat (nat n))"

section \<open>Searches\<close>

text \<open>\<^verbatim>\<open>strncmp(a, b, n) == 0\<close> on C strings.\<close>

fun strncmp_eq :: "string \<Rightarrow> string \<Rightarrow> nat \<Rightarrow> bool" where
  "strncmp_eq a b 0 = True"
| "strncmp_eq [] [] (Suc n) = True"
| "strncmp_eq (x # xs) (y # ys) (Suc n) = (x = y \<and> strncmp_eq xs ys n)"
| "strncmp_eq _ _ (Suc n) = False"

text \<open>The string in a buffer, up to the first null byte.\<close>

definition buf_string :: "string \<Rightarrow> string" where
  "buf_string buf = takeWhile (\<lambda>c. c \<noteq> CHR 0x00) buf"

text \<open>\<^verbatim>\<open>strstr(s, t) != NULL\<close>.\<close>

fun strstr :: "string \<Rightarrow> string \<Rightarrow> string option" where
  "strstr s t =
     (if take (length t) s = t then Some s
      else case s of [] \<Rightarrow> None | _ # r \<Rightarrow> strstr r t)"

declare strstr.simps [simp del]

section \<open>Reading back printed numbers\<close>

lemma digit_cases: "d < 10 \<Longrightarrow> d \<in> {0, 1, 2, 3, 4, 5, 6, 7, 8, 9 :: nat}"
  by auto

lemma digit_val_char: "d < 10 \<Longrightarrow> digit_val (digit_char d) = Some d"
  by (drule digit_cases) (auto simp: digit_char_def digit_val_def isdigit_def)

lemma digit_char_not_space: "d < 10 \<Longrightarrow> \<not> isspace (digit_char d)"
  by (drule digit_cases) (auto simp: digit_char_def isspace_def)

lemma digit_char_not_sign: "d < 10 \<Longrightarrow> digit_char d \<noteq> CHR ''-'' \<and> digit_char d \<noteq> CHR ''+''"
  by (drule digit_cases) (auto simp: digit_char_def)

lemma isdigit_char: "d < 10 \<Longrightarrow> isdigit (digit_char d)"
  by (drule digit_cases) (auto simp: digit_char_def isdigit_def)

lemma show_nat_digits: "c \<in> set (show_nat n) \<Longrightarrow> \<exists>d < 10. c = digit_char d"
proof (induction n rule: show_nat.induct)
  case (1 n)
  then show ?case by (subst (asm) (2) show_nat.simps) (auto split: if_splits intro: exI[of _ "n mod 10"])
qed

lemma show_nat_not_empty [simp]: "show_nat n \<noteq> []"
  by (subst show_nat.simps) simp

lemma num_of_show_nat: "num_of 10 (show_nat n) = n"
proof (induction n rule: show_nat.induct)
  case (1 n)
  then show ?case by (subst show_nat.simps) (auto simp: num_of_def digit_val_char)
qed

lemma show_nat_is_digit_of: "c \<in> set (show_nat n) \<Longrightarrow> is_digit_of 10 c"
  by (auto dest!: show_nat_digits simp: is_digit_of_def digit_val_char)

lemma hd_show_nat: "\<exists>d < 10. hd (show_nat n) = digit_char d"
  using show_nat_digits[of "hd (show_nat n)" n] by simp

lemma takeWhile_show_nat:
  "\<not> (r \<noteq> [] \<and> is_digit_of 10 (hd r)) \<Longrightarrow> takeWhile (is_digit_of 10) (show_nat n @ r) = show_nat n"
  by (cases r) (auto simp: show_nat_is_digit_of takeWhile_append)

lemma show_nat_Cons:
  obtains c cs where "show_nat n = c # cs" "\<not> isspace c" "c \<noteq> CHR ''-''" "c \<noteq> CHR ''+''"
proof -
  obtain c cs where c: "show_nat n = c # cs" by (cases "show_nat n") auto
  obtain d where "d < 10" "hd (show_nat n) = digit_char d" using hd_show_nat by blast
  then show thesis using c that[OF c] digit_char_not_space digit_char_not_sign by auto
qed

text \<open>Reading a printed number back gives the number and stops right after it.\<close>

definition clamp_long :: "int \<Rightarrow> int" where
  "clamp_long n = max LONG_MIN (min LONG_MAX n)"

definition in_long :: "int \<Rightarrow> bool" where
  "in_long n \<longleftrightarrow> LONG_MIN \<le> n \<and> n \<le> LONG_MAX"

lemma strtol_show_int_clamp:
  assumes r: "r = [] \<or> \<not> is_digit_of 10 (hd r)"
  shows "strtol (show_int n @ r) 10 = (clamp_long n, r, \<not> in_long n)"
proof -
  have tw: "takeWhile (is_digit_of 10) (show_nat k @ r) = show_nat k" for k
    using r by (intro takeWhile_show_nat) auto
  have lm: "LONG_MIN < 0" "0 < LONG_MAX" by (simp_all add: LONG_MIN_def LONG_MAX_def)
  show ?thesis
  proof (cases "n < 0")
    case True
    have "\<not> isspace CHR ''-''" by (simp add: isspace_def)
    with True lm tw[of "nat (- n)"] show ?thesis
      by (simp add: strtol_def show_int_def Let_def num_of_show_nat clamp_long_def in_long_def)
  next
    case False
    obtain c cs where c: "show_nat (nat n) = c # cs" "\<not> isspace c" "c \<noteq> CHR ''-''" "c \<noteq> CHR ''+''"
      by (rule show_nat_Cons)
    have tw': "takeWhile (is_digit_of 10) (c # cs @ r) = c # cs" using tw[of "nat n"] c by simp
    show ?thesis
      using False lm c(2-4) tw' num_of_show_nat[of "nat n"] unfolding c(1)
      by (simp add: strtol_def show_int_def Let_def c(1) clamp_long_def in_long_def)
  qed
qed

lemma strtol_show_int:
  assumes n: "LONG_MIN \<le> n" "n \<le> LONG_MAX" and r: "r = [] \<or> \<not> is_digit_of 10 (hd r)"
  shows "strtol (show_int n @ r) 10 = (n, r, False)"
  using strtol_show_int_clamp[OF r, of n] n by (simp add: clamp_long_def in_long_def)

lemma digit_char_zero: "d < 10 \<Longrightarrow> digit_char d = CHR ''0'' \<longleftrightarrow> d = 0"
  by (drule digit_cases) (auto simp: digit_char_def)

lemma hd_show_nat_zero: "hd (show_nat n) = CHR ''0'' \<longleftrightarrow> n = 0"
proof (induction n rule: show_nat.induct)
  case (1 n)
  then show ?case by (subst show_nat.simps) (auto simp: digit_char_zero hd_append)
qed

lemma digit_char_not_x: "d < 10 \<Longrightarrow> digit_char d \<noteq> CHR ''x'' \<and> digit_char d \<noteq> CHR ''X''"
  by (drule digit_cases) (auto simp: digit_char_def)

lemma starts_hex_show_nat: "\<not> starts_hex (show_nat n)"
  using show_nat_digits[of _ n] digit_char_not_x
  by (auto simp: starts_hex_def split: list.splits) (metis list.set_intros(1,2))+

lemma length_show_nat: "n < 10 ^ k \<Longrightarrow> 0 < k \<Longrightarrow> length (show_nat n) \<le> k"
proof (induction n arbitrary: k rule: show_nat.induct)
  case (1 n)
  obtain j where j: "k = Suc j" using 1(3) by (cases k) auto
  show ?case
  proof (cases "n < 10")
    case True
    then show ?thesis using j by (simp add: show_nat.simps)
  next
    case False
    then have "n div 10 < 10 ^ j" "0 < j" using 1(2) j by (auto simp: less_mult_imp_div_less mult.commute intro: gr0I)
    then show ?thesis using 1(1)[OF False] False j by (subst show_nat.simps) simp
  qed
qed

lemma length_show_int: "INT_MIN \<le> n \<Longrightarrow> n \<le> INT_MAX \<Longrightarrow> length (show_int n) \<le> 11"
proof -
  assume "INT_MIN \<le> n" "n \<le> INT_MAX"
  then have "nat n < 10 ^ 10" "nat (- n) < 10 ^ 10" by (simp add: INT_MIN_def INT_MAX_def; arith)+
  then show ?thesis using length_show_nat[of "nat n" 10] length_show_nat[of "nat (- n)" 10] by (simp add: show_int_def)
qed

text \<open>Also when the base is taken from the prefix: a printed number has no leading zero.\<close>

lemma strtol_show_nat_base0:
  assumes "int n \<le> LONG_MAX"
  shows "strtol (show_nat n) 0 = (int n, [], False)"
proof (cases "n = 0")
  case True
  have "show_nat 0 = ''0''" by (simp add: show_nat.simps digit_char_def)
  then show ?thesis using True
    by (simp add: strtol_def isspace_def starts_hex_def is_digit_of_def digit_val_def isdigit_def num_of_def
        LONG_MAX_def LONG_MIN_def)
next
  case False
  obtain c cs where c: "show_nat n = c # cs" "\<not> isspace c" "c \<noteq> CHR ''-''" "c \<noteq> CHR ''+''" by (rule show_nat_Cons)
  have z: "c \<noteq> CHR ''0''" using hd_show_nat_zero[of n] False c(1) by simp
  have tw: "takeWhile (is_digit_of 10) (c # cs) = c # cs" using takeWhile_show_nat[of "[]" n] c(1) by simp
  have "num_of 10 (c # cs) = n" using num_of_show_nat[of n] c(1) by simp
  moreover have "\<not> starts_hex (c # cs)" using starts_hex_show_nat[of n] c(1) by simp
  ultimately show ?thesis unfolding c(1)
    using c(2-4) z tw assms by (simp add: strtol_def Let_def LONG_MIN_def)
qed

lemma to_int32_id: "INT_MIN \<le> n \<Longrightarrow> n \<le> INT_MAX \<Longrightarrow> to_int32 n = n"
  by (simp add: to_int32_def INT_MIN_def INT_MAX_def)

lemma atoi_show_int_rest:
  assumes "INT_MIN \<le> n" "n \<le> INT_MAX" "r = [] \<or> \<not> is_digit_of 10 (hd r)"
  shows "atoi (show_int n @ r) = n"
  using strtol_show_int[of n r] assms
  by (simp add: atoi_def to_int32_id INT_MIN_def INT_MAX_def LONG_MIN_def LONG_MAX_def)

lemma atoi_show_int: "INT_MIN \<le> n \<Longrightarrow> n \<le> INT_MAX \<Longrightarrow> atoi (show_int n) = n"
  using atoi_show_int_rest[of n "[]"] by simp

text \<open>A printed number has only digits and a sign, so no newline and no null byte.\<close>

lemma show_int_chars: "c \<in> set (show_int n) \<Longrightarrow> isdigit c \<or> c = CHR ''-''"
  by (auto simp: show_int_def isdigit_char split: if_splits dest!: show_nat_digits)

lemma show_int_no_newline [simp]: "CHR 0x0A \<notin> set (show_int n)" "CHR 0x00 \<notin> set (show_int n)"
  using show_int_chars[of "CHR 0x0A" n] show_int_chars[of "CHR 0x00" n] by (auto simp: isdigit_def)

lemma show_int_not_Nil [simp]: "show_int n \<noteq> []"
  by (simp add: show_int_def)

lemma strncmp_eq_take: "strncmp_eq a b n = (take n a = take n b)"
  by (induction a b n rule: strncmp_eq.induct) auto

lemma dropWhile_show_int: "dropWhile isspace (show_int n @ r) = show_int n @ r"
proof (cases "n < 0")
  case False
  obtain c cs where "show_nat (nat n) = c # cs" "\<not> isspace c" by (rule show_nat_Cons)
  then show ?thesis using False by (simp add: show_int_def)
qed (simp add: show_int_def isspace_def)

lemma scan_number_show:
  assumes "LONG_MIN \<le> n" "n \<le> LONG_MAX" "r = [] \<or> \<not> isdigit (hd r) \<and> \<not> isalpha (hd r)" "list_all isspace sp"
  shows "scan_number (sp @ show_int n @ r) = Some (n, r)"
proof -
  have "r = [] \<or> \<not> is_digit_of 10 (hd r)" using assms(3) by (auto simp: is_digit_of_def digit_val_def isalpha_def)
  then have t: "strtol (show_int n @ r) 10 = (n, r, False)" using assms(1,2) by (rule_tac strtol_show_int)
  have d: "dropWhile isspace (sp @ show_int n @ r) = dropWhile isspace (show_int n @ r)"
    using assms(4) by (simp add: dropWhile_append2 list_all_iff)
  have i: "(if D then (0, a, False) else G) = (n, r, False) \<Longrightarrow> a \<noteq> r \<Longrightarrow> (if D then (0, b, False) else G) = (n, r, False)"
    for D a b and G :: "int \<times> string \<times> bool" by (auto split: if_splits)
  have "strtol (sp @ show_int n @ r) 10 = (n, r, False)"
    using t unfolding strtol_def d Let_def by (rule i) simp
  moreover have "length r < length (show_int n @ r)" by simp
  ultimately show ?thesis unfolding scan_number_def d dropWhile_show_int by simp
qed

end
