(* ===== verification/Env_Functions.thy ===== *)
theory Env_Functions
  imports C_Strings
begin

text \<open>
  The two implementations of \<^verbatim>\<open>setenv\<close> and \<^verbatim>\<open>unsetenv\<close>: \<^verbatim>\<open>ch06/3_env.c\<close> (\<^verbatim>\<open>my_setenv\<close>,
  \<^verbatim>\<open>my_unsetenv\<close>) and \<^verbatim>\<open>tlpi-dist/proc/setenv.c\<close>.  The process environment \<^verbatim>\<open>environ\<close> is the list of
  its \<^verbatim>\<open>NAME=value\<close> strings without the terminating null pointer; a null argument is \<^const>\<open>None\<close>.
  \<^verbatim>\<open>malloc\<close> and \<^verbatim>\<open>putenv\<close> may fail; whether they do is an argument.
\<close>

section \<open>The C library's part\<close>

definition entry_for :: "string \<Rightarrow> string \<Rightarrow> bool" where
  "entry_for n e \<longleftrightarrow> strncmp_eq e n (length n) \<and> length n < length e \<and> e ! length n = CHR ''=''"

definition getenv :: "string list \<Rightarrow> string \<Rightarrow> string option" where
  "getenv E n = map_option (drop (Suc (length n))) (find (entry_for n) E)"

text \<open>\<^verbatim>\<open>putenv("NAME=value")\<close> replaces the first entry of that name, or appends.\<close>

fun replace_first :: "('a \<Rightarrow> bool) \<Rightarrow> 'a \<Rightarrow> 'a list \<Rightarrow> 'a list" where
  "replace_first P y [] = [y]"
| "replace_first P y (x # xs) = (if P x then y # xs else x # replace_first P y xs)"

definition putenv :: "string list \<Rightarrow> string \<Rightarrow> string list" where
  "putenv E e = replace_first (entry_for (takeWhile (\<lambda>c. c \<noteq> CHR ''='') e)) e E"

record libc_outcome =
  malloc_ok :: bool
  putenv_ok :: bool

section \<open>ch06/3\_env.c\<close>

definition is_valid_env_name :: "string option \<Rightarrow> bool" where
  "is_valid_env_name name =
     (case name of
        None \<Rightarrow> False
      | Some [] \<Rightarrow> False
      | Some (c # cs) \<Rightarrow>
          (isalpha c \<or> c = CHR ''_'') \<and> list_all (\<lambda>d. isalnum d \<or> d = CHR ''_'') cs)"

definition my_setenv ::
    "libc_outcome \<Rightarrow> string option \<Rightarrow> string option \<Rightarrow> bool \<Rightarrow> string list \<Rightarrow> int \<times> string list" where
  "my_setenv lc name val ov E =
     (case (name, val) of
        (Some n, Some v) \<Rightarrow>
          if \<not> is_valid_env_name name then (-1, E)
          else if getenv E n \<noteq> None \<and> \<not> ov then (0, E)
          else if \<not> malloc_ok lc then (-1, E)
          else if \<not> putenv_ok lc then (-1, E)
          else (0, putenv E (n @ ''='' @ v))
      | _ \<Rightarrow> (-1, E))"

text \<open>The two-pointer loop: \<open>e\<close> reads, \<open>d\<close> writes; at the end \<^verbatim>\<open>*dest = NULL\<close> cuts the array at \<open>d\<close>.\<close>

function unset_loop :: "string \<Rightarrow> string list \<Rightarrow> nat \<Rightarrow> nat \<Rightarrow> string list" where
  "unset_loop n A e d =
     (if e < length A then
        if entry_for n (A ! e) then unset_loop n A (Suc e) d
        else unset_loop n (A[d := A ! e]) (Suc e) (Suc d)
      else take d A)"
  by pat_completeness auto
termination
  by (relation "measure (\<lambda>(n, A, e, d). length A - e)") auto

declare unset_loop.simps [simp del]

definition my_unsetenv :: "string option \<Rightarrow> string list \<Rightarrow> int \<times> string list" where
  "my_unsetenv name E =
     (case name of
        None \<Rightarrow> (-1, E)
      | Some n \<Rightarrow> if \<not> is_valid_env_name name then (-1, E) else (0, unset_loop n E 0 0))"

definition show_env :: "string option \<Rightarrow> string" where
  "show_env v = (case v of None \<Rightarrow> ''(null)'' | Some t \<Rightarrow> t)"

text \<open>\<^verbatim>\<open>main\<close>: the standard output and the environment at exit.\<close>

definition env_main :: "libc_outcome \<Rightarrow> string list \<Rightarrow> string \<times> string list" where
  "env_main lc E0 =
     (let v = ''MY_VAR'';
          (r1, E1) = my_setenv lc (Some v) (Some ''my_value'') True E0;
          o1 = (if r1 = 0 then ''MY_VAR set to: '' @ show_env (getenv E1 v) @ [CHR 0x0A]
                else ''Failed to set MY_VAR'' @ [CHR 0x0A]);
          (r2, E2) = my_unsetenv (Some v) E1;
          o2 = (if r2 = 0 then ''MY_VAR unset. getenv('' @ [CHR 0x22] @ ''MY_VAR'' @ [CHR 0x22] @ '') returns: ''
                  @ show_env (getenv E2 v) @ [CHR 0x0A]
                else ''Failed to unset MY_VAR'' @ [CHR 0x0A]);
          (r3, E3) = my_setenv lc (Some v) (Some ''new_value'') False E2;
          o3 = (if r3 = 0 then ''set new value, MY_VAR is now: '' @ show_env (getenv E3 v) @ [CHR 0x0A]
                else ''Failed to set MY_VAR'' @ [CHR 0x0A]);
          (r4, E4) = my_setenv lc (Some v) (Some ''overwrite value'') True E3;
          o4 = (if r4 = 0 then ''overwrite new value, MY_VAR is now: '' @ show_env (getenv E4 v) @ [CHR 0x0A]
                else ''Failed to set MY_VAR'' @ [CHR 0x0A]);
          (r5, E5) = my_unsetenv (Some v) E4;
          o5 = (if r5 = 0 then ''MY_VAR finally unset.'' @ [CHR 0x0A] else [])
      in (o1 @ o2 @ o3 @ o4 @ o5, E5))"

section \<open>tlpi-dist/proc/setenv.c\<close>

definition bad_name :: "string option \<Rightarrow> bool" where
  "bad_name name = (case name of None \<Rightarrow> True | Some n \<Rightarrow> n = [] \<or> CHR ''='' \<in> set n)"

text \<open>Shifting all later entries down by one, the null pointer included.\<close>

function shift_down :: "string list \<Rightarrow> nat \<Rightarrow> string list" where
  "shift_down A p =
     (if Suc p < length A then shift_down (A[p := A ! Suc p]) (Suc p) else butlast A)"
  by pat_completeness auto
termination
  by (relation "measure (\<lambda>(A, p). length A - p)") auto

declare shift_down.simps [simp del]

lemma length_shift_down [simp]: "length (shift_down A p) = length A - 1"
proof (induction A p rule: shift_down.induct)
  case (1 A p)
  then show ?case by (subst shift_down.simps) auto
qed

function unsetenv_loop :: "string \<Rightarrow> string list \<Rightarrow> nat \<Rightarrow> string list" where
  "unsetenv_loop n A p =
     (if p < length A then
        if entry_for n (A ! p) then unsetenv_loop n (shift_down A p) p
        else unsetenv_loop n A (Suc p)
      else A)"
  by pat_completeness auto
termination
  by (relation "measure (\<lambda>(n, A, p). length A - p)") auto

declare unsetenv_loop.simps [simp del]

definition unsetenv :: "string option \<Rightarrow> string list \<Rightarrow> (errno + unit) \<times> string list" where
  "unsetenv name E =
     (if bad_name name then (Inl EINVAL, E) else (Inr (), unsetenv_loop (the name) E 0))"

definition setenv ::
    "libc_outcome \<Rightarrow> string option \<Rightarrow> string option \<Rightarrow> bool \<Rightarrow> string list \<Rightarrow> (errno + unit) \<times> string list" where
  "setenv lc name val ov E =
     (if bad_name name \<or> val = None then (Inl EINVAL, E)
      else if getenv E (the name) \<noteq> None \<and> \<not> ov then (Inr (), E)
      else
        let E1 = snd (unsetenv name E)
        in if \<not> malloc_ok lc then (Inl ENOMEM, E1)
           else if \<not> putenv_ok lc then (Inl ENOMEM, E1)
           else (Inr (), putenv E1 (the name @ ''='' @ the val)))"

section \<open>The loops remove exactly the entries of a name\<close>

lemma unset_loop_filter:
  "d \<le> e \<Longrightarrow> e \<le> length A \<Longrightarrow>
   unset_loop n A e d = take d A @ filter (\<lambda>x. \<not> entry_for n x) (drop e A)"
proof (induction n A e d rule: unset_loop.induct)
  case (1 n A e d)
  show ?case
  proof (cases "e < length A")
    case True
    then have dr: "drop e A = A ! e # drop (Suc e) A" by (simp add: Cons_nth_drop_Suc)
    have "d < length A" using True "1.prems" by simp
    then have tk: "take (Suc d) (A[d := A ! e]) = take d A @ [A ! e]"
      by (simp add: take_Suc_conv_app_nth)
    show ?thesis using 1 True dr tk by (subst unset_loop.simps) simp
  next
    case False
    then show ?thesis using "1.prems" by (subst unset_loop.simps) simp
  qed
qed

lemma shift_down_eq: "p < length A \<Longrightarrow> shift_down A p = take p A @ drop (Suc p) A"
proof (induction A p rule: shift_down.induct)
  case (1 A p)
  show ?case
  proof (cases "Suc p < length A")
    case True
    have "take (Suc p) (A[p := A ! Suc p]) = take p A @ [A ! Suc p]"
      using True by (simp add: take_Suc_conv_app_nth)
    moreover have "drop (Suc p) A = A ! Suc p # drop (Suc (Suc p)) A"
      using True by (simp add: Cons_nth_drop_Suc)
    ultimately show ?thesis using 1 True by (subst shift_down.simps) simp
  next
    case False
    then have "Suc p = length A" using "1.prems" by simp
    moreover from this have "length A - Suc 0 = p" by simp
    ultimately show ?thesis by (subst shift_down.simps) (simp add: butlast_conv_take)
  qed
qed

lemma unsetenv_loop_filter:
  "p \<le> length A \<Longrightarrow>
   unsetenv_loop n A p = take p A @ filter (\<lambda>x. \<not> entry_for n x) (drop p A)"
proof (induction n A p rule: unsetenv_loop.induct)
  case (1 n A p)
  show ?case
  proof (cases "p < length A")
    case True
    then have dr: "drop p A = A ! p # drop (Suc p) A" by (simp add: Cons_nth_drop_Suc)
    show ?thesis
      using 1 True dr by (subst unsetenv_loop.simps) (auto simp: shift_down_eq take_Suc_conv_app_nth)
  next
    case False
    then show ?thesis using "1.prems" by (subst unsetenv_loop.simps) simp
  qed
qed

section \<open>Lookups after each operation\<close>

abbreviation plain :: "string \<Rightarrow> bool" where
  "plain n \<equiv> CHR ''='' \<notin> set n"

lemma entry_for_iff: "entry_for n e \<longleftrightarrow> (\<exists>v. e = n @ CHR ''='' # v)"
proof
  assume a: "entry_for n e"
  then have "take (length n) e = n" "length n < length e" "e ! length n = CHR ''=''"
    by (auto simp: entry_for_def strncmp_eq_take)
  then have "e = n @ CHR ''='' # drop (Suc (length n)) e"
    by (metis append_take_drop_id Cons_nth_drop_Suc)
  then show "\<exists>v. e = n @ CHR ''='' # v" by auto
qed (auto simp: entry_for_def strncmp_eq_take)

lemma entry_for_unique: "plain m \<Longrightarrow> plain n \<Longrightarrow> entry_for m e \<Longrightarrow> entry_for n e \<Longrightarrow> m = n"
proof -
  have tw: "takeWhile (\<lambda>c. c \<noteq> CHR ''='') (k @ CHR ''='' # v) = k" if "plain k" for k v
    using that by (induction k) auto
  assume "plain m" "plain n" "entry_for m e" "entry_for n e"
  then show "m = n" using tw by (metis entry_for_iff)
qed

lemma find_replace_first_other:
  "(\<And>x. P x \<Longrightarrow> \<not> Q x) \<Longrightarrow> \<not> Q y \<Longrightarrow> find Q (replace_first P y xs) = find Q xs"
  by (induction xs) auto

lemma find_replace_first_same: "P y \<Longrightarrow> find P (replace_first P y xs) = Some y"
  by (induction xs) auto

lemma find_filter_other: "(\<And>x. P x \<Longrightarrow> \<not> Q x) \<Longrightarrow> find Q (filter (\<lambda>x. \<not> P x) xs) = find Q xs"
  by (induction xs) auto

lemma find_filter_same: "find P (filter (\<lambda>x. \<not> P x) xs) = None"
  by (induction xs) auto

lemma putenv_name: "plain n \<Longrightarrow> putenv E (n @ CHR ''='' # v) = replace_first (entry_for n) (n @ CHR ''='' # v) E"
proof -
  assume "plain n"
  then have "takeWhile (\<lambda>c. c \<noteq> CHR ''='') (n @ CHR ''='' # v) = n" by (induction n) auto
  then show ?thesis by (simp add: putenv_def)
qed

lemma getenv_putenv:
  "plain n \<Longrightarrow> plain m \<Longrightarrow> getenv (putenv E (n @ CHR ''='' # v)) m = (if m = n then Some v else getenv E m)"
proof -
  assume n: "plain n" and m: "plain m"
  have e: "entry_for n (n @ CHR ''='' # v)" by (auto simp: entry_for_iff)
  show ?thesis
  proof (cases "m = n")
    case True
    then show ?thesis using e by (simp add: getenv_def putenv_name[OF n] find_replace_first_same)
  next
    case False
    then have "find (entry_for m) (replace_first (entry_for n) (n @ CHR ''='' # v) E) = find (entry_for m) E"
      using e entry_for_unique[OF m n] by (intro find_replace_first_other) (metis)+
    then show ?thesis using False by (simp add: getenv_def putenv_name[OF n])
  qed
qed

lemma getenv_unset:
  "plain n \<Longrightarrow> plain m \<Longrightarrow>
   getenv (filter (\<lambda>x. \<not> entry_for n x) E) m = (if m = n then None else getenv E m)"
proof -
  assume n: "plain n" and m: "plain m"
  show ?thesis
  proof (cases "m = n")
    case False
    then have "find (entry_for m) (filter (\<lambda>x. \<not> entry_for n x) E) = find (entry_for m) E"
      using entry_for_unique[OF m n] by (intro find_filter_other) metis
    then show ?thesis using False by (simp add: getenv_def)
  qed (simp add: getenv_def find_filter_same)
qed

section \<open>The contract both implementations meet\<close>

text \<open>
  Setting and removing variables, as an interface: on the names an implementation accepts, lookups
  behave like those of a finite map.
\<close>

locale env_ops =
  fixes accepts :: "string \<Rightarrow> bool"
    and set_op :: "string \<Rightarrow> string \<Rightarrow> bool \<Rightarrow> string list \<Rightarrow> string list"
    and unset_op :: "string \<Rightarrow> string list \<Rightarrow> string list"
  assumes accepts_plain: "accepts n \<Longrightarrow> plain n"
    and set_lookup: "accepts n \<Longrightarrow> accepts m \<Longrightarrow>
      getenv (set_op n v ov E) m =
        (if m = n \<and> (ov \<or> getenv E n = None) then Some v else getenv E m)"
    and unset_lookup: "accepts n \<Longrightarrow> accepts m \<Longrightarrow>
      getenv (unset_op n E) m = (if m = n then None else getenv E m)"

datatype env_op = SetVar string string bool | UnsetVar string

fun op_name :: "env_op \<Rightarrow> string" where
  "op_name (SetVar n v ov) = n"
| "op_name (UnsetVar n) = n"

text \<open>The map a sequence of operations computes.\<close>

fun spec_env :: "env_op list \<Rightarrow> (string \<Rightarrow> string option) \<Rightarrow> string \<Rightarrow> string option" where
  "spec_env [] f = f"
| "spec_env (SetVar n v ov # ops) f = spec_env ops (if ov \<or> f n = None then f(n \<mapsto> v) else f)"
| "spec_env (UnsetVar n # ops) f = spec_env ops (f(n := None))"

fun run_env ::
    "(string \<Rightarrow> string \<Rightarrow> bool \<Rightarrow> string list \<Rightarrow> string list) \<Rightarrow> (string \<Rightarrow> string list \<Rightarrow> string list) \<Rightarrow>
     env_op list \<Rightarrow> string list \<Rightarrow> string list" where
  "run_env st us [] E = E"
| "run_env st us (SetVar n v ov # ops) E = run_env st us ops (st n v ov E)"
| "run_env st us (UnsetVar n # ops) E = run_env st us ops (us n E)"

lemma spec_env_cong:
  "list_all (\<lambda>x. A (op_name x)) ops \<Longrightarrow> A m \<Longrightarrow> (\<And>k. A k \<Longrightarrow> f k = g k) \<Longrightarrow> spec_env ops f m = spec_env ops g m"
proof (induction ops arbitrary: f g)
  case (Cons x ops)
  show ?case
  proof (cases x)
    case (SetVar n v ov)
    then have "f n = g n" using Cons.prems by simp
    then show ?thesis
      using Cons.prems SetVar by (simp, intro conjI impI Cons.IH) simp_all
  next
    case (UnsetVar n)
    then show ?thesis using Cons.prems by (simp, intro Cons.IH) simp_all
  qed
qed simp

context env_ops
begin

lemma run_refines_map:
  "list_all (\<lambda>x. accepts (op_name x)) ops \<Longrightarrow> accepts m \<Longrightarrow>
   getenv (run_env set_op unset_op ops E) m = spec_env ops (getenv E) m"
proof (induction ops arbitrary: E)
  case (Cons x ops)
  show ?case
  proof (cases x)
    case (SetVar n v ov)
    have "spec_env ops (getenv (set_op n v ov E)) m =
        spec_env ops (if ov \<or> getenv E n = None then (getenv E)(n \<mapsto> v) else getenv E) m"
      using Cons.prems SetVar set_lookup by (intro spec_env_cong[of accepts]) auto
    then show ?thesis using Cons SetVar by simp
  next
    case (UnsetVar n)
    have "spec_env ops (getenv (unset_op n E)) m = spec_env ops ((getenv E)(n := None)) m"
      using Cons.prems UnsetVar unset_lookup by (intro spec_env_cong[of accepts]) auto
    then show ?thesis using Cons UnsetVar by simp
  qed
qed simp

end

definition libc_fine :: libc_outcome where
  "libc_fine = \<lparr>malloc_ok = True, putenv_ok = True\<rparr>"

lemma not_alnum_eq: "\<not> isalnum CHR ''=''" "\<not> isalpha CHR ''=''"
  by (simp_all add: isalnum_def isalpha_def isupper_def islower_def isdigit_def)

lemma valid_plain: "is_valid_env_name (Some n) \<Longrightarrow> plain n"
  using not_alnum_eq by (cases n) (auto simp: is_valid_env_name_def list_all_iff)

lemma my_unsetenv_filter:
  "is_valid_env_name (Some n) \<Longrightarrow> my_unsetenv (Some n) E = (0, filter (\<lambda>x. \<not> entry_for n x) E)"
  by (simp add: my_unsetenv_def unset_loop_filter)

lemma unsetenv_filter:
  "\<not> bad_name (Some n) \<Longrightarrow> unsetenv (Some n) E = (Inr (), filter (\<lambda>x. \<not> entry_for n x) E)"
  by (simp add: unsetenv_def unsetenv_loop_filter)

interpretation ch06_env: env_ops "\<lambda>n. is_valid_env_name (Some n)"
    "\<lambda>n v ov E. snd (my_setenv libc_fine (Some n) (Some v) ov E)"
    "\<lambda>n E. snd (my_unsetenv (Some n) E)"
proof unfold_locales
  fix n m v ov E
  assume n: "is_valid_env_name (Some n)" and m: "is_valid_env_name (Some m)"
  show "getenv (snd (my_setenv libc_fine (Some n) (Some v) ov E)) m =
      (if m = n \<and> (ov \<or> getenv E n = None) then Some v else getenv E m)"
    using n m by (simp add: my_setenv_def libc_fine_def getenv_putenv valid_plain)
  show "getenv (snd (my_unsetenv (Some n) E)) m = (if m = n then None else getenv E m)"
    using n m by (simp add: my_unsetenv_filter getenv_unset valid_plain)
qed (rule valid_plain)

interpretation dist_env: env_ops "\<lambda>n. \<not> bad_name (Some n)"
    "\<lambda>n v ov E. snd (setenv libc_fine (Some n) (Some v) ov E)"
    "\<lambda>n E. snd (unsetenv (Some n) E)"
proof unfold_locales
  fix n m v ov E
  assume n: "\<not> bad_name (Some n)" and m: "\<not> bad_name (Some m)"
  then have p: "plain n" "plain m" by (auto simp: bad_name_def)
  show "getenv (snd (setenv libc_fine (Some n) (Some v) ov E)) m =
      (if m = n \<and> (ov \<or> getenv E n = None) then Some v else getenv E m)"
    using n p by (simp add: setenv_def libc_fine_def unsetenv_filter getenv_putenv getenv_unset)
  show "getenv (snd (unsetenv (Some n) E)) m = (if m = n then None else getenv E m)"
    using n p by (simp add: unsetenv_filter getenv_unset)
qed (simp add: bad_name_def)

section \<open>Properties\<close>

text \<open>
  C8: \<^verbatim>\<open>my_setenv\<close> and \<^verbatim>\<open>my_unsetenv\<close> of \<^verbatim>\<open>ch06/3_env.c\<close> implement a map.  For every sequence of
  operations on valid names and every starting environment (duplicate entries included), looking up
  any valid name afterwards with \<^verbatim>\<open>getenv\<close> gives what the same operations on a map give.
\<close>

theorem ch06_env_refines_map:
  assumes "list_all (\<lambda>x. is_valid_env_name (Some (op_name x))) ops" and "is_valid_env_name (Some m)"
  shows "getenv (run_env (\<lambda>n v ov E. snd (my_setenv libc_fine (Some n) (Some v) ov E))
       (\<lambda>n E. snd (my_unsetenv (Some n) E)) ops E) m = spec_env ops (getenv E) m"
  using assms by (rule ch06_env.run_refines_map)

theorem ch06_env_refines_map_witness:
  "getenv (run_env (\<lambda>n v ov E. snd (my_setenv libc_fine (Some n) (Some v) ov E))
       (\<lambda>n E. snd (my_unsetenv (Some n) E))
       [SetVar ''A'' ''1'' True, SetVar ''A'' ''2'' False, SetVar ''B_2'' ''x'' True, UnsetVar ''B_2'']
       [''A=0'', ''A=9'', ''C=7'']) ''A'' = Some ''1''"
proof -
  have v: "is_valid_env_name (Some ''A'')" "is_valid_env_name (Some ''B_2'')"
    by (simp_all add: is_valid_env_name_def isalpha_def isalnum_def isupper_def isdigit_def)
  let ?ops = "[SetVar ''A'' ''1'' True, SetVar ''A'' ''2'' False, SetVar ''B_2'' ''x'' True, UnsetVar ''B_2'']"
  have "getenv (run_env (\<lambda>n v ov E. snd (my_setenv libc_fine (Some n) (Some v) ov E))
       (\<lambda>n E. snd (my_unsetenv (Some n) E)) ?ops [''A=0'', ''A=9'', ''C=7'']) ''A'' =
      spec_env ?ops (getenv [''A=0'', ''A=9'', ''C=7'']) ''A''"
    by (rule ch06_env_refines_map) (use v in simp_all)
  also have "\<dots> = Some ''1''" by simp
  finally show ?thesis .
qed

text \<open>
  \<^verbatim>\<open>setenv\<close> and \<^verbatim>\<open>unsetenv\<close> of \<^verbatim>\<open>tlpi-dist/proc/setenv.c\<close> implement a map in the same sense, on all
  non-empty names without an equals sign.
\<close>

theorem dist_env_refines_map:
  assumes "list_all (\<lambda>x. \<not> bad_name (Some (op_name x))) ops" and "\<not> bad_name (Some m)"
  shows "getenv (run_env (\<lambda>n v ov E. snd (setenv libc_fine (Some n) (Some v) ov E))
       (\<lambda>n E. snd (unsetenv (Some n) E)) ops E) m = spec_env ops (getenv E) m"
  using assms by (rule dist_env.run_refines_map)

theorem dist_env_refines_map_witness:
  "getenv (run_env (\<lambda>n v ov E. snd (setenv libc_fine (Some n) (Some v) ov E))
       (\<lambda>n E. snd (unsetenv (Some n) E))
       [SetVar ''xyz'' ''one'' True, SetVar ''xyz'' ''two'' False, UnsetVar ''TT'']
       [''TT=xxxxx'']) ''xyz'' = Some ''one''"
proof -
  let ?ops = "[SetVar ''xyz'' ''one'' True, SetVar ''xyz'' ''two'' False, UnsetVar ''TT'']"
  have "getenv (run_env (\<lambda>n v ov E. snd (setenv libc_fine (Some n) (Some v) ov E))
       (\<lambda>n E. snd (unsetenv (Some n) E)) ?ops [''TT=xxxxx'']) ''xyz'' =
      spec_env ?ops (getenv [''TT=xxxxx'']) ''xyz''"
    by (rule dist_env_refines_map) (simp_all add: bad_name_def)
  also have "\<dots> = Some ''one''" by simp
  finally show ?thesis .
qed

text \<open>
  the two removal loops are equivalent.  The two-pointer compaction of \<^verbatim>\<open>my_unsetenv\<close> and the
  repeated shifting of \<^verbatim>\<open>unsetenv\<close> both terminate and leave the same environment: the old one without
  the entries of that name, the others in their old order.
\<close>

theorem unsetenv_loops_equivalent:
  "unset_loop n E 0 0 = unsetenv_loop n E 0 \<and>
   unset_loop n E 0 0 = filter (\<lambda>e. \<not> (\<exists>v. e = n @ ''='' @ v)) E"
  by (simp add: unset_loop_filter unsetenv_loop_filter entry_for_iff)

text \<open>
  failing calls.  A failing \<^verbatim>\<open>my_setenv\<close> or \<^verbatim>\<open>my_unsetenv\<close> leaves the environment as it was,
  whatever the C library's \<^verbatim>\<open>malloc\<close> and \<^verbatim>\<open>putenv\<close> answer; but \<^verbatim>\<open>setenv\<close> of \<^verbatim>\<open>proc/setenv.c\<close> removes
  the old value before it allocates, so when the allocation fails the variable is gone.
\<close>

theorem failing_setenv:
  "(fst (my_setenv lc name val ov E) = -1 \<longrightarrow> snd (my_setenv lc name val ov E) = E) \<and>
   (fst (my_unsetenv name E) = -1 \<longrightarrow> snd (my_unsetenv name E) = E) \<and>
   (\<not> bad_name (Some n) \<and> \<not> malloc_ok lc \<longrightarrow>
      fst (setenv lc (Some n) (Some v) True E) = Inl ENOMEM \<and>
      getenv (snd (setenv lc (Some n) (Some v) True E)) n = None)"
  by (auto simp: my_setenv_def my_unsetenv_def setenv_def unsetenv_filter getenv_unset bad_name_def
      split: option.splits)

theorem failing_setenv_witness:
  "fst (setenv \<lparr>malloc_ok = False, putenv_ok = True\<rparr> (Some ''A'') (Some ''2'') True [''A=1'']) = Inl ENOMEM \<and>
   getenv [''A=1''] ''A'' = Some ''1'' \<and>
   getenv (snd (setenv \<lparr>malloc_ok = False, putenv_ok = True\<rparr> (Some ''A'') (Some ''2'') True [''A=1''])) ''A'' = None"
  using failing_setenv[where lc = "\<lparr>malloc_ok = False, putenv_ok = True\<rparr>" and n = "''A''" and v = "''2''" and E = "[''A=1'']"]
  by (simp add: bad_name_def getenv_def entry_for_def)

text \<open>
  the demonstration in \<^verbatim>\<open>main\<close> of \<^verbatim>\<open>ch06/3_env.c\<close>.  From any environment, when the C library does
  not fail, it prints the five lines below and exits with every \<^verbatim>\<open>MY_VAR\<close> entry removed and the
  other entries unchanged.
\<close>

theorem env_main_result:
  "env_main libc_fine E =
     (''MY_VAR set to: my_value'' @ [CHR 0x0A] @
      ''MY_VAR unset. getenv('' @ [CHR 0x22] @ ''MY_VAR'' @ [CHR 0x22] @ '') returns: (null)'' @ [CHR 0x0A] @
      ''set new value, MY_VAR is now: new_value'' @ [CHR 0x0A] @
      ''overwrite new value, MY_VAR is now: overwrite value'' @ [CHR 0x0A] @
      ''MY_VAR finally unset.'' @ [CHR 0x0A],
      filter (\<lambda>e. \<not> entry_for ''MY_VAR'' e) E)"
proof -
  let ?n = "''MY_VAR''"
  have v: "is_valid_env_name (Some ?n)"
    by (simp add: is_valid_env_name_def isalpha_def isalnum_def isupper_def)
  have p: "plain ?n" by simp
  have fr: "filter (\<lambda>e. \<not> entry_for ?n e) (replace_first (entry_for ?n) (?n @ CHR ''='' # w) F) =
      filter (\<lambda>e. \<not> entry_for ?n e) F" for w F
  proof (induction F)
    case Nil
    have "entry_for ?n (?n @ CHR ''='' # w)" by (auto simp: entry_for_iff)
    then show ?case by (simp del: append_Cons append_Nil)
  next
    case (Cons x F)
    have "entry_for ?n (?n @ CHR ''='' # w)" by (auto simp: entry_for_iff)
    then show ?case using Cons by (simp del: append_Cons append_Nil)
  qed
  have st: "my_setenv libc_fine (Some ?n) (Some w) ov F =
      (0, if getenv F ?n \<noteq> None \<and> \<not> ov then F else putenv F (?n @ CHR ''='' # w))" for w ov F
    using v by (simp add: my_setenv_def libc_fine_def)
  have us: "my_unsetenv (Some ?n) F = (0, filter (\<lambda>x. \<not> entry_for ?n x) F)" for F
    using v by (rule my_unsetenv_filter)
  have gp: "getenv (putenv F (?n @ CHR ''='' # w)) ?n = Some w" for w F
    by (simp only: getenv_putenv[OF p p] refl if_True)
  have gu: "getenv (filter (\<lambda>x. \<not> entry_for ?n x) F) ?n = None" for F
    by (simp only: getenv_unset[OF p p] refl if_True)
  have fp: "filter (\<lambda>e. \<not> entry_for ?n e) (putenv F (?n @ CHR ''='' # w)) =
      filter (\<lambda>e. \<not> entry_for ?n e) F" for w F
    by (simp only: putenv_name[OF p] fr)
  show ?thesis
    by (simp only: env_main_def Let_def st us prod.case gp gu fp simp_thms if_True if_False show_env_def
        option.case option.distinct filter_filter append_assoc)
      (simp only: append_assoc append.simps)
qed

end
