(* ===== verification/Error_Functions.thy ===== *)
theory Error_Functions
  imports Env_Functions
begin

text \<open>
  The diagnostic functions of \<^verbatim>\<open>tlpi-dist/lib/error_functions.c\<close>, which nearly every program of the
  distribution calls.  The state is what they read and change: \<^verbatim>\<open>errno\<close>, the buffered and the written
  standard output, and the error stream.  A user message is the text its format and arguments expand
  to.  The table \<^verbatim>\<open>ename\<close> and its bound \<^verbatim>\<open>MAX_ENAME\<close> are generated by the build (\<^verbatim>\<open>ename.c.inc\<close>) and
  \<^verbatim>\<open>strerror\<close> is the C library's, so they are parameters.  Stream output may set \<^verbatim>\<open>errno\<close> to any value:
  that value is the parameter \<open>clobber\<close>.
\<close>

section \<open>State\<close>

record proc_io =
  io_errno :: int
  pending :: string
  stdout :: string
  stderr :: string

record err_tables =
  ename :: "int \<Rightarrow> string"
  MAX_ENAME :: int
  strerror :: "int \<Rightarrow> string"
  clobber :: int

datatype ending = Exit nat | Underscore_exit nat | Aborted

definition EXIT_FAILURE :: nat where
  "EXIT_FAILURE = 1"

definition fflush_stdout :: "proc_io \<Rightarrow> proc_io" where
  "fflush_stdout p = p\<lparr>stdout := stdout p @ pending p, pending := []\<rparr>"

definition put_stderr :: "string \<Rightarrow> proc_io \<Rightarrow> proc_io" where
  "put_stderr s p = p\<lparr>stderr := stderr p @ s\<rparr>"

text \<open>\<^verbatim>\<open>exit\<close> flushes the output streams, \<^verbatim>\<open>_exit\<close> and \<^verbatim>\<open>abort\<close> do not.\<close>

definition exit3 :: "nat \<Rightarrow> proc_io \<Rightarrow> ending \<times> proc_io" where
  "exit3 n p = (Exit n, fflush_stdout p)"

section \<open>lib/error_functions.c\<close>

definition BUF_SIZE :: nat where
  "BUF_SIZE = 500"

text \<open>\<^verbatim>\<open>snprintf\<close> into a buffer of \<^verbatim>\<open>BUF_SIZE\<close> bytes, the terminating null byte included.\<close>

definition snprintf_buf :: "string \<Rightarrow> string" where
  "snprintf_buf s = take (BUF_SIZE - 1) s"

definition terminate :: "string list \<Rightarrow> bool \<Rightarrow> proc_io \<Rightarrow> ending \<times> proc_io" where
  "terminate env useExit3 p =
     (case getenv env ''EF_DUMPCORE'' of
        Some (c # s) \<Rightarrow> (Aborted, p)
      | _ \<Rightarrow> if useExit3 then exit3 EXIT_FAILURE p else (Underscore_exit EXIT_FAILURE, p))"

definition outputError ::
  "err_tables \<Rightarrow> bool \<Rightarrow> int \<Rightarrow> bool \<Rightarrow> string \<Rightarrow> proc_io \<Rightarrow> proc_io" where
  "outputError tb useErr err flushStdout msg p =
     (let userMsg = snprintf_buf msg;
          errText = (if useErr then
             snprintf_buf ('' ['' @ (if err > 0 \<and> err \<le> MAX_ENAME tb then ename tb err else ''?UNKNOWN?'')
                           @ '' '' @ strerror tb err @ '']'')
           else snprintf_buf '':'');
          buf = snprintf_buf (''ERROR'' @ errText @ '' '' @ userMsg @ [CHR 0x0A]);
          p1 = (if flushStdout then fflush_stdout p else p)
      in (put_stderr buf p1)\<lparr>io_errno := clobber tb\<rparr>)"

definition errMsg :: "err_tables \<Rightarrow> string \<Rightarrow> proc_io \<Rightarrow> proc_io" where
  "errMsg tb msg p =
     (let savedErrno = io_errno p;
          p1 = outputError tb True (io_errno p) True msg p
      in p1\<lparr>io_errno := savedErrno\<rparr>)"

definition errExit :: "err_tables \<Rightarrow> string list \<Rightarrow> string \<Rightarrow> proc_io \<Rightarrow> ending \<times> proc_io" where
  "errExit tb env msg p = terminate env True (outputError tb True (io_errno p) True msg p)"

definition err_exit :: "err_tables \<Rightarrow> string list \<Rightarrow> string \<Rightarrow> proc_io \<Rightarrow> ending \<times> proc_io" where
  "err_exit tb env msg p = terminate env False (outputError tb True (io_errno p) False msg p)"

definition errExitEN :: "err_tables \<Rightarrow> string list \<Rightarrow> int \<Rightarrow> string \<Rightarrow> proc_io \<Rightarrow> ending \<times> proc_io" where
  "errExitEN tb env errnum msg p = terminate env True (outputError tb True errnum True msg p)"

definition fatal :: "err_tables \<Rightarrow> string list \<Rightarrow> string \<Rightarrow> proc_io \<Rightarrow> ending \<times> proc_io" where
  "fatal tb env msg p = terminate env True (outputError tb False 0 True msg p)"

definition usageErr :: "string \<Rightarrow> proc_io \<Rightarrow> ending \<times> proc_io" where
  "usageErr msg p = exit3 EXIT_FAILURE (put_stderr msg (put_stderr ''Usage: '' (fflush_stdout p)))"

definition cmdLineErr :: "string \<Rightarrow> proc_io \<Rightarrow> ending \<times> proc_io" where
  "cmdLineErr msg p =
     exit3 EXIT_FAILURE (put_stderr msg (put_stderr ''Command-line usage error: '' (fflush_stdout p)))"

section \<open>Shared facts\<close>

text \<open>What one call of \<^verbatim>\<open>outputError\<close> adds to the error stream.\<close>

definition error_line :: "err_tables \<Rightarrow> int option \<Rightarrow> string \<Rightarrow> string" where
  "error_line tb err msg =
     ''ERROR'' @
     (case err of
        None \<Rightarrow> '':''
      | Some e \<Rightarrow> '' ['' @ (if 0 < e \<and> e \<le> MAX_ENAME tb then ename tb e else ''?UNKNOWN?'') @ '' '' @ strerror tb e @ '']'')
     @ '' '' @ msg @ [CHR 0x0A]"

lemma stderr_flush [simp]: "stderr (fflush_stdout p) = stderr p"
  by (simp add: fflush_stdout_def)

lemma stderr_outputError:
  "\<exists>w. stderr (outputError tb u e fl msg p) = stderr p @ w \<and> length w < BUF_SIZE"
  by (auto simp: outputError_def put_stderr_def snprintf_buf_def Let_def BUF_SIZE_def fflush_stdout_def)

lemma take_short: "length s \<le> n \<Longrightarrow> take n s = s"
  by simp

lemma outputError_complete:
  assumes "length (error_line tb (if u then Some e else None) msg) < BUF_SIZE"
  shows "outputError tb u e fl msg p =
    (put_stderr (error_line tb (if u then Some e else None) msg) (if fl then fflush_stdout p else p))\<lparr>io_errno := clobber tb\<rparr>"
  using assms
  by (cases u) (simp_all add: outputError_def snprintf_buf_def Let_def error_line_def BUF_SIZE_def take_short
      del: take_append)

section \<open>Properties\<close>

text \<open>
  \<^verbatim>\<open>errMsg\<close> leaves \<^verbatim>\<open>errno\<close> as its caller had it whatever the output functions do to it, writes the
  pending standard output before anything else, and adds fewer than 500 bytes to the error stream,
  which are exactly the line with the error's name, its text and the user's message when that line
  fits.
\<close>

theorem errMsg_correct:
  "io_errno (errMsg tb msg p) = io_errno p \<and>
   stdout (errMsg tb msg p) = stdout p @ pending p \<and> pending (errMsg tb msg p) = [] \<and>
   (\<exists>w. stderr (errMsg tb msg p) = stderr p @ w \<and> length w < 500 \<and>
        (length (error_line tb (Some (io_errno p)) msg) < 500 \<longrightarrow> w = error_line tb (Some (io_errno p)) msg))"
proof -
  have a: "stdout (errMsg tb msg p) = stdout p @ pending p \<and> pending (errMsg tb msg p) = []"
    by (simp add: errMsg_def outputError_def Let_def put_stderr_def fflush_stdout_def)
  have e: "stderr (errMsg tb msg p) = stderr (outputError tb True (io_errno p) True msg p)"
    by (simp add: errMsg_def Let_def)
  obtain w where w: "stderr (errMsg tb msg p) = stderr p @ w" "length w < 500"
    using stderr_outputError[of tb True "io_errno p" True msg p] e by (auto simp: BUF_SIZE_def)
  have "w = error_line tb (Some (io_errno p)) msg" if "length (error_line tb (Some (io_errno p)) msg) < 500"
    using outputError_complete[of tb True "io_errno p" msg True p] that w e
    by (simp add: BUF_SIZE_def put_stderr_def)
  then show ?thesis using a w by (auto simp: errMsg_def Let_def)
qed

theorem errMsg_correct_witness:
  "stderr (errMsg \<lparr>ename = (\<lambda>_. ''ENOENT''), MAX_ENAME = 133, strerror = (\<lambda>_. ''No such file''), clobber = 25\<rparr>
     ''open'' \<lparr>io_errno = 2, pending = [], stdout = [], stderr = []\<rparr>) = ''ERROR [ENOENT No such file] open'' @ [CHR 0x0A]"
  using errMsg_correct[of "\<lparr>ename = (\<lambda>_. ''ENOENT''), MAX_ENAME = 133, strerror = (\<lambda>_. ''No such file''), clobber = 25\<rparr>"
      "''open''" "\<lparr>io_errno = 2, pending = [], stdout = [], stderr = []\<rparr>"]
  by (simp add: error_line_def)

text \<open>
  the exits differ as documented.  Unless \<^verbatim>\<open>EF_DUMPCORE\<close> is set to a nonempty string, \<^verbatim>\<open>errExit\<close>
  and \<^verbatim>\<open>fatal\<close> end with \<^verbatim>\<open>exit\<close> and the pending output written, and \<^verbatim>\<open>err_exit\<close> ends with \<^verbatim>\<open>_exit\<close> and
  leaves standard output untouched; with that variable set all three abort.
\<close>

theorem exit_functions_correct:
  "let dump = (\<exists>s. getenv env ''EF_DUMPCORE'' = Some s \<and> s \<noteq> []);
       (e1, p1) = errExit tb env msg p; (e2, p2) = err_exit tb env msg p; (e3, p3) = fatal tb env msg p in
   e1 = (if dump then Aborted else Exit 1) \<and> stdout p1 = stdout p @ pending p \<and>
   e2 = (if dump then Aborted else Underscore_exit 1) \<and> stdout p2 = stdout p \<and> pending p2 = pending p \<and>
   e3 = (if dump then Aborted else Exit 1) \<and> stdout p3 = stdout p @ pending p \<and> stderr p1 = stderr p2"
  by (auto simp: errExit_def err_exit_def fatal_def terminate_def exit3_def EXIT_FAILURE_def outputError_def
      put_stderr_def fflush_stdout_def Let_def split: option.splits list.splits)

end
