(* ===== verification/Num_Args.thy ===== *)
theory Num_Args
  imports C_Strings "HOL-Library.Word"
begin

unbundle bit_operations_syntax

text \<open>
  Numeric arguments: \<^verbatim>\<open>getNum\<close>, \<^verbatim>\<open>getLong\<close>, \<^verbatim>\<open>getInt\<close> of \<^verbatim>\<open>tlpi-dist/lib/get_num.c\<close> and
  \<^verbatim>\<open>itimerspecFromStr\<close> of \<^verbatim>\<open>tlpi-dist/timers/itimerspec_from_str.c\<close>.  A conversion gives \<^const>\<open>Inr\<close>
  with the number or \<^const>\<open>Inl\<close> with the text printed on the error stream before the process exits with
  a failure status.
\<close>

section \<open>lib/get_num.c\<close>

definition GN_NONNEG :: "32 word" where
  "GN_NONNEG = 1"

definition GN_GT_0 :: "32 word" where
  "GN_GT_0 = 2"

definition GN_ANY_BASE :: "32 word" where
  "GN_ANY_BASE = 64"

definition GN_BASE_8 :: "32 word" where
  "GN_BASE_8 = 128"

definition GN_BASE_16 :: "32 word" where
  "GN_BASE_16 = 256"

definition flag_set :: "32 word \<Rightarrow> 32 word \<Rightarrow> bool" where
  "flag_set flags b \<longleftrightarrow> flags AND b \<noteq> 0"

definition gnFail :: "string \<Rightarrow> string \<Rightarrow> string option \<Rightarrow> string option \<Rightarrow> string" where
  "gnFail fname msg arg name =
     fname @ '' error'' @
     (case name of None \<Rightarrow> [] | Some n \<Rightarrow> '' (in '' @ n @ '')'') @
     '': '' @ msg @ [CHR 0x0A] @
     (case arg of
        None \<Rightarrow> []
      | Some a \<Rightarrow> if a = [] then [] else ''        offending text: '' @ a @ [CHR 0x0A])"

definition num_base :: "32 word \<Rightarrow> nat" where
  "num_base flags =
     (if flag_set flags GN_ANY_BASE then 0 else if flag_set flags GN_BASE_8 then 8
      else if flag_set flags GN_BASE_16 then 16 else 10)"

definition getNum :: "string \<Rightarrow> string option \<Rightarrow> 32 word \<Rightarrow> string option \<Rightarrow> string + int" where
  "getNum fname arg flags name =
     (case arg of
        None \<Rightarrow> Inl (gnFail fname ''null or empty string'' arg name)
      | Some a \<Rightarrow>
          if a = [] then Inl (gnFail fname ''null or empty string'' arg name)
          else
            let (res, endptr, err) = strtol a (num_base flags)
            in if err then Inl (gnFail fname ''strtol() failed'' arg name)
               else if endptr \<noteq> [] then Inl (gnFail fname ''nonnumeric characters'' arg name)
               else if flag_set flags GN_NONNEG \<and> res < 0 then
                 Inl (gnFail fname ''negative value not allowed'' arg name)
               else if flag_set flags GN_GT_0 \<and> res \<le> 0 then
                 Inl (gnFail fname ''value must be > 0'' arg name)
               else Inr res)"

definition getLong :: "string option \<Rightarrow> 32 word \<Rightarrow> string option \<Rightarrow> string + int" where
  "getLong arg flags name = getNum ''getLong'' arg flags name"

definition getInt :: "string option \<Rightarrow> 32 word \<Rightarrow> string option \<Rightarrow> string + int" where
  "getInt arg flags name =
     (case getNum ''getInt'' arg flags name of
        Inl e \<Rightarrow> Inl e
      | Inr res \<Rightarrow>
          if res > INT_MAX \<or> res < INT_MIN then Inl (gnFail ''getInt'' ''integer out of range'' arg name)
          else Inr res)"

section \<open>timers/itimerspec_from_str.c\<close>

record timespec =
  tv_sec :: int
  tv_nsec :: int

record itimerspec =
  it_interval :: timespec
  it_value :: timespec

text \<open>\<^verbatim>\<open>strchr\<close> followed by overwriting the found character with the null byte: the text before it and,
  when it was found, the text after it.\<close>

definition split_at :: "char \<Rightarrow> string \<Rightarrow> string \<times> string option" where
  "split_at c s =
     (let a = takeWhile (\<lambda>x. x \<noteq> c) s
      in (a, if c \<in> set s then Some (drop (Suc (length a)) s) else None))"

definition itimerspecFromStr :: "string \<Rightarrow> itimerspec" where
  "itimerspecFromStr str =
     (let (dupstr, cptr) = split_at CHR '':'' str;
          (vsec, sptr) = split_at CHR ''/'' dupstr;
          val = \<lparr>tv_sec = atoi vsec, tv_nsec = (case sptr of None \<Rightarrow> 0 | Some t \<Rightarrow> atoi t)\<rparr>
      in case cptr of
           None \<Rightarrow> \<lparr>it_interval = \<lparr>tv_sec = 0, tv_nsec = 0\<rparr>, it_value = val\<rparr>
         | Some c \<Rightarrow>
             let (isec, sptr) = split_at CHR ''/'' c
             in \<lparr>it_interval = \<lparr>tv_sec = atoi isec, tv_nsec = (case sptr of None \<Rightarrow> 0 | Some t \<Rightarrow> atoi t)\<rparr>,
                 it_value = val\<rparr>)"

section \<open>Correctness\<close>

definition show_timespec :: "int \<Rightarrow> int option \<Rightarrow> string" where
  "show_timespec s ns = show_int s @ (case ns of None \<Rightarrow> [] | Some n \<Rightarrow> ''/'' @ show_int n)"

definition in_int :: "int \<Rightarrow> bool" where
  "in_int n \<longleftrightarrow> INT_MIN \<le> n \<and> n \<le> INT_MAX"

definition plain_base :: "32 word \<Rightarrow> bool" where
  "plain_base flags \<longleftrightarrow> num_base flags = 10"

lemma getNum_decimal:
  assumes "plain_base flags"
  shows "getNum f (Some (show_int n)) flags name =
    (if \<not> in_long n then Inl (gnFail f ''strtol() failed'' (Some (show_int n)) name)
     else if flag_set flags GN_NONNEG \<and> n < 0 then
       Inl (gnFail f ''negative value not allowed'' (Some (show_int n)) name)
     else if flag_set flags GN_GT_0 \<and> n \<le> 0 then
       Inl (gnFail f ''value must be > 0'' (Some (show_int n)) name)
     else Inr n)"
  using strtol_show_int_clamp[of "[]" n] assms
  by (auto simp: getNum_def plain_base_def clamp_long_def in_long_def)

lemma split_at_found: "c \<notin> set a \<Longrightarrow> split_at c (a @ c # b) = (a, Some b)"
proof -
  assume a: "c \<notin> set a"
  then have "takeWhile (\<lambda>x. x \<noteq> c) (a @ c # b) = a" by (induction a) auto
  then show ?thesis by (simp add: split_at_def Let_def)
qed

lemma split_at_absent: "c \<notin> set a \<Longrightarrow> split_at c a = (a, None)"
  by (simp add: split_at_def Let_def takeWhile_eq_all_conv) metis

lemma sep_not_in_show: "CHR '':'' \<notin> set (show_int n)" "CHR ''/'' \<notin> set (show_int n)"
  using show_int_chars[of "CHR '':''" n] show_int_chars[of "CHR ''/''" n]
  by (auto simp: isdigit_def)

lemma split_timespec:
  "split_at CHR ''/'' (show_timespec s ns) = (show_int s, map_option show_int ns)"
  by (cases ns) (simp_all add: show_timespec_def split_at_found split_at_absent sep_not_in_show)

lemma colon_not_in_timespec: "CHR '':'' \<notin> set (show_timespec s ns)"
  by (cases ns) (simp_all add: show_timespec_def sep_not_in_show)

section \<open>Properties\<close>

text \<open>
  \<^verbatim>\<open>getInt\<close> on the decimal text of any integer, however large, in any combination of check flags:
  the integer itself exactly when it fits an \<^verbatim>\<open>int\<close> and passes the checks asked for, otherwise exit with
  the message of the first check that fails.
\<close>

theorem getInt_decimal:
  assumes "plain_base flags"
  shows "getInt (Some (show_int n)) flags name =
    (let fail = (\<lambda>msg. Inl (gnFail ''getInt'' msg (Some (show_int n)) name)) in
     if n < - (2 ^ 63) \<or> 2 ^ 63 \<le> n then fail ''strtol() failed''
     else if flag_set flags GN_NONNEG \<and> n < 0 then fail ''negative value not allowed''
     else if flag_set flags GN_GT_0 \<and> n \<le> 0 then fail ''value must be > 0''
     else if n < - (2 ^ 31) \<or> 2 ^ 31 \<le> n then fail ''integer out of range''
     else Inr n)"
  by (auto simp: getInt_def getNum_decimal[OF assms] in_long_def LONG_MIN_def LONG_MAX_def
      INT_MIN_def INT_MAX_def)

theorem getInt_decimal_witness:
  "getInt (Some (show_int (-5))) GN_NONNEG (Some ''n'') =
   Inl (gnFail ''getInt'' ''negative value not allowed'' (Some (show_int (-5))) (Some ''n''))"
proof -
  have "plain_base GN_NONNEG"
    by (simp add: plain_base_def num_base_def flag_set_def GN_NONNEG_def GN_ANY_BASE_def GN_BASE_8_def GN_BASE_16_def)
  from getInt_decimal[OF this, of "-5" "Some ''n''"] show ?thesis
    by (simp add: flag_set_def GN_NONNEG_def)
qed

text \<open>
  \<^verbatim>\<open>itimerspecFromStr\<close> reads back every printed timer specification, in all four forms: with and
  without the nanosecond part of the value and of the interval, and without an interval.
\<close>

theorem itimerspecFromStr_reads_back:
  assumes "in_int s" "pred_option in_int ns" "pred_option (\<lambda>(t, nt). in_int t \<and> pred_option in_int nt) iv"
  shows "itimerspecFromStr (show_timespec s ns @ (case iv of None \<Rightarrow> [] | Some (t, nt) \<Rightarrow> '':'' @ show_timespec t nt)) =
    \<lparr>it_interval = (case iv of None \<Rightarrow> \<lparr>tv_sec = 0, tv_nsec = 0\<rparr>
        | Some (t, nt) \<Rightarrow> \<lparr>tv_sec = t, tv_nsec = (case nt of None \<Rightarrow> 0 | Some n \<Rightarrow> n)\<rparr>),
     it_value = \<lparr>tv_sec = s, tv_nsec = (case ns of None \<Rightarrow> 0 | Some n \<Rightarrow> n)\<rparr>\<rparr>"
proof (cases iv)
  case None
  then show ?thesis using assms
    by (cases ns) (simp_all add: itimerspecFromStr_def split_at_absent colon_not_in_timespec split_timespec
        atoi_show_int in_int_def)
next
  case (Some p)
  then show ?thesis using assms
    by (cases p; cases ns; cases "snd p")
      (simp_all add: itimerspecFromStr_def split_at_found colon_not_in_timespec split_timespec
        atoi_show_int in_int_def)
qed

theorem itimerspecFromStr_reads_back_witness:
  "itimerspecFromStr (show_timespec 2 (Some 500000000) @ '':'' @ show_timespec 1 None) =
    \<lparr>it_interval = \<lparr>tv_sec = 1, tv_nsec = 0\<rparr>, it_value = \<lparr>tv_sec = 2, tv_nsec = 500000000\<rparr>\<rparr>"
  using itimerspecFromStr_reads_back[of 2 "Some 500000000" "Some (1, None)"]
  by (simp add: in_int_def INT_MIN_def INT_MAX_def)

end
