(* ===== verification/Posix_Files.thy ===== *)
theory Posix_Files
  imports Tlpi_Prelude
begin

text \<open>
  The part of the POSIX file interface the programs use, as documented in \<^verbatim>\<open>open(2)\<close>, \<^verbatim>\<open>read(2)\<close>,
  \<^verbatim>\<open>write(2)\<close>, \<^verbatim>\<open>lseek(2)\<close>, \<^verbatim>\<open>dup(2)\<close>, \<^verbatim>\<open>fcntl(2)\<close> and \<^verbatim>\<open>unlink(2)\<close>: names refer to inodes, inodes
  hold bytes, a file descriptor refers to an open file description that carries the offset and the
  status flags and may be shared by several descriptors.  A failing call returns \<^const>\<open>Inl\<close> and the
  error number.  The component theories model the C programs over these calls.
\<close>

section \<open>State\<close>

datatype acc_mode = O_RDONLY | O_WRONLY | O_RDWR

record ofd =
  o_ino :: nat
  o_off :: nat
  o_acc :: acc_mode
  o_append :: bool

record fs =
  names :: "string \<Rightarrow> nat option"
  content :: "nat \<Rightarrow> string"
  ofds :: "nat \<Rightarrow> ofd"
  fds :: "int \<Rightarrow> nat option"
  next_ino :: nat
  next_ofd :: nat
  open_max :: nat
  size_max :: nat

text \<open>Flags of \<^verbatim>\<open>open\<close>.\<close>

record oflags =
  f_acc :: acc_mode
  f_creat :: bool
  f_trunc :: bool
  f_append :: bool

definition oflag :: "acc_mode \<Rightarrow> oflags" where
  "oflag m = \<lparr>f_acc = m, f_creat = False, f_trunc = False, f_append = False\<rparr>"

abbreviation NUL :: char where
  "NUL \<equiv> CHR 0x00"

abbreviation NL :: char where
  "NL \<equiv> CHR 0x0A"

section \<open>Calls\<close>

definition get_ofd :: "fs \<Rightarrow> int \<Rightarrow> ofd option" where
  "get_ofd s fd = map_option (ofds s) (fds s fd)"

definition readable :: "ofd \<Rightarrow> bool" where
  "readable d \<longleftrightarrow> o_acc d \<noteq> O_WRONLY"

definition writable :: "ofd \<Rightarrow> bool" where
  "writable d \<longleftrightarrow> o_acc d \<noteq> O_RDONLY"

text \<open>The lowest free descriptor that is at least \<open>lo\<close>.\<close>

definition lowest_fd :: "fs \<Rightarrow> nat \<Rightarrow> nat option" where
  "lowest_fd s lo = find (\<lambda>i. fds s (int i) = None) [lo..<open_max s]"

text \<open>Overwriting from an offset; a gap before it is filled with null bytes.\<close>

definition put_at :: "string \<Rightarrow> nat \<Rightarrow> string \<Rightarrow> string" where
  "put_at c off d =
     (if d = [] then c
      else take off c @ replicate (off - length c) NUL @ d @ drop (off + length d) c)"

definition sys_open :: "fs \<Rightarrow> string \<Rightarrow> oflags \<Rightarrow> (errno + int) \<times> fs" where
  "sys_open s path fl =
     (case lowest_fd s 0 of
        None \<Rightarrow> (Inl EMFILE, s)
      | Some fd \<Rightarrow>
          let d = next_ofd s;
              mk = (\<lambda>i. \<lparr>o_ino = i, o_off = 0, o_acc = f_acc fl, o_append = f_append fl\<rparr>);
              bind = (\<lambda>i t. t\<lparr>ofds := (ofds t)(d := mk i), fds := (fds t)(int fd \<mapsto> d), next_ofd := Suc d\<rparr>)
          in case names s path of
               Some i \<Rightarrow> (Inr (int fd), bind i (if f_trunc fl then s\<lparr>content := (content s)(i := [])\<rparr> else s))
             | None \<Rightarrow>
                 if f_creat fl then
                   let i = next_ino s
                   in (Inr (int fd), bind i (s\<lparr>names := (names s)(path \<mapsto> i), content := (content s)(i := []),
                         next_ino := Suc i\<rparr>))
                 else (Inl ENOENT, s))"

definition sys_close :: "fs \<Rightarrow> int \<Rightarrow> (errno + unit) \<times> fs" where
  "sys_close s fd =
     (case fds s fd of
        None \<Rightarrow> (Inl EBADF, s)
      | Some d \<Rightarrow> (Inr (), s\<lparr>fds := (fds s)(fd := None)\<rparr>))"

definition set_off :: "fs \<Rightarrow> int \<Rightarrow> nat \<Rightarrow> fs" where
  "set_off s fd off =
     (case fds s fd of
        None \<Rightarrow> s
      | Some d \<Rightarrow> s\<lparr>ofds := (ofds s)(d := (ofds s d)\<lparr>o_off := off\<rparr>)\<rparr>)"

definition sys_read :: "fs \<Rightarrow> int \<Rightarrow> nat \<Rightarrow> (errno + string) \<times> fs" where
  "sys_read s fd n =
     (case get_ofd s fd of
        None \<Rightarrow> (Inl EBADF, s)
      | Some d \<Rightarrow>
          if \<not> readable d then (Inl EBADF, s)
          else let bs = take n (drop (o_off d) (content s (o_ino d)))
               in (Inr bs, set_off s fd (o_off d + length bs)))"

text \<open>
  A write starts at the offset, or at the end of the file when the description is in append mode;
  it is cut short at the file size limit and fails when it starts there.
\<close>

definition sys_write :: "fs \<Rightarrow> int \<Rightarrow> string \<Rightarrow> (errno + nat) \<times> fs" where
  "sys_write s fd bs =
     (case get_ofd s fd of
        None \<Rightarrow> (Inl EBADF, s)
      | Some d \<Rightarrow>
          if \<not> writable d then (Inl EBADF, s)
          else if bs = [] then (Inr 0, s)
          else let c = content s (o_ino d);
                   off = (if o_append d then length c else o_off d);
                   w = take (size_max s - off) bs
               in if size_max s \<le> off then (Inl EFBIG, s)
                  else (Inr (length w),
                        set_off (s\<lparr>content := (content s)(o_ino d := put_at c off w)\<rparr>) fd (off + length w)))"

datatype whence = SEEK_SET | SEEK_CUR | SEEK_END

definition sys_lseek :: "fs \<Rightarrow> int \<Rightarrow> int \<Rightarrow> whence \<Rightarrow> (errno + nat) \<times> fs" where
  "sys_lseek s fd off wh =
     (case get_ofd s fd of
        None \<Rightarrow> (Inl EBADF, s)
      | Some d \<Rightarrow>
          let base = (case wh of SEEK_SET \<Rightarrow> 0 | SEEK_CUR \<Rightarrow> int (o_off d)
                      | SEEK_END \<Rightarrow> int (length (content s (o_ino d))));
              n = base + off
          in if n < 0 then (Inl EINVAL, s) else (Inr (nat n), set_off s fd (nat n)))"

text \<open>\<^verbatim>\<open>fcntl(fd, F_GETFL)\<close> and \<^verbatim>\<open>fcntl(fd, F_DUPFD, lo)\<close>.\<close>

definition sys_getfl :: "fs \<Rightarrow> int \<Rightarrow> errno + (acc_mode \<times> bool)" where
  "sys_getfl s fd =
     (case get_ofd s fd of None \<Rightarrow> Inl EBADF | Some d \<Rightarrow> Inr (o_acc d, o_append d))"

definition sys_dupfd :: "fs \<Rightarrow> int \<Rightarrow> int \<Rightarrow> (errno + int) \<times> fs" where
  "sys_dupfd s fd lo =
     (case fds s fd of
        None \<Rightarrow> (Inl EBADF, s)
      | Some d \<Rightarrow>
          if lo < 0 \<or> int (open_max s) \<le> lo then (Inl EINVAL, s)
          else case lowest_fd s (nat lo) of
                 None \<Rightarrow> (Inl EMFILE, s)
               | Some n \<Rightarrow> (Inr (int n), s\<lparr>fds := (fds s)(int n \<mapsto> d)\<rparr>))"

text \<open>The system's own \<^verbatim>\<open>dup\<close> and \<^verbatim>\<open>dup2\<close>.\<close>

definition sys_dup :: "fs \<Rightarrow> int \<Rightarrow> (errno + int) \<times> fs" where
  "sys_dup s fd =
     (case fds s fd of
        None \<Rightarrow> (Inl EBADF, s)
      | Some d \<Rightarrow>
          case lowest_fd s 0 of
            None \<Rightarrow> (Inl EMFILE, s)
          | Some n \<Rightarrow> (Inr (int n), s\<lparr>fds := (fds s)(int n \<mapsto> d)\<rparr>))"

definition sys_dup2 :: "fs \<Rightarrow> int \<Rightarrow> int \<Rightarrow> (errno + int) \<times> fs" where
  "sys_dup2 s fd nfd =
     (case fds s fd of
        None \<Rightarrow> (Inl EBADF, s)
      | Some d \<Rightarrow>
          if nfd < 0 \<or> int (open_max s) \<le> nfd then (Inl EBADF, s)
          else (Inr nfd, s\<lparr>fds := (fds s)(nfd \<mapsto> d)\<rparr>))"

definition sys_unlink :: "fs \<Rightarrow> string \<Rightarrow> (errno + unit) \<times> fs" where
  "sys_unlink s path =
     (case names s path of
        None \<Rightarrow> (Inl ENOENT, s)
      | Some i \<Rightarrow> (Inr (), s\<lparr>names := (names s)(path := None)\<rparr>))"

section \<open>The invariant\<close>

text \<open>
  Descriptors lie in the descriptor range and refer to descriptions that were created; names and
  descriptions refer to inodes that were created.
\<close>

definition fs_ok :: "fs \<Rightarrow> bool" where
  "fs_ok s \<longleftrightarrow>
     (\<forall>fd d. fds s fd = Some d \<longrightarrow> 0 \<le> fd \<and> fd < int (open_max s) \<and> d < next_ofd s \<and>
        o_ino (ofds s d) < next_ino s) \<and>
     (\<forall>p i. names s p = Some i \<longrightarrow> i < next_ino s)"

lemma fs_okI:
  assumes "\<And>fd d. fds s fd = Some d \<Longrightarrow> 0 \<le> fd \<and> fd < int (open_max s) \<and> d < next_ofd s \<and> o_ino (ofds s d) < next_ino s"
    and "\<And>p i. names s p = Some i \<Longrightarrow> i < next_ino s"
  shows "fs_ok s"
  using assms by (simp add: fs_ok_def)

lemma fs_ok_fd: "fs_ok s \<Longrightarrow> fds s fd = Some d \<Longrightarrow>
    0 \<le> fd \<and> fd < int (open_max s) \<and> d < next_ofd s \<and> o_ino (ofds s d) < next_ino s"
  by (simp add: fs_ok_def)

lemma fs_ok_name: "fs_ok s \<Longrightarrow> names s p = Some i \<Longrightarrow> i < next_ino s"
  by (simp add: fs_ok_def)

lemma find_Some_mem: "find P xs = Some x \<Longrightarrow> P x \<and> x \<in> set xs"
  by (induction xs) (auto split: if_splits)

lemma lowest_fd_Some: "lowest_fd s lo = Some n \<Longrightarrow> lo \<le> n \<and> n < open_max s \<and> fds s (int n) = None"
  unfolding lowest_fd_def by (drule find_Some_mem) auto

lemma lowest_fd_exact: "fds s (int n) = None \<Longrightarrow> n < open_max s \<Longrightarrow> lowest_fd s n = Some n"
  by (simp add: lowest_fd_def upt_conv_Cons)

lemma lowest_fd_None: "lowest_fd s lo = None \<longleftrightarrow> (\<forall>n. lo \<le> n \<and> n < open_max s \<longrightarrow> fds s (int n) \<noteq> None)"
  by (auto simp: lowest_fd_def find_None_iff)

lemma set_off_simps [simp]:
  "names (set_off s fd n) = names s" "content (set_off s fd n) = content s" "fds (set_off s fd n) = fds s"
  "next_ino (set_off s fd n) = next_ino s" "next_ofd (set_off s fd n) = next_ofd s"
  "open_max (set_off s fd n) = open_max s" "size_max (set_off s fd n) = size_max s"
  "o_ino (ofds (set_off s fd n) d) = o_ino (ofds s d)"
  "o_acc (ofds (set_off s fd n) d) = o_acc (ofds s d)"
  "o_append (ofds (set_off s fd n) d) = o_append (ofds s d)"
  by (auto simp: set_off_def split: option.splits)

lemma fs_ok_cong:
  assumes "fs_ok s" "names t = names s" "fds t = fds s" "\<And>d. o_ino (ofds t d) = o_ino (ofds s d)"
    "next_ino t = next_ino s" "next_ofd t = next_ofd s" "open_max t = open_max s"
  shows "fs_ok t"
  using assms by (simp add: fs_ok_def)

lemma fs_ok_set_off: "fs_ok s \<Longrightarrow> fs_ok (set_off s fd n)"
  by (erule fs_ok_cong) simp_all

lemma fs_ok_open: "fs_ok s \<Longrightarrow> fs_ok (snd (sys_open s p fl))"
proof (cases "lowest_fd s 0")
  case None
  then show "fs_ok s \<Longrightarrow> ?thesis" by (simp add: sys_open_def)
next
  case (Some n)
  assume ok: "fs_ok s"
  note n = lowest_fd_Some[OF Some]
  show ?thesis
  proof (cases "names s p")
    case None
    show ?thesis
      by (rule fs_okI) (use None Some n ok in \<open>auto simp: sys_open_def Let_def split: if_splits
        dest: fs_ok_fd[OF ok] fs_ok_name[OF ok] intro: less_SucI\<close>)
  next
    case (Some i)
    show ?thesis
      by (rule fs_okI) (use Some \<open>lowest_fd s 0 = Some n\<close> n ok in \<open>auto simp: sys_open_def Let_def split: if_splits
        dest: fs_ok_fd[OF ok] fs_ok_name[OF ok] intro: less_SucI\<close>)
  qed
qed

lemma fs_ok_close: "fs_ok s \<Longrightarrow> fs_ok (snd (sys_close s fd))"
  by (auto simp: sys_close_def fs_ok_def split: option.splits)

lemma fs_ok_read: "fs_ok s \<Longrightarrow> fs_ok (snd (sys_read s fd n))"
  by (auto simp: sys_read_def Let_def fs_ok_set_off split: option.splits)

lemma fs_ok_content: "fs_ok s \<Longrightarrow> fs_ok (s\<lparr>content := c\<rparr>)"
  by (erule fs_ok_cong) simp_all

lemma fs_ok_write: "fs_ok s \<Longrightarrow> fs_ok (snd (sys_write s fd bs))"
  by (auto simp: sys_write_def Let_def fs_ok_set_off fs_ok_content split: option.splits)

lemma fs_ok_lseek: "fs_ok s \<Longrightarrow> fs_ok (snd (sys_lseek s fd off wh))"
  by (auto simp: sys_lseek_def Let_def fs_ok_set_off split: option.splits)

lemma fs_ok_bind_fd: "fs_ok s \<Longrightarrow> fds s fd = Some d \<Longrightarrow> 0 \<le> n \<Longrightarrow> n < int (open_max s) \<Longrightarrow> fs_ok (s\<lparr>fds := (fds s)(n \<mapsto> d)\<rparr>)"
  by (auto simp: fs_ok_def)

lemma fs_ok_dupfd: "fs_ok s \<Longrightarrow> fs_ok (snd (sys_dupfd s fd lo))"
  by (auto simp: sys_dupfd_def split: option.splits dest!: lowest_fd_Some intro!: fs_ok_bind_fd)

lemma fs_ok_dup: "fs_ok s \<Longrightarrow> fs_ok (snd (sys_dup s fd))"
  by (auto simp: sys_dup_def split: option.splits dest!: lowest_fd_Some intro!: fs_ok_bind_fd)

lemma fs_ok_dup2: "fs_ok s \<Longrightarrow> fs_ok (snd (sys_dup2 s fd n))"
  by (auto simp: sys_dup2_def split: option.splits intro!: fs_ok_bind_fd)

lemma fs_ok_unlink: "fs_ok s \<Longrightarrow> fs_ok (snd (sys_unlink s p))"
  by (auto simp: sys_unlink_def fs_ok_def split: option.splits)

lemmas fs_ok_calls = fs_ok_open fs_ok_close fs_ok_read fs_ok_write fs_ok_lseek fs_ok_dupfd fs_ok_dup
  fs_ok_dup2 fs_ok_unlink

lemma oflag_simps [simp]:
  "f_acc (oflag m) = m" "f_creat (oflag m) = False" "f_trunc (oflag m) = False" "f_append (oflag m) = False"
  by (simp_all add: oflag_def)

section \<open>Reading and writing through a descriptor\<close>

lemma put_at_end: "put_at c (length c) d = c @ d"
  by (simp add: put_at_def)

lemma put_at_Nil [simp]: "put_at c off [] = c"
  by (simp add: put_at_def)

lemma length_put_at: "d \<noteq> [] \<Longrightarrow> length (put_at c off d) = max (length c) (off + length d)"
  by (auto simp: put_at_def)

lemma read_back_put_at: "take (length d) (drop off (put_at c off d)) = d"
  by (auto simp: put_at_def)

text \<open>Two writes in a row are one write of the joined data.\<close>

lemma put_at_append: "put_at (put_at c off a) (off + length a) b = put_at c off (a @ b)"
proof (cases "a = [] \<or> b = []")
  case False
  then have ne: "a \<noteq> []" "b \<noteq> []" by auto
  have l: "length (take off c @ replicate (off - length c) NUL) = off" by simp
  show ?thesis
    using ne l by (simp add: put_at_def ac_simps)
qed auto

end
