(* ===== verification/File_Programs.thy ===== *)
theory File_Programs
  imports Posix_Files Num_Args
begin

text \<open>
  Programs on files and descriptors: the exercises of \<^verbatim>\<open>ch04\<close> and \<^verbatim>\<open>ch05\<close> and the programs of
  \<^verbatim>\<open>tlpi-dist/fileio\<close>, each over the system calls of theory \<open>Posix_Files\<close>.  A whole program is a
  function from the file system state to its exit status, what it prints on standard output and the
  new state.  Messages on the error stream are left out.  Programs that write to descriptor 1 and
  also use \<^verbatim>\<open>printf\<close> are modelled on a terminal, where both appear in program order.
\<close>

type_synonym run = "nat \<times> string \<times> fs"

section \<open>Loops that read until end of file\<close>

text \<open>
  The common loop \<^verbatim>\<open>while ((n = read(...)) > 0) write(...)\<close>, over any way to read a chunk (no value:
  the read failed) and to write one (false: the loop is left).
\<close>

datatype pump_end = Eof | Read_error | Write_error

partial_function (option) pump ::
  "('s \<Rightarrow> nat \<Rightarrow> string option \<times> 's) \<Rightarrow> ('s \<Rightarrow> string \<Rightarrow> bool \<times> 's) \<Rightarrow> nat \<Rightarrow> 's \<Rightarrow> (pump_end \<times> 's) option" where
  "pump rd wr n s =
     (case rd s n of
        (None, s1) \<Rightarrow> Some (Read_error, s1)
      | (Some bs, s1) \<Rightarrow>
          if bs = [] then Some (Eof, s1)
          else case wr s1 bs of
                 (written, s2) \<Rightarrow> if written then pump rd wr n s2 else Some (Write_error, s2))"

declare pump.simps [code]

definition fd_read :: "int \<Rightarrow> fs \<Rightarrow> nat \<Rightarrow> string option \<times> fs" where
  "fd_read fd s n = (case sys_read s fd n of (Inl e, t) \<Rightarrow> (None, t) | (Inr bs, t) \<Rightarrow> (Some bs, t))"

text \<open>Reading with standard output as a second component of the state, and writing to it.\<close>

definition fd_read_out :: "int \<Rightarrow> fs \<times> string \<Rightarrow> nat \<Rightarrow> string option \<times> (fs \<times> string)" where
  "fd_read_out fd so n = (case fd_read fd (fst so) n of (r, t) \<Rightarrow> (r, (t, snd so)))"

definition to_stdout :: "fs \<times> string \<Rightarrow> string \<Rightarrow> bool \<times> (fs \<times> string)" where
  "to_stdout so bs = (True, (fst so, snd so @ bs))"

section \<open>ch05/4_dup.c\<close>

definition my_dup :: "fs \<Rightarrow> int \<Rightarrow> (errno + int) \<times> fs" where
  "my_dup s oldfd =
     (case sys_getfl s oldfd of
        Inl _ \<Rightarrow> (Inl EBADF, s)
      | Inr _ \<Rightarrow> sys_dupfd s oldfd 0)"

definition my_dup2 :: "fs \<Rightarrow> int \<Rightarrow> int \<Rightarrow> (errno + int) \<times> fs" where
  "my_dup2 s oldfd newfd =
     (case sys_getfl s oldfd of
        Inl _ \<Rightarrow> (Inl EBADF, s)
      | Inr _ \<Rightarrow>
          if oldfd = newfd then (Inr newfd, s)
          else
            let s1 = (case sys_getfl s newfd of Inl _ \<Rightarrow> s | Inr _ \<Rightarrow> snd (sys_close s newfd))
            in case sys_dupfd s1 oldfd newfd of
                 (Inl e, s2) \<Rightarrow> (Inl e, s2)
               | (Inr result, s2) \<Rightarrow> (Inr newfd, s2))"

definition display_dup_file :: "fs \<Rightarrow> string \<Rightarrow> (string \<times> fs) option" where
  "display_dup_file s filename =
     (case sys_open s filename (oflag O_RDONLY) of
        (Inl e, s1) \<Rightarrow> Some ([], s1)
      | (Inr fd, s1) \<Rightarrow>
          (case pump (fd_read_out fd) to_stdout 128
                  (s1, [NL] @ ''Displaying content of '' @ filename @ '':'' @ [NL]) of
             None \<Rightarrow> None
           | Some (e, (s2, out)) \<Rightarrow> Some (out, snd (sys_close s2 fd))))"

definition dup_end :: "fs \<Rightarrow> string \<Rightarrow> int \<Rightarrow> int \<Rightarrow> int \<Rightarrow> run" where
  "dup_end s out fd1 fd2 fd3 =
     (let s1 = snd (sys_close (snd (sys_close (snd (sys_close s fd1)) fd2)) fd3);
          (r1, s2) = sys_unlink s1 ''testfile1.txt'';
          o1 = (case r1 of Inl _ \<Rightarrow> [] | Inr _ \<Rightarrow> [NL] @ ''Deleted testfile1.txt'' @ [NL]);
          (r2, s3) = sys_unlink s2 ''anotherfile.txt'';
          o2 = (case r2 of Inl _ \<Rightarrow> [] | Inr _ \<Rightarrow> ''Deleted anotherfile.txt'' @ [NL])
      in (0, out @ o1 @ o2, s3))"

definition dup_finish :: "fs \<Rightarrow> string \<Rightarrow> int \<Rightarrow> int \<Rightarrow> int \<Rightarrow> run option" where
  "dup_finish s out fd1 fd2 fd3 =
     (case display_dup_file s ''testfile1.txt'' of
        None \<Rightarrow> None
      | Some (d1, s1) \<Rightarrow>
          (case display_dup_file s1 ''anotherfile.txt'' of
             None \<Rightarrow> None
           | Some (d2, s2) \<Rightarrow> Some (dup_end s2 (out @ d1 @ d2) fd1 fd2 fd3)))"

definition dup_main :: "fs \<Rightarrow> run option" where
  "dup_main s =
     (case sys_open s ''testfile1.txt'' ((oflag O_RDWR)\<lparr>f_creat := True\<rparr>) of
        (Inl e, s1) \<Rightarrow> Some (1, [], s1)
      | (Inr fd1, s1) \<Rightarrow>
     (case my_dup (snd (sys_write s1 fd1 (''init line'' @ [NL]))) fd1 of
        (Inl e, s2) \<Rightarrow> Some (1, [], s2)
      | (Inr fd2, s2) \<Rightarrow>
     (let o1 = ''after int fd2 = my_dup(fd1),fd1:'' @ show_int fd1 @ '',fd2:'' @ show_int fd2 @ [NL] in
      case sys_open (snd (sys_write s2 fd2 (''second line'' @ [NL]))) ''anotherfile.txt''
             ((oflag O_RDWR)\<lparr>f_creat := True\<rparr>) of
        (Inl e, s3) \<Rightarrow> Some (1, o1, s3)
      | (Inr fd3, s3) \<Rightarrow>
     (case my_dup2 s3 fd1 fd3 of
        (Inl e, s4) \<Rightarrow>
          Some (1, o1, snd (sys_close (snd (sys_close (snd (sys_close s4 fd1)) fd2)) fd3))
      | (Inr result, s4) \<Rightarrow>
     (let o2 = o1 @ ''after my_dup2(fd1, fd3),fd1: '' @ show_int fd1 @ '',fd3: '' @ show_int fd3 @ [NL];
          s5 = snd (sys_write s4 fd3 (''third line'' @ [NL])) in
      dup_finish s5 o2 fd1 fd2 fd3)))))"

section \<open>ch05/7_rwc.c\<close>

fun writev_loop :: "fs \<Rightarrow> int \<Rightarrow> string list \<Rightarrow> nat \<Rightarrow> (errno + nat) \<times> fs" where
  "writev_loop s fd [] total_written = (Inr total_written, s)"
| "writev_loop s fd (b # iov) total_written =
     (case sys_write s fd b of
        (Inl e, s1) \<Rightarrow> (Inl e, s1)
      | (Inr bytes_written, s1) \<Rightarrow> writev_loop s1 fd iov (total_written + bytes_written))"

definition my_writev :: "fs \<Rightarrow> int \<Rightarrow> string list \<Rightarrow> (errno + nat) \<times> fs" where
  "my_writev s fd iov = writev_loop s fd iov 0"

text \<open>The buffers are given by their lengths; the result has the bytes stored in each.\<close>

fun readv_loop :: "fs \<Rightarrow> int \<Rightarrow> nat list \<Rightarrow> string list \<Rightarrow> (errno + string list) \<times> fs" where
  "readv_loop s fd [] bufs = (Inr bufs, s)"
| "readv_loop s fd (n # iov) bufs =
     (case sys_read s fd n of
        (Inl e, s1) \<Rightarrow> (Inl e, s1)
      | (Inr bs, s1) \<Rightarrow>
          if length bs < n then (Inr (bufs @ [bs]), s1)
          else readv_loop s1 fd iov (bufs @ [bs]))"

definition my_readv :: "fs \<Rightarrow> int \<Rightarrow> nat list \<Rightarrow> (errno + string list) \<times> fs" where
  "my_readv s fd iov = readv_loop s fd iov []"

text \<open>The value a call returns: \<open>-1\<close> or a count.\<close>

definition ret_val :: "errno + nat \<Rightarrow> int" where
  "ret_val r = (case r of Inl _ \<Rightarrow> -1 | Inr n \<Rightarrow> int n)"

text \<open>
  Storing the null byte at index \<open>i\<close> of an 8-byte buffer that holds \<open>bs\<close> and printing it: the first
  \<open>i\<close> characters of \<open>bs\<close> are printed.  The program does not check \<^verbatim>\<open>open\<close> and \<^verbatim>\<open>readv\<close>; the model covers
  the runs in which they succeed.
\<close>

definition rwc_main :: "fs \<Rightarrow> run option" where
  "rwc_main s =
     (case sys_open s ''test_file.txt'' ((oflag O_RDWR)\<lparr>f_creat := True, f_trunc := True\<rparr>) of
        (Inl e, s1) \<Rightarrow> None
      | (Inr fd, s1) \<Rightarrow>
     (let (w, s2) = my_writev s1 fd [''Hello, '', ''world!'' @ [NL]];
          o1 = ''Bytes written: '' @ show_int (ret_val w) @ [NL];
          s3 = snd (sys_close s2 fd) in
      case sys_open s3 ''test_file.txt'' (oflag O_RDONLY) of
        (Inl e, s4) \<Rightarrow> None
      | (Inr fd, s4) \<Rightarrow>
     (case my_readv s4 fd [7, 7] of
        (Inl e, s5) \<Rightarrow> None
      | (Inr bufs, s5) \<Rightarrow>
     (let bytes_read = length (concat bufs);
          o2 = ''Bytes read: '' @ show_nat bytes_read @ [NL];
          i1 = (if bytes_read < 8 then bytes_read else 7);
          i2 = (if bytes_read < 8 then 0 else bytes_read - 8);
          buf1 = take i1 (bufs ! 0);
          buf2 = (if length bufs < 2 then [] else take i2 (bufs ! 1));
          o3 = ''Buffer 1: '' @ [CHR 0x27] @ buf1 @ [CHR 0x27, NL];
          o4 = ''Buffer 2: '' @ [CHR 0x27] @ buf2 @ [CHR 0x27, NL];
          s6 = snd (sys_unlink (snd (sys_close s5 fd)) ''test_file.txt'')
      in Some (0, o1 @ o2 @ o3 @ o4, s6)))))"

section \<open>ch05/1_create_file.c\<close>

definition create_file_main :: "string list \<Rightarrow> fs \<Rightarrow> run" where
  "create_file_main args s =
     (case args of
        [path, offset] \<Rightarrow>
          if path = ''--help'' then (1, [], s)
          else
            (case sys_open s path ((oflag O_RDWR)\<lparr>f_creat := True\<rparr>) of
               (Inl e, s1) \<Rightarrow> (1, [], s1)
             | (Inr fd, s1) \<Rightarrow>
                 (case sys_lseek s1 fd (fst (strtol offset 10)) SEEK_SET of
                    (Inl e, s2) \<Rightarrow> (1, [], s2)
                  | (Inr off, s2) \<Rightarrow>
                      (case sys_write s2 fd ''text'' of
                         (Inl e, s3) \<Rightarrow> (1, [], s3)
                       | (Inr n, s3) \<Rightarrow> (0, ''Success'' @ [NL], s3))))
      | _ \<Rightarrow> (1, [], s))"

section \<open>Buffered streams\<close>

text \<open>
  \<^verbatim>\<open>fgets\<close> with a buffer of \<open>n\<close> bytes on what is left of a stream: up to and including the first
  newline, at most \<open>n - 1\<close> bytes.  \<open>fgets_all\<close> is the sequence of buffers a loop over \<^verbatim>\<open>fgets\<close> sees.
\<close>

definition fgets_chunk :: "nat \<Rightarrow> string \<Rightarrow> string" where
  "fgets_chunk n s = take (n - 1) (takeWhile (\<lambda>c. c \<noteq> NL) s @ (if NL \<in> set s then [NL] else []))"

lemma fgets_chunk_progress: "s \<noteq> [] \<Longrightarrow> 2 \<le> n \<Longrightarrow> fgets_chunk n s \<noteq> []"
  by (cases s) (auto simp: fgets_chunk_def)

function fgets_all :: "nat \<Rightarrow> string \<Rightarrow> string list" where
  "fgets_all n s =
     (if s = [] \<or> n < 2 then []
      else fgets_chunk n s # fgets_all n (drop (length (fgets_chunk n s)) s))"
  by pat_completeness auto

termination
  by (relation "measure (length \<circ> snd)") (auto simp: fgets_chunk_progress)

declare fgets_all.simps [simp del]

text \<open>\<^verbatim>\<open>strlen\<close> and \<^verbatim>\<open>%s\<close> stop at the first null byte of a buffer.\<close>

definition c_str :: "string \<Rightarrow> string" where
  "c_str s = takeWhile (\<lambda>c. c \<noteq> NUL) s"

text \<open>What is left to read on a stream.\<close>

definition stream_rest :: "fs \<Rightarrow> int \<Rightarrow> string" where
  "stream_rest s fd =
     (case get_ofd s fd of None \<Rightarrow> [] | Some d \<Rightarrow> drop (o_off d) (content s (o_ino d)))"

text \<open>
  A stream that is written keeps its data in a buffer until it is closed, flushed by \<^verbatim>\<open>fseek\<close> or the
  process exits.  The library may write parts of it earlier; the file afterwards is the same.
\<close>

definition fopen_flags :: "char \<Rightarrow> oflags" where
  "fopen_flags m =
     (if m = CHR ''r'' then oflag O_RDONLY
      else if m = CHR ''w'' then (oflag O_WRONLY)\<lparr>f_creat := True, f_trunc := True\<rparr>
      else (oflag O_WRONLY)\<lparr>f_creat := True, f_append := True\<rparr>)"

definition fflush :: "fs \<Rightarrow> int \<Rightarrow> string \<Rightarrow> fs" where
  "fflush s fd buf = snd (sys_write s fd buf)"

definition fclose :: "fs \<Rightarrow> int \<Rightarrow> string \<Rightarrow> fs" where
  "fclose s fd buf = snd (sys_close (fflush s fd buf) fd)"

section \<open>ch05/2_append.c\<close>

definition INITIAL_TEXT :: string where
  "INITIAL_TEXT = ''This is the initial text.'' @ [NL]"

definition APPEND_TEXT :: string where
  "APPEND_TEXT = ''This is appended text.'' @ [NL]"

definition display_append_file :: "fs \<Rightarrow> string \<Rightarrow> string \<times> fs" where
  "display_append_file s filename =
     (case sys_open s filename (fopen_flags CHR ''r'') of
        (Inl e, s1) \<Rightarrow> ([], s1)
      | (Inr fd, s1) \<Rightarrow>
          (concat (map c_str (fgets_all 1024 (stream_rest s1 fd))), snd (sys_close s1 fd)))"

definition append_main :: "fs \<Rightarrow> run" where
  "append_main s =
     (case sys_open s ''testfile.txt'' ((oflag O_WRONLY)\<lparr>f_creat := True, f_trunc := True\<rparr>) of
        (Inl e, s1) \<Rightarrow> (1, [], s1)
      | (Inr fd, s1) \<Rightarrow>
     (case sys_write s1 fd INITIAL_TEXT of
        (Inl e, s2) \<Rightarrow> (1, [], snd (sys_close s2 fd))
      | (Inr n, s2) \<Rightarrow>
     (let (d1, s3) = display_append_file (snd (sys_close s2 fd)) ''testfile.txt'';
          o1 = ''content of init file:'' @ [NL] @ d1 in
      case sys_open s3 ''testfile.txt'' ((oflag O_WRONLY)\<lparr>f_append := True\<rparr>) of
        (Inl e, s4) \<Rightarrow> (1, o1, s4)
      | (Inr fd, s4) \<Rightarrow>
     (case sys_lseek s4 fd 0 SEEK_SET of
        (Inl e, s5) \<Rightarrow> (1, o1, snd (sys_close s5 fd))
      | (Inr off, s5) \<Rightarrow>
     (case sys_write s5 fd APPEND_TEXT of
        (Inl e, s6) \<Rightarrow> (1, o1, snd (sys_close s6 fd))
      | (Inr n, s6) \<Rightarrow>
     (let (d2, s7) = display_append_file (snd (sys_close s6 fd)) ''testfile.txt'';
          o2 = o1 @ ''content of file after operating:'' @ [NL] @ d2 in
      case sys_unlink s7 ''testfile.txt'' of
        (Inl e, s8) \<Rightarrow> (1, o2, s8)
      | (Inr u, s8) \<Rightarrow> (0, o2 @ ''File testfile.txt removed successfully.'' @ [NL], s8)))))))"

section \<open>ch05/5_check_dup.c\<close>

text \<open>
  The status flags are printed as one integer whose encoding is the system's (parameter \<open>enc\<close>).
\<close>

definition check_dup_main :: "(acc_mode \<times> bool \<Rightarrow> int) \<Rightarrow> fs \<Rightarrow> run" where
  "check_dup_main enc s =
     (case sys_open s ''temp_file.txt'' ((oflag O_WRONLY)\<lparr>f_creat := True, f_trunc := True\<rparr>) of
        (Inl e, s1) \<Rightarrow> (1, [], s1)
      | (Inr original_fd, s1) \<Rightarrow>
     (case sys_dup (snd (sys_write s1 original_fd (''This is a test file.'' @ [NL]))) original_fd of
        (Inl e, s2) \<Rightarrow> (1, [], snd (sys_close s2 original_fd))
      | (Inr duplicated_fd, s2) \<Rightarrow>
     (let (original_offset, s3) = sys_lseek s2 original_fd 0 SEEK_CUR;
          (duplicated_offset, s4) = sys_lseek s3 duplicated_fd 0 SEEK_CUR;
          fl = (\<lambda>fd. case sys_getfl s4 fd of Inl _ \<Rightarrow> -1 | Inr m \<Rightarrow> enc m);
          line = (\<lambda>who fd off. who @ show_int fd @ '', Offset: '' @ show_int (ret_val off) @ '', Flags: '' @ show_int (fl fd) @ [NL]);
          verdict = (if ret_val original_offset = ret_val duplicated_offset \<and> fl original_fd = fl duplicated_fd
             then ''Duplicated file descriptors share the same file offset and status flags.'' @ [NL]
             else ''Duplicated file descriptors do NOT share the same file offset or status flags.'' @ [NL]);
          s5 = snd (sys_close (snd (sys_close s4 original_fd)) duplicated_fd);
          s6 = snd (sys_unlink s5 ''temp_file.txt'')
      in (0, line ''Original FD: '' original_fd original_offset @
             line ''Duplicated FD: '' duplicated_fd duplicated_offset @ verdict, s6))))"

section \<open>tlpi-dist/fileio/multi_descriptors.c and ch05/6_test.c\<close>

text \<open>\<^verbatim>\<open>system("cat a; echo")\<close> prints the file and a newline.\<close>

definition cat_a :: "fs \<Rightarrow> string" where
  "cat_a s = (case names s ''a'' of None \<Rightarrow> [] | Some i \<Rightarrow> content s i) @ [NL]"

definition multi_descriptors_main :: "fs \<Rightarrow> run" where
  "multi_descriptors_main s =
     (case sys_open s ''a'' ((oflag O_RDWR)\<lparr>f_creat := True, f_trunc := True\<rparr>) of
        (Inl e, s1) \<Rightarrow> (1, [], s1)
      | (Inr fd1, s1) \<Rightarrow>
     (case sys_dup s1 fd1 of
        (Inl e, s2) \<Rightarrow> (1, [], s2)
      | (Inr fd2, s2) \<Rightarrow>
     (case sys_open s2 ''a'' (oflag O_RDWR) of
        (Inl e, s3) \<Rightarrow> (1, [], s3)
      | (Inr fd3, s3) \<Rightarrow>
     (case sys_write s3 fd1 ''Hello,'' of
        (Inl e, s4) \<Rightarrow> (1, [], s4)
      | (Inr n1, s4) \<Rightarrow>
     (case sys_write s4 fd2 '' world'' of
        (Inl e, s5) \<Rightarrow> (1, cat_a s4, s5)
      | (Inr n2, s5) \<Rightarrow>
     (case sys_lseek s5 fd2 0 SEEK_SET of
        (Inl e, s6) \<Rightarrow> (1, cat_a s4 @ cat_a s5, s6)
      | (Inr off, s6) \<Rightarrow>
     (case sys_write s6 fd1 ''HELLO,'' of
        (Inl e, s7) \<Rightarrow> (1, cat_a s4 @ cat_a s5, s7)
      | (Inr n3, s7) \<Rightarrow>
     (case sys_write s7 fd3 ''Gidday'' of
        (Inl e, s8) \<Rightarrow> (1, cat_a s4 @ cat_a s5 @ cat_a s7, s8)
      | (Inr n4, s8) \<Rightarrow>
     (let out = cat_a s4 @ cat_a s5 @ cat_a s7 @ cat_a s8 in
      case sys_close s8 fd1 of
        (Inl e, s9) \<Rightarrow> (1, out, s9)
      | (Inr u1, s9) \<Rightarrow>
     (case sys_close s9 fd2 of
        (Inl e, s10) \<Rightarrow> (1, out, s10)
      | (Inr u2, s10) \<Rightarrow>
     (case sys_close s10 fd3 of
        (Inl e, s11) \<Rightarrow> (1, out, s11)
      | (Inr u3, s11) \<Rightarrow> (0, out, s11))))))))))))"

section \<open>tlpi-dist/fileio/copy.c\<close>

definition fd_write_all :: "int \<Rightarrow> fs \<Rightarrow> string \<Rightarrow> bool \<times> fs" where
  "fd_write_all fd s bs =
     (case sys_write s fd bs of (Inl e, t) \<Rightarrow> (False, t) | (Inr n, t) \<Rightarrow> (n = length bs, t))"

definition copy_main :: "string list \<Rightarrow> fs \<Rightarrow> (nat \<times> fs) option" where
  "copy_main args s =
     (case args of
        [old, new] \<Rightarrow>
          if old = ''--help'' then Some (1, s)
          else
            (case sys_open s old (oflag O_RDONLY) of
               (Inl e, s1) \<Rightarrow> Some (1, s1)
             | (Inr inputFd, s1) \<Rightarrow>
            (case sys_open s1 new ((oflag O_WRONLY)\<lparr>f_creat := True, f_trunc := True\<rparr>) of
               (Inl e, s2) \<Rightarrow> Some (1, s2)
             | (Inr outputFd, s2) \<Rightarrow>
            (case pump (fd_read inputFd) (fd_write_all outputFd) 1024 s2 of
               None \<Rightarrow> None
             | Some (Write_error, s3) \<Rightarrow> Some (1, s3)
             | Some (Read_error, s3) \<Rightarrow> Some (1, s3)
             | Some (Eof, s3) \<Rightarrow>
            (case sys_close s3 inputFd of
               (Inl e, s4) \<Rightarrow> Some (1, s4)
             | (Inr u, s4) \<Rightarrow>
            (case sys_close s4 outputFd of
               (Inl e, s5) \<Rightarrow> Some (1, s5)
             | (Inr u, s5) \<Rightarrow> Some (0, s5))))))
      | _ \<Rightarrow> Some (1, s))"

section \<open>ch04/2_cp.c and ch04/create_holes.c\<close>

text \<open>The state of the copying loop is the file system and the buffered data of the target stream.\<close>

definition fread_in :: "int \<Rightarrow> fs \<times> string \<Rightarrow> nat \<Rightarrow> string option \<times> (fs \<times> string)" where
  "fread_in fd sb n =
     (case sys_read (fst sb) fd n of
        (Inl e, t) \<Rightarrow> (Some [], (t, snd sb))
      | (Inr bs, t) \<Rightarrow> (Some bs, (t, snd sb)))"

definition fwrite_out :: "fs \<times> string \<Rightarrow> string \<Rightarrow> bool \<times> (fs \<times> string)" where
  "fwrite_out sb bs = (True, (fst sb, snd sb @ bs))"

definition copy_file_with_holes :: "string \<Rightarrow> string \<Rightarrow> fs \<Rightarrow> (nat \<times> fs) option" where
  "copy_file_with_holes source_path target_path s =
     (case sys_open s source_path (fopen_flags CHR ''r'') of
        (Inl e, s1) \<Rightarrow> Some (1, s1)
      | (Inr source_file, s1) \<Rightarrow>
     (case sys_open s1 target_path (fopen_flags CHR ''w'') of
        (Inl e, s2) \<Rightarrow> Some (1, snd (sys_close s2 source_file))
      | (Inr target_file, s2) \<Rightarrow>
     (case pump (fread_in source_file) fwrite_out 4096 (s2, []) of
        None \<Rightarrow> None
      | Some (r, (s3, buf)) \<Rightarrow>
          Some (0, fclose (snd (sys_close s3 source_file)) target_file buf))))"

definition cp_main :: "string list \<Rightarrow> fs \<Rightarrow> (nat \<times> fs) option" where
  "cp_main args s =
     (case args of
        [source, target] \<Rightarrow> copy_file_with_holes source target s
      | _ \<Rightarrow> Some (1, s))"

definition holes_data :: string where
  "holes_data = ''This is some data written to the file.'' @ [NL]"

definition HOLE_SIZE :: int where
  "HOLE_SIZE = 4096"

definition create_file_with_holes :: "string \<Rightarrow> fs \<Rightarrow> (nat \<times> fs)" where
  "create_file_with_holes filename s =
     (case sys_open s filename (fopen_flags CHR ''w'') of
        (Inl e, s1) \<Rightarrow> (1, s1)
      | (Inr file, s1) \<Rightarrow>
          (let s2 = fflush s1 file holes_data;
               s3 = snd (sys_lseek s2 file HOLE_SIZE SEEK_CUR)
           in (0, fclose s3 file holes_data)))"

definition create_holes_main :: "fs \<Rightarrow> run" where
  "create_holes_main s =
     (let (r, s1) = create_file_with_holes ''file_with_holes.bin'' s
      in if r = 0 then (0, ''File '' @ [CHR 0x27] @ ''file_with_holes.bin'' @ [CHR 0x27] @ '' created with holes.'' @ [NL], s1)
         else (r, [], s1))"

section \<open>ch04/1_tee.c\<close>

definition FILE_LIMIT :: nat where
  "FILE_LIMIT = 20"

fun tee_open :: "char \<Rightarrow> string list \<Rightarrow> fs \<Rightarrow> (int \<times> string) list option \<times> fs" where
  "tee_open m [] s = (Some [], s)"
| "tee_open m (f # fs) s =
     (case sys_open s f (fopen_flags m) of
        (Inl e, s1) \<Rightarrow> (None, s1)
      | (Inr fd, s1) \<Rightarrow>
          (case tee_open m fs s1 of
             (None, s2) \<Rightarrow> (None, s2)
           | (Some files, s2) \<Rightarrow> (Some ((fd, []) # files), s2)))"

fun tee_loop :: "string list \<Rightarrow> string \<Rightarrow> (int \<times> string) list \<Rightarrow> string \<times> (int \<times> string) list" where
  "tee_loop [] out files = (out, files)"
| "tee_loop (buffer # bufs) out files =
     (let w = c_str buffer
      in tee_loop bufs (out @ w) (map (\<lambda>(fd, b). (fd, b @ w)) files))"

definition close_files :: "(int \<times> string) list \<Rightarrow> fs \<Rightarrow> fs" where
  "close_files files s = fold (\<lambda>(fd, b) t. fclose t fd b) files s"

text \<open>
  After the options are parsed: the mode, the file names, the input up to its end or up to the
  interrupt, after which the handler closes the files.  More names than the array \<^verbatim>\<open>files\<close> holds
  is a write outside that array (no result).
\<close>

definition tee_main :: "bool \<Rightarrow> string list \<Rightarrow> string \<Rightarrow> fs \<Rightarrow> run option" where
  "tee_main is_append args input s =
     (let m = (if is_append then CHR ''a'' else CHR ''w'') in
      if length args > FILE_LIMIT then None
      else
        case tee_open m args s of
          (None, s1) \<Rightarrow> Some (1, [], s1)
        | (Some files, s1) \<Rightarrow>
            let (out, files') = tee_loop (fgets_all 1024 input) [] files
            in Some (0, out, close_files files' s1))"

section \<open>tlpi-dist/fileio/seek_io.c\<close>

definition hex_digit :: "nat \<Rightarrow> char" where
  "hex_digit n = ''0123456789abcdef'' ! n"

definition show_hex2 :: "char \<Rightarrow> string" where
  "show_hex2 c = [hex_digit (code c div 16), hex_digit (code c mod 16)]"

text \<open>
  One command-line argument: the exit status on an error, otherwise the output.  \<open>mok\<close> tells for
  which sizes \<^verbatim>\<open>malloc\<close> succeeds; a negative length becomes a huge \<^verbatim>\<open>size_t\<close>.
\<close>

definition seek_cmd :: "(nat \<Rightarrow> bool) \<Rightarrow> int \<Rightarrow> string \<Rightarrow> fs \<Rightarrow> (nat + string) \<times> fs" where
  "seek_cmd mok fd arg s =
     (case arg of
        [] \<Rightarrow> (Inl 1, s)
      | c # rest \<Rightarrow>
          if c = CHR ''r'' \<or> c = CHR ''R'' then
            (case getLong (Some rest) GN_ANY_BASE (Some arg) of
               Inl e \<Rightarrow> (Inl 1, s)
             | Inr l \<Rightarrow>
                 let len = nat (l mod int SIZE_MOD) in
                 if \<not> mok len then (Inl 1, s)
                 else
                   (case sys_read s fd len of
                      (Inl e, s1) \<Rightarrow> (Inl 1, s1)
                    | (Inr bs, s1) \<Rightarrow>
                        (Inr (if bs = [] then arg @ '': end-of-file'' @ [NL]
                              else arg @ '': '' @
                                concat (map (\<lambda>b. if c = CHR ''r'' then [if isprint b then b else CHR ''?'']
                                                 else show_hex2 b @ '' '') bs) @ [NL]), s1)))
          else if c = CHR ''w'' then
            (case sys_write s fd rest of
               (Inl e, s1) \<Rightarrow> (Inl 1, s1)
             | (Inr n, s1) \<Rightarrow> (Inr (arg @ '': wrote '' @ show_nat n @ '' bytes'' @ [NL]), s1))
          else if c = CHR ''s'' then
            (case getLong (Some rest) GN_ANY_BASE (Some arg) of
               Inl e \<Rightarrow> (Inl 1, s)
             | Inr offset \<Rightarrow>
                 (case sys_lseek s fd offset SEEK_SET of
                    (Inl e, s1) \<Rightarrow> (Inl 1, s1)
                  | (Inr off, s1) \<Rightarrow> (Inr (arg @ '': seek succeeded'' @ [NL]), s1)))
          else (Inl 1, s))"

fun seek_loop :: "(nat \<Rightarrow> bool) \<Rightarrow> int \<Rightarrow> string list \<Rightarrow> string \<Rightarrow> fs \<Rightarrow> run" where
  "seek_loop mok fd [] out s =
     (case sys_close s fd of (Inl e, s1) \<Rightarrow> (1, out, s1) | (Inr u, s1) \<Rightarrow> (0, out, s1))"
| "seek_loop mok fd (arg # args) out s =
     (case seek_cmd mok fd arg s of
        (Inl n, s1) \<Rightarrow> (n, out, s1)
      | (Inr t, s1) \<Rightarrow> seek_loop mok fd args (out @ t) s1)"

definition seek_io_main :: "(nat \<Rightarrow> bool) \<Rightarrow> string list \<Rightarrow> fs \<Rightarrow> run" where
  "seek_io_main mok args s =
     (case args of
        path # cmd # cmds \<Rightarrow>
          if path = ''--help'' then (1, [], s)
          else
            (case sys_open s path ((oflag O_RDWR)\<lparr>f_creat := True\<rparr>) of
               (Inl e, s1) \<Rightarrow> (1, [], s1)
             | (Inr fd, s1) \<Rightarrow> seek_loop mok fd (cmd # cmds) [] s1)
      | _ \<Rightarrow> (1, [], s))"

end
