(* ===== verification/File_Programs_Correct.thy ===== *)
theory File_Programs_Correct
  imports File_Programs
begin

text \<open>
  Correctness of the file programs: the descriptor-copying functions against the system's own, scatter
  and gather input and output against a single call, the copying loops through a contract for chunk-wise
  reading and writing, and the results of the demonstration programs.
\<close>

section \<open>Copies of descriptors\<close>

lemma getfl_Inl: "sys_getfl s fd = Inl e \<longleftrightarrow> fds s fd = None \<and> e = EBADF"
  by (auto simp: sys_getfl_def get_ofd_def split: option.splits)

lemma getfl_cases: "(\<exists>m. sys_getfl s fd = Inr m) \<longleftrightarrow> fds s fd \<noteq> None"
  by (auto simp: sys_getfl_def get_ofd_def split: option.splits)

lemma getfl_None: "fds s fd = None \<Longrightarrow> sys_getfl s fd = Inl EBADF"
  by (simp add: getfl_Inl)

lemma getfl_Some: "fds s fd = Some d \<Longrightarrow> sys_getfl s fd = Inr (o_acc (ofds s d), o_append (ofds s d))"
  by (simp add: sys_getfl_def get_ofd_def)

lemma my_dup_eq: "fs_ok s \<Longrightarrow> my_dup s fd = sys_dup s fd"
  by (cases "fds s fd")
    (auto simp: my_dup_def sys_dup_def sys_dupfd_def getfl_None getfl_Some dest: fs_ok_fd split: option.splits)

lemma my_dup2_eq:
  assumes ok: "fs_ok s"
  shows "my_dup2 s fd n =
    (if fds s fd \<noteq> None \<and> (n < 0 \<or> int (open_max s) \<le> n) then (Inl EINVAL, s) else sys_dup2 s fd n)"
proof (cases "fds s fd")
  case None
  then show ?thesis by (simp add: my_dup2_def sys_dup2_def getfl_None)
next
  case (Some d)
  note fd = fs_ok_fd[OF ok Some]
  show ?thesis
  proof (cases "n < 0 \<or> int (open_max s) \<le> n")
    case True
    then have "fds s n = None" using fs_ok_fd[OF ok, of n] by (cases "fds s n") auto
    moreover have "fd \<noteq> n" using fd True by auto
    ultimately show ?thesis using True Some by (simp add: my_dup2_def getfl_None getfl_Some sys_dupfd_def)
  next
    case False
    show ?thesis
    proof (cases "fd = n")
      case True
      then have "s\<lparr>fds := (fds s)(n \<mapsto> d)\<rparr> = s" using Some by (simp add: fun_upd_idem)
      then show ?thesis using True False Some by (simp add: my_dup2_def sys_dup2_def getfl_Some)
    next
      case neq: False
      let ?s1 = "s\<lparr>fds := (fds s)(n := None)\<rparr>"
      have close: "(case sys_getfl s n of Inl _ \<Rightarrow> s | Inr _ \<Rightarrow> snd (sys_close s n)) = ?s1"
        by (cases "fds s n") (simp_all add: getfl_None getfl_Some sys_close_def fun_upd_idem)
      have "lowest_fd ?s1 (nat n) = Some (nat n)" using False by (intro lowest_fd_exact) auto
      then have "sys_dupfd ?s1 fd n = (Inr n, s\<lparr>fds := (fds s)(n \<mapsto> d)\<rparr>)"
        using False neq Some by (simp add: sys_dupfd_def)
      then show ?thesis using False neq Some by (simp add: my_dup2_def sys_dup2_def getfl_Some close)
    qed
  qed
qed

section \<open>Scatter and gather\<close>

lemma get_ofd_set_off: "get_ofd (set_off s fd n) fd = map_option (\<lambda>d. d\<lparr>o_off := n\<rparr>) (get_ofd s fd)"
  by (cases "fds s fd") (simp_all add: get_ofd_def set_off_def)

lemma set_off_set_off [simp]: "set_off (set_off s fd m) fd n = set_off s fd n"
  by (cases "fds s fd") (simp_all add: set_off_def)

lemma set_off_self: "get_ofd s fd = Some d \<Longrightarrow> set_off s fd (o_off d) = s"
  by (auto simp: get_ofd_def set_off_def fun_upd_idem)

lemma set_off_content: "set_off (s\<lparr>content := c\<rparr>) fd n = (set_off s fd n)\<lparr>content := c\<rparr>"
  by (cases "fds s fd") (simp_all add: set_off_def)

lemma get_ofd_content [simp]: "get_ofd (s\<lparr>content := c\<rparr>) fd = get_ofd s fd"
  by (simp add: get_ofd_def)

lemma sys_read_ok: "get_ofd s fd = Some d \<Longrightarrow> readable d \<Longrightarrow>
   sys_read s fd n = (Inr (take n (drop (o_off d) (content s (o_ino d)))),
     set_off s fd (o_off d + length (take n (drop (o_off d) (content s (o_ino d))))))"
  by (simp add: sys_read_def Let_def)

lemma readv_loop_eq:
  assumes "get_ofd s fd = Some d" "readable d"
  shows "\<exists>bufs. readv_loop s fd ns acc = (Inr (acc @ bufs), snd (sys_read s fd (sum_list ns))) \<and>
      Inr (concat bufs) = fst (sys_read s fd (sum_list ns)) \<and> list_all2 (\<lambda>b n. length b \<le> n) bufs (take (length bufs) ns)"
  using assms
proof (induction ns arbitrary: s d acc)
  case Nil
  then show ?case by (simp add: sys_read_ok set_off_self)
next
  case (Cons n ns)
  let ?rest = "drop (o_off d) (content s (o_ino d))"
  let ?s1 = "set_off s fd (o_off d + length (take n ?rest))"
  let ?d1 = "d\<lparr>o_off := o_off d + length (take n ?rest)\<rparr>"
  have g: "get_ofd ?s1 fd = Some ?d1" "readable ?d1"
    using Cons.prems by (simp_all add: get_ofd_set_off readable_def)
  show ?case
  proof (cases "length (take n ?rest) < n")
    case True
    then have "take n ?rest = ?rest" "take (n + sum_list ns) ?rest = ?rest" by simp_all
    then show ?thesis using True Cons.prems by (intro exI[of _ "[take n ?rest]"]) (simp add: sys_read_ok)
  next
    case False
    obtain bufs where b: "readv_loop ?s1 fd ns (acc @ [take n ?rest]) =
        (Inr ((acc @ [take n ?rest]) @ bufs), snd (sys_read ?s1 fd (sum_list ns)))"
        "Inr (concat bufs) = fst (sys_read ?s1 fd (sum_list ns))"
        "list_all2 (\<lambda>b n. length b \<le> n) bufs (take (length bufs) ns)"
      using Cons.IH[OF g] by blast
    have l: "length (take n ?rest) = n" using False by simp
    have sp: "take (n + sum_list ns) ?rest = take n ?rest @ take (sum_list ns) (drop (o_off d + n) (content s (o_ino d)))"
      by (simp add: take_add add.commute)
    have r1: "sys_read ?s1 fd (sum_list ns) = (Inr (take (sum_list ns) (drop (o_off d + n) (content s (o_ino d)))),
        set_off s fd (o_off d + n + length (take (sum_list ns) (drop (o_off d + n) (content s (o_ino d))))))"
      using sys_read_ok[OF g, of "sum_list ns"] l by simp
    have r2: "sys_read s fd (n + sum_list ns) = (Inr (take n ?rest @ concat bufs), snd (sys_read ?s1 fd (sum_list ns)))"
      using sys_read_ok[OF Cons.prems, of "n + sum_list ns"] b(2) l unfolding r1 sp
      by (simp add: add.assoc)
    have st: "readv_loop s fd (n # ns) acc = readv_loop ?s1 fd ns (acc @ [take n ?rest])"
      using l Cons.prems by (simp add: sys_read_ok)
    show ?thesis
      unfolding st sum_list.Cons r2 b(1) using b(3) l by (intro exI[of _ "take n ?rest # bufs"]) simp
  qed
qed

text \<open>A write that fits.\<close>

definition write_pos :: "fs \<Rightarrow> ofd \<Rightarrow> nat" where
  "write_pos s d = (if o_append d then length (content s (o_ino d)) else o_off d)"

definition after_write :: "fs \<Rightarrow> int \<Rightarrow> ofd \<Rightarrow> string \<Rightarrow> fs" where
  "after_write s fd d bs =
     (if bs = [] then s
      else set_off (s\<lparr>content := (content s)(o_ino d := put_at (content s (o_ino d)) (write_pos s d) bs)\<rparr>)
             fd (write_pos s d + length bs))"

lemma sys_write_ok:
  assumes "get_ofd s fd = Some d" "writable d" "write_pos s d + length bs \<le> size_max s"
  shows "sys_write s fd bs = (Inr (length bs), after_write s fd d bs)"
proof (cases "bs = []")
  case False
  then have "write_pos s d < size_max s" "take (size_max s - write_pos s d) bs = bs"
    using assms(3) by (simp_all add: neq_Nil_conv) auto
  then show ?thesis using assms False by (simp add: sys_write_def Let_def write_pos_def after_write_def)
qed (use assms in \<open>simp add: sys_write_def after_write_def\<close>)

lemma after_write_simps [simp]:
  "names (after_write s fd d bs) = names s" "fds (after_write s fd d bs) = fds s"
  "next_ino (after_write s fd d bs) = next_ino s" "next_ofd (after_write s fd d bs) = next_ofd s"
  "open_max (after_write s fd d bs) = open_max s" "size_max (after_write s fd d bs) = size_max s"
  by (simp_all add: after_write_def)

lemma get_ofd_after_write:
  assumes "get_ofd s fd = Some d"
  shows "get_ofd (after_write s fd d bs) fd = Some (if bs = [] then d else d\<lparr>o_off := write_pos s d + length bs\<rparr>)"
  using assms by (auto simp: after_write_def get_ofd_set_off)

lemma content_after_write:
  "content (after_write s fd d bs) =
     (content s)(o_ino d := put_at (content s (o_ino d)) (write_pos s d) bs)"
  by (simp add: after_write_def fun_upd_idem)

lemma write_pos_after:
  assumes "get_ofd s fd = Some d" "write_pos s d \<le> length (content s (o_ino d)) \<or> \<not> o_append d" "bs \<noteq> []"
  shows "write_pos (after_write s fd d bs) (d\<lparr>o_off := write_pos s d + length bs\<rparr>) = write_pos s d + length bs"
  using assms
  by (auto simp: write_pos_def content_after_write length_put_at put_at_end)

lemma after_write_twice:
  assumes "get_ofd s fd = Some d" "a \<noteq> []"
  shows "after_write (after_write s fd d a) fd (d\<lparr>o_off := write_pos s d + length a\<rparr>) b = after_write s fd d (a @ b)"
proof -
  have wp: "write_pos (after_write s fd d a) (d\<lparr>o_off := write_pos s d + length a\<rparr>) = write_pos s d + length a"
    using assms by (intro write_pos_after) (auto simp: write_pos_def)
  show ?thesis
  proof (cases "b = []")
    case False
    have "after_write (after_write s fd d a) fd (d\<lparr>o_off := write_pos s d + length a\<rparr>) b =
        set_off ((after_write s fd d a)\<lparr>content := (content (after_write s fd d a))(o_ino d :=
          put_at (content (after_write s fd d a) (o_ino d)) (write_pos s d + length a) b)\<rparr>)
          fd (write_pos s d + length a + length b)"
      using False wp by (simp add: after_write_def[of "after_write s fd d a"])
    also have "\<dots> = after_write s fd d (a @ b)"
      using assms(2) by (simp add: content_after_write put_at_append after_write_def set_off_content add.assoc)
    finally show ?thesis .
  qed (simp add: after_write_def)
qed

lemma writev_loop_eq:
  assumes "get_ofd s fd = Some d" "writable d" "write_pos s d + length (concat iov) \<le> size_max s"
  shows "writev_loop s fd iov n = (Inr (n + length (concat iov)), after_write s fd d (concat iov))"
  using assms
proof (induction iov arbitrary: s d n)
  case Nil
  then show ?case by (simp add: after_write_def)
next
  case (Cons b iov)
  have w: "sys_write s fd b = (Inr (length b), after_write s fd d b)"
    using Cons.prems by (intro sys_write_ok) auto
  show ?case
  proof (cases "b = []")
    case True
    then show ?thesis using Cons.IH[OF Cons.prems(1,2)] Cons.prems(3) w by (simp add: after_write_def)
  next
    case False
    let ?d = "d\<lparr>o_off := write_pos s d + length b\<rparr>"
    have "writev_loop (after_write s fd d b) fd iov (n + length b) =
        (Inr (n + length b + length (concat iov)), after_write (after_write s fd d b) fd ?d (concat iov))"
    proof (rule Cons.IH)
      show "get_ofd (after_write s fd d b) fd = Some ?d"
        using get_ofd_after_write[OF Cons.prems(1), of b] False by simp
      show "writable ?d" using Cons.prems(2) by (simp add: writable_def)
      show "write_pos (after_write s fd d b) ?d + length (concat iov) \<le> size_max (after_write s fd d b)"
        using write_pos_after[OF Cons.prems(1) _ False] Cons.prems(3) by (auto simp: write_pos_def)
    qed
    then show ?thesis using w after_write_twice[OF Cons.prems(1) False] by simp
  qed
qed

section \<open>Copying loops\<close>

text \<open>
  The contract of the copying loop: what is left to read, what has been written, how many more bytes
  may be written without an error, and the rest of the state, which neither side changes.
\<close>

locale chunk_io =
  fixes rd :: "'s \<Rightarrow> nat \<Rightarrow> string option \<times> 's"
    and wr :: "'s \<Rightarrow> string \<Rightarrow> bool \<times> 's"
    and rest :: "'s \<Rightarrow> string"
    and sink :: "'s \<Rightarrow> string"
    and ok :: "nat \<Rightarrow> 's \<Rightarrow> bool"
    and frame :: "'s \<Rightarrow> 'f"
  assumes rd: "ok k s \<Longrightarrow> \<exists>t. rd s n = (Some (take n (rest s)), t) \<and> rest t = drop n (rest s) \<and>
      sink t = sink s \<and> ok k t \<and> frame t = frame s"
    and wr: "ok k s \<Longrightarrow> length bs \<le> k \<Longrightarrow> \<exists>t. wr s bs = (True, t) \<and> rest t = rest s \<and>
      sink t = sink s @ bs \<and> ok (k - length bs) t \<and> frame t = frame s"
begin

lemma pump_transfers_all:
  assumes "0 < n" "ok k s" "length (rest s) \<le> k"
  shows "\<exists>t. pump rd wr n s = Some (Eof, t) \<and> sink t = sink s @ rest s \<and> frame t = frame s \<and>
    ok (k - length (rest s)) t"
  using assms(2,3)
proof (induction "length (rest s)" arbitrary: s k rule: less_induct)
  case less
  obtain t where t: "rd s n = (Some (take n (rest s)), t)" "rest t = drop n (rest s)" "sink t = sink s"
      "ok k t" "frame t = frame s"
    using rd[OF less.prems(1)] by blast
  show ?case
  proof (cases "rest s = []")
    case True
    then show ?thesis using t by (subst pump.simps) simp
  next
    case False
    then have ne: "take n (rest s) \<noteq> []" using assms(1) by simp
    obtain u where u: "wr t (take n (rest s)) = (True, u)" "rest u = rest t" "sink u = sink t @ take n (rest s)"
        "ok (k - length (take n (rest s))) u" "frame u = frame t"
      using wr[OF t(4), of "take n (rest s)"] less.prems(2) by (force simp: min_le_iff_disj)
    have l: "length (rest u) < length (rest s)" using False assms(1) u(2) t(2) by simp
    have le: "length (rest u) \<le> k - length (take n (rest s))" using u(2) t(2) less.prems(2) by simp
    obtain v where v: "pump rd wr n u = Some (Eof, v)" "sink v = sink u @ rest u" "frame v = frame u"
        "ok (k - length (take n (rest s)) - length (rest u)) v"
      using less.hyps[OF l u(4) le] by blast
    have "pump rd wr n s = Some (Eof, v)"
      using v(1) u(1) t(1) ne by (subst pump.simps) simp
    moreover have "k - length (take n (rest s)) - length (rest u) = k - length (rest s)"
      using u(2) t(2) by simp
    ultimately show ?thesis using v u t by auto
  qed
qed

end

definition fd_sink :: "int \<Rightarrow> fs \<Rightarrow> string" where
  "fd_sink fd s = (case get_ofd s fd of None \<Rightarrow> [] | Some d \<Rightarrow> content s (o_ino d))"

definition copy_ok :: "int \<Rightarrow> int \<Rightarrow> nat \<Rightarrow> fs \<Rightarrow> bool" where
  "copy_ok ifd ofd k s \<longleftrightarrow>
     (case (get_ofd s ifd, get_ofd s ofd) of
        (Some i, Some j) \<Rightarrow> readable i \<and> writable j \<and> \<not> o_append j \<and> fds s ifd \<noteq> fds s ofd \<and>
          o_ino i \<noteq> o_ino j \<and> o_off j = length (content s (o_ino j)) \<and> o_off j + k \<le> size_max s
      | _ \<Rightarrow> False)"

definition copy_frame :: "int \<Rightarrow> fs \<Rightarrow> _" where
  "copy_frame ofd s = (names s, fds s, next_ino s, next_ofd s, map_option o_ino (get_ofd s ofd),
     (case get_ofd s ofd of None \<Rightarrow> content s | Some d \<Rightarrow> (content s)(o_ino d := [])))"

lemma get_ofd_set_off_other: "fds s a \<noteq> fds s b \<Longrightarrow> get_ofd (set_off s a n) b = get_ofd s b"
  by (cases "fds s a"; cases "fds s b") (auto simp: get_ofd_def set_off_def)

lemma copy_rd:
  assumes "copy_ok a b k s"
  shows "\<exists>t. fd_read a s n = (Some (take n (stream_rest s a)), t) \<and> stream_rest t a = drop n (stream_rest s a) \<and>
      fd_sink b t = fd_sink b s \<and> copy_ok a b k t \<and> copy_frame b t = copy_frame b s"
proof -
  from assms obtain i j where ij: "get_ofd s a = Some i" "get_ofd s b = Some j" "readable i" "fds s a \<noteq> fds s b"
    by (auto simp: copy_ok_def split: option.splits)
  define m where "m = o_off i + length (take n (drop (o_off i) (content s (o_ino i))))"
  have g: "get_ofd (set_off s a m) b = Some j" "get_ofd (set_off s a m) a = Some (i\<lparr>o_off := m\<rparr>)"
    using ij by (simp_all add: get_ofd_set_off_other get_ofd_set_off)
  have "fd_read a s n = (Some (take n (stream_rest s a)), set_off s a m)"
    using ij by (simp add: fd_read_def sys_read_ok stream_rest_def m_def)
  moreover have "stream_rest (set_off s a m) a = drop n (stream_rest s a)"
    using g ij by (auto simp: stream_rest_def m_def min_def add.commute)
  moreover have "copy_ok a b k (set_off s a m)"
    using assms g ij by (simp add: copy_ok_def readable_def)
  ultimately show ?thesis using g ij by (simp add: fd_sink_def copy_frame_def)
qed

lemma copy_wr:
  assumes "copy_ok a b k s" "length bs \<le> k"
  shows "\<exists>t. fd_write_all b s bs = (True, t) \<and> stream_rest t a = stream_rest s a \<and>
      fd_sink b t = fd_sink b s @ bs \<and> copy_ok a b (k - length bs) t \<and> copy_frame b t = copy_frame b s"
proof -
  from assms obtain i j where ij: "get_ofd s a = Some i" "get_ofd s b = Some j" "readable i" "fds s a \<noteq> fds s b"
      "writable j" "\<not> o_append j" "o_ino i \<noteq> o_ino j" "o_off j = length (content s (o_ino j))" "o_off j + k \<le> size_max s"
    by (auto simp: copy_ok_def split: option.splits)
  have wp: "write_pos s j = length (content s (o_ino j))" using ij by (simp add: write_pos_def)
  let ?t = "after_write s b j bs"
  have w: "fd_write_all b s bs = (True, ?t)"
    using sys_write_ok[of s b j bs] ij assms(2) wp by (simp add: fd_write_all_def)
  have g: "get_ofd ?t b = Some (j\<lparr>o_off := length (content s (o_ino j)) + length bs\<rparr>)"
    using get_ofd_after_write[OF ij(2), of bs] wp ij(8) by simp
  have h: "get_ofd ?t a = Some i"
    using ij by (simp add: after_write_def get_ofd_set_off_other)
  have c: "content ?t = (content s)(o_ino j := content s (o_ino j) @ bs)"
    using wp by (simp add: content_after_write put_at_end)
  have "copy_ok a b (k - length bs) ?t"
    using g h c ij assms(2) by (simp add: copy_ok_def writable_def)
  moreover have "stream_rest ?t a = stream_rest s a" using h c ij by (simp add: stream_rest_def)
  moreover have "fd_sink b ?t = fd_sink b s @ bs" using g c ij by (simp add: fd_sink_def)
  moreover have "copy_frame b ?t = copy_frame b s" using g c ij by (simp add: copy_frame_def)
  ultimately show ?thesis using w by blast
qed

interpretation copy_io: chunk_io "fd_read a" "fd_write_all b" "\<lambda>s. stream_rest s a" "fd_sink b" "copy_ok a b" "copy_frame b"
  for a b
  by unfold_locales (rule copy_rd copy_wr; assumption)+

text \<open>Reading a descriptor into a string: standard output, or the buffer of a stream.\<close>

definition text_ok :: "int \<Rightarrow> nat \<Rightarrow> fs \<times> string \<Rightarrow> bool" where
  "text_ok fd k so \<longleftrightarrow> (case get_ofd (fst so) fd of None \<Rightarrow> False | Some d \<Rightarrow> readable d)"

definition text_frame :: "int \<Rightarrow> fs \<times> string \<Rightarrow> fs" where
  "text_frame fd so = set_off (fst so) fd 0"

lemma text_rd:
  assumes "text_ok fd k so"
  shows "\<exists>t. fd_read_out fd so n = (Some (take n (stream_rest (fst so) fd)), t) \<and>
      stream_rest (fst t) fd = drop n (stream_rest (fst so) fd) \<and> snd t = snd so \<and> text_ok fd k t \<and>
      text_frame fd t = text_frame fd so"
proof -
  from assms obtain d where d: "get_ofd (fst so) fd = Some d" "readable d"
    by (auto simp: text_ok_def split: option.splits)
  then show ?thesis
    by (auto simp: fd_read_out_def fd_read_def sys_read_ok stream_rest_def get_ofd_set_off text_ok_def
        readable_def text_frame_def min_def add.commute)
qed

lemma fread_in_eq: "text_ok fd k so \<Longrightarrow> fread_in fd so n = fd_read_out fd so n"
  by (auto simp: text_ok_def fread_in_def fd_read_out_def fd_read_def sys_read_ok split: option.splits)

lemma fwrite_out_eq: "fwrite_out = to_stdout"
  by (rule ext)+ (simp add: fwrite_out_def to_stdout_def)

lemma text_wr:
  assumes "text_ok fd k so"
  shows "\<exists>t. to_stdout so bs = (True, t) \<and> stream_rest (fst t) fd = stream_rest (fst so) fd \<and>
      snd t = snd so @ bs \<and> text_ok fd (k - length bs) t \<and> text_frame fd t = text_frame fd so"
  using assms by (simp add: to_stdout_def text_ok_def text_frame_def)

interpretation show_io: chunk_io "fd_read_out fd" to_stdout "\<lambda>so. stream_rest (fst so) fd" snd "text_ok fd" "text_frame fd"
  for fd
  by unfold_locales (use text_rd text_wr in blast)+

interpretation stdio_io: chunk_io "fread_in fd" fwrite_out "\<lambda>so. stream_rest (fst so) fd" snd "text_ok fd" "text_frame fd"
  for fd
  by unfold_locales (use text_rd text_wr in \<open>simp_all add: fread_in_eq fwrite_out_eq\<close>)

section \<open>Opening files\<close>

text \<open>The inode a name refers to after opening it with \<^verbatim>\<open>O_CREAT\<close>.\<close>

definition target :: "fs \<Rightarrow> string \<Rightarrow> nat" where
  "target s p = (case names s p of None \<Rightarrow> next_ino s | Some i \<Rightarrow> i)"

definition opened :: "fs \<Rightarrow> string \<Rightarrow> oflags \<Rightarrow> nat \<Rightarrow> fs" where
  "opened s p fl n =
     s\<lparr>names := (names s)(p \<mapsto> target s p),
       content := (if f_trunc fl \<or> names s p = None then (content s)(target s p := []) else content s),
       ofds := (ofds s)(next_ofd s := \<lparr>o_ino = target s p, o_off = 0, o_acc = f_acc fl, o_append = f_append fl\<rparr>),
       fds := (fds s)(int n \<mapsto> next_ofd s),
       next_ino := (if names s p = None then Suc (next_ino s) else next_ino s),
       next_ofd := Suc (next_ofd s)\<rparr>"

lemma sys_open_opened:
  assumes "lowest_fd s 0 = Some n" "f_creat fl \<or> names s p \<noteq> None"
  shows "sys_open s p fl = (Inr (int n), opened s p fl n)"
  using assms by (cases "names s p") (auto simp: sys_open_def opened_def target_def Let_def fun_upd_idem)

lemma get_ofd_opened:
  "get_ofd (opened s p fl n) (int n) = Some \<lparr>o_ino = target s p, o_off = 0, o_acc = f_acc fl, o_append = f_append fl\<rparr>"
  by (simp add: get_ofd_def opened_def)

lemma get_ofd_opened_other:
  "fs_ok s \<Longrightarrow> fd \<noteq> int n \<Longrightarrow> get_ofd (opened s p fl n) fd = get_ofd s fd"
  by (cases "fds s fd") (auto simp: get_ofd_def opened_def dest: fs_ok_fd)

text \<open>At least \<open>k\<close> descriptors are free.\<close>

definition free_fds :: "fs \<Rightarrow> nat \<Rightarrow> bool" where
  "free_fds s k \<longleftrightarrow> k \<le> card {n. n < open_max s \<and> fds s (int n) = None}"

lemma free_fds_lowest:
  assumes "free_fds s (Suc k)"
  obtains n where "lowest_fd s 0 = Some n"
proof (cases "lowest_fd s 0")
  case None
  then have "{n. n < open_max s \<and> fds s (int n) = None} = {}" by (auto simp: lowest_fd_None)
  then have "card {n. n < open_max s \<and> fds s (int n) = None} = 0" by (simp only: card.empty)
  then show thesis using assms unfolding free_fds_def by linarith
qed (rule that)

lemma free_fds_use:
  assumes "free_fds s (Suc k)" "lowest_fd s 0 = Some n" "fds t = (fds s)(int n \<mapsto> d)" "open_max t = open_max s"
  shows "free_fds t k"
proof -
  have e: "{m. m < open_max t \<and> fds t (int m) = None} = {m. m < open_max s \<and> fds s (int m) = None} - {n}"
    using assms(3,4) by auto
  show ?thesis using assms(1) lowest_fd_Some[OF assms(2)] unfolding free_fds_def e
    by (subst card_Diff_singleton) auto
qed

lemma sys_close_ok: "fds s fd = Some d \<Longrightarrow> sys_close s fd = (Inr (), s\<lparr>fds := (fds s)(fd := None)\<rparr>)"
  by (simp add: sys_close_def)

text \<open>The state after opening a source for reading and a target for writing.\<close>

definition both_open :: "fs \<Rightarrow> string \<Rightarrow> string \<Rightarrow> oflags \<Rightarrow> oflags \<Rightarrow> nat \<Rightarrow> nat \<Rightarrow> fs" where
  "both_open s p q f g a b = opened (opened s p f a) q g b"

lemma open_both:
  assumes ok: "fs_ok s" and fr: "free_fds s 2" and src: "names s p = Some i" and g: "f_creat g"
  obtains a b where "sys_open s p f = (Inr (int a), opened s p f a)"
    "sys_open (opened s p f a) q g = (Inr (int b), both_open s p q f g a b)"
    "a \<noteq> b" "fds s (int a) = None" "fds s (int b) = None" "fs_ok (opened s p f a)"
proof -
  obtain a where a: "lowest_fd s 0 = Some a" using fr by (auto simp: numeral_2_eq_2 elim: free_fds_lowest)
  have "free_fds (opened s p f a) 1"
    using free_fds_use[of s 1 a "opened s p f a" "next_ofd s"] fr a by (simp add: opened_def numeral_2_eq_2)
  then obtain b where b: "lowest_fd (opened s p f a) 0 = Some b" by (auto simp: One_nat_def elim: free_fds_lowest)
  have o: "sys_open s p f = (Inr (int a), opened s p f a)" using a src by (simp add: sys_open_opened)
  have "fds (opened s p f a) (int b) = None" using lowest_fd_Some[OF b] by simp
  then have "a \<noteq> b" "fds s (int b) = None" by (auto simp: opened_def split: if_splits)
  moreover have "fs_ok (opened s p f a)" using fs_ok_open[OF ok, of p f] o by simp
  ultimately show thesis
    using that[of a b] o b g lowest_fd_Some[OF a] by (simp add: sys_open_opened both_open_def)
qed

lemma both_open_facts:
  assumes ok: "fs_ok s" and src: "names s p = Some i" and ab: "a \<noteq> b" and ok1: "fs_ok (opened s p f a)"
    and f: "f_trunc f = False"
  shows "get_ofd (both_open s p q f g a b) (int a) = Some \<lparr>o_ino = i, o_off = 0, o_acc = f_acc f, o_append = f_append f\<rparr>"
    "get_ofd (both_open s p q f g a b) (int b) = Some \<lparr>o_ino = target s q, o_off = 0, o_acc = f_acc g, o_append = f_append g\<rparr>"
    "fds (both_open s p q f g a b) (int a) \<noteq> fds (both_open s p q f g a b) (int b)"
    "fds (both_open s p q f g a b) = (fds s)(int a \<mapsto> next_ofd s, int b \<mapsto> Suc (next_ofd s))"
    "names (both_open s p q f g a b) = (names s)(q \<mapsto> target s q)"
    "size_max (both_open s p q f g a b) = size_max s"
    "f_trunc g \<Longrightarrow> content (both_open s p q f g a b) = (content s)(target s q := [])"
proof -
  have t: "target (opened s p f a) q = target s q" "target s p = i" "names (opened s p f a) = names s"
    using src by (auto simp: target_def opened_def fun_upd_idem split: option.splits)
  show "get_ofd (both_open s p q f g a b) (int a) = Some \<lparr>o_ino = i, o_off = 0, o_acc = f_acc f, o_append = f_append f\<rparr>"
    using ab t by (simp add: both_open_def get_ofd_opened_other[OF ok1] get_ofd_opened)
  show "get_ofd (both_open s p q f g a b) (int b) = Some \<lparr>o_ino = target s q, o_off = 0, o_acc = f_acc g, o_append = f_append g\<rparr>"
    using t by (simp add: both_open_def get_ofd_opened)
  show "fds (both_open s p q f g a b) (int a) \<noteq> fds (both_open s p q f g a b) (int b)"
    "fds (both_open s p q f g a b) = (fds s)(int a \<mapsto> next_ofd s, int b \<mapsto> Suc (next_ofd s))"
    using ab by (simp_all add: both_open_def opened_def)
  show "names (both_open s p q f g a b) = (names s)(q \<mapsto> target s q)"
    using t unfolding both_open_def by (simp add: opened_def[of "opened s p f a"])
  show "size_max (both_open s p q f g a b) = size_max s" by (simp add: both_open_def opened_def)
  show "f_trunc g \<Longrightarrow> content (both_open s p q f g a b) = (content s)(target s q := [])"
    using t src f by (simp add: both_open_def opened_def)
qed

lemma copy_pump:
  assumes a: "get_ofd s (int a) = Some \<lparr>o_ino = i, o_off = 0, o_acc = O_RDONLY, o_append = False\<rparr>"
    and b: "get_ofd s (int b) = Some \<lparr>o_ino = j, o_off = 0, o_acc = O_WRONLY, o_append = False\<rparr>"
    and ab: "fds s (int a) \<noteq> fds s (int b)" and e: "content s j = []" and sz: "length (content s i) \<le> size_max s"
  shows "\<exists>t. pump (fd_read (int a)) (fd_write_all (int b)) 1024 s = Some (Eof, t) \<and> fds t = fds s \<and> names t = names s \<and>
    content t = (content s)(j := content s i)"
proof (cases "i = j")
  case True
  have "fd_read (int a) s 1024 = (Some [], s)"
    using a e True set_off_self[OF a] by (simp add: fd_read_def sys_read_ok readable_def)
  then show ?thesis using True e by (subst pump.simps) (simp add: fun_upd_idem)
next
  case False
  have ok: "copy_ok (int a) (int b) (length (content s i)) s"
    using a b ab e sz False by (simp add: copy_ok_def readable_def writable_def)
  have rest: "stream_rest s (int a) = content s i" using a by (simp add: stream_rest_def)
  obtain t where t: "pump (fd_read (int a)) (fd_write_all (int b)) 1024 s = Some (Eof, t)"
      "fd_sink (int b) t = fd_sink (int b) s @ content s i" "copy_frame (int b) t = copy_frame (int b) s"
    using copy_io.pump_transfers_all[of 1024 "int a" "int b" "length (content s i)" s] ok rest by auto
  have o: "map_option o_ino (get_ofd t (int b)) = Some j" and n: "names t = names s" "fds t = fds s"
    using t(3) b by (simp_all add: copy_frame_def)
  then obtain d where d: "get_ofd t (int b) = Some d" "o_ino d = j" by auto
  have "content t j = content s i" using t(2) d b e by (simp add: fd_sink_def)
  moreover have "(content t)(j := []) = (content s)(j := [])" using t(3) d b by (simp add: copy_frame_def)
  then have "content t k = content s k" if "k \<noteq> j" for k using that by (metis fun_upd_apply)
  ultimately have "content t = (content s)(j := content s i)" by auto
  then show ?thesis using t(1) n by blast
qed

text \<open>Copying one file over another, in the program's and in the stream version.\<close>

definition copied :: "fs \<Rightarrow> string \<Rightarrow> nat \<Rightarrow> fs \<Rightarrow> bool" where
  "copied s new i t \<longleftrightarrow>
     names t = (names s)(new \<mapsto> target s new) \<and> fds t = fds s \<and>
     content t = (content s)(target s new := if target s new = i then [] else content s i)"

lemma copy_main_run:
  assumes ok: "fs_ok s" and fr: "free_fds s 2" and src: "names s old = Some i" and h: "old \<noteq> ''--help''"
    and sz: "length (content s i) \<le> size_max s"
  shows "\<exists>t. copy_main [old, new] s = Some (0, t) \<and> copied s new i t"
proof -
  let ?f = "oflag O_RDONLY" and ?g = "(oflag O_WRONLY)\<lparr>f_creat := True, f_trunc := True\<rparr>"
  obtain a b where ab: "sys_open s old ?f = (Inr (int a), opened s old ?f a)"
      "sys_open (opened s old ?f a) new ?g = (Inr (int b), both_open s old new ?f ?g a b)"
      "a \<noteq> b" "fds s (int a) = None" "fds s (int b) = None" "fs_ok (opened s old ?f a)"
    by (rule open_both[OF ok fr src, where q = new and f = ?f and g = ?g]) simp
  let ?s = "both_open s old new ?f ?g a b"
  have tf: "f_trunc ?f = False" by simp
  note facts = both_open_facts[OF ok src ab(3,6) tf, where q = new and g = ?g]
  have c: "content ?s = (content s)(target s new := [])" using facts(7) by simp
  have o1: "get_ofd ?s (int a) = Some \<lparr>o_ino = i, o_off = 0, o_acc = O_RDONLY, o_append = False\<rparr>"
    and o2: "get_ofd ?s (int b) = Some \<lparr>o_ino = target s new, o_off = 0, o_acc = O_WRONLY, o_append = False\<rparr>"
    and e: "content ?s (target s new) = []" and sz': "length (content ?s i) \<le> size_max ?s"
    using facts(1,2,6) c sz by simp_all
  obtain t where t: "pump (fd_read (int a)) (fd_write_all (int b)) 1024 ?s = Some (Eof, t)" "fds t = fds ?s"
      "names t = names ?s" "content t = (content ?s)(target s new := content ?s i)"
    using copy_pump[OF o1 o2 facts(3) e sz'] by blast
  have cl: "sys_close t (int a) = (Inr (), t\<lparr>fds := (fds t)(int a := None)\<rparr>)"
    "sys_close (t\<lparr>fds := (fds t)(int a := None)\<rparr>) (int b) =
       (Inr (), t\<lparr>fds := (fds t)(int a := None, int b := None)\<rparr>)"
    using t(2) facts(4) ab(3) by (simp_all add: sys_close_ok)
  let ?t = "t\<lparr>fds := (fds t)(int a := None, int b := None)\<rparr>"
  have "copy_main [old, new] s = Some (0, ?t)"
    using h ab(1,2) t(1) cl by (simp add: copy_main_def)
  moreover have "(fds s)(int a := None, int b := None) = fds s" using ab(4,5) by (auto simp: fun_eq_iff)
  then have "copied s new i ?t"
    using t(2-4) facts(4,5) c ab(3) by (auto simp: copied_def fun_upd_twist)
  ultimately show ?thesis by blast
qed

lemma fopen_flags_simps:
  "fopen_flags CHR ''r'' = oflag O_RDONLY"
  "fopen_flags CHR ''w'' = (oflag O_WRONLY)\<lparr>f_creat := True, f_trunc := True\<rparr>"
  by (simp_all add: fopen_flags_def)

lemma stdio_pump:
  assumes a: "get_ofd s a = Some \<lparr>o_ino = i, o_off = 0, o_acc = O_RDONLY, o_append = False\<rparr>"
    and n: "0 < n"
  obtains t where "pump (fread_in a) fwrite_out n (s, []) = Some (Eof, (t, content s i))" "set_off t a 0 = s"
proof -
  have "set_off s a 0 = s" using set_off_self[OF a] by simp
  moreover have "stream_rest s a = content s i" "text_ok a (length (content s i)) (s, [])"
    using a by (simp_all add: stream_rest_def text_ok_def readable_def)
  ultimately obtain u where "pump (fread_in a) fwrite_out n (s, []) = Some (Eof, u)" "snd u = content s i"
      "set_off (fst u) a 0 = s"
    using stdio_io.pump_transfers_all[OF n, of a "length (content s i)" "(s, [])"] by (auto simp: text_frame_def)
  then show thesis using that[of "fst u"] by (cases u) simp
qed

lemma cp_run:
  assumes ok: "fs_ok s" and fr: "free_fds s 2" and src: "names s old = Some i"
    and sz: "length (content s i) \<le> size_max s"
  shows "\<exists>t. copy_file_with_holes old new s = Some (0, t) \<and> copied s new i t"
proof -
  let ?f = "oflag O_RDONLY" and ?g = "(oflag O_WRONLY)\<lparr>f_creat := True, f_trunc := True\<rparr>"
  obtain a b where ab: "sys_open s old ?f = (Inr (int a), opened s old ?f a)"
      "sys_open (opened s old ?f a) new ?g = (Inr (int b), both_open s old new ?f ?g a b)"
      "a \<noteq> b" "fds s (int a) = None" "fds s (int b) = None" "fs_ok (opened s old ?f a)"
    by (rule open_both[OF ok fr src, where q = new and f = ?f and g = ?g]) simp
  let ?s = "both_open s old new ?f ?g a b"
  have tf: "f_trunc ?f = False" by simp
  note facts = both_open_facts[OF ok src ab(3,6) tf, where q = new and g = ?g]
  have c: "content ?s = (content s)(target s new := [])" using facts(7) by simp
  have o1: "get_ofd ?s (int a) = Some \<lparr>o_ino = i, o_off = 0, o_acc = O_RDONLY, o_append = False\<rparr>"
    and sz': "length (content ?s i) \<le> size_max ?s"
    using facts(1,6) c sz by simp_all
  obtain t where t: "pump (fread_in (int a)) fwrite_out 4096 (?s, []) = Some (Eof, (t, content ?s i))"
      "set_off t (int a) 0 = ?s"
    by (rule stdio_pump[OF o1, of 4096]) simp
  have e: "names t = names ?s" "content t = content ?s" "fds t = fds ?s" "size_max t = size_max ?s"
    using t(2) set_off_simps[of t "int a" 0] by simp_all
  have ob: "get_ofd t (int b) = Some \<lparr>o_ino = target s new, o_off = 0, o_acc = O_WRONLY, o_append = False\<rparr>"
    using get_ofd_set_off_other[of t "int a" "int b" 0] facts(2,3) e(3) t(2) by simp
  let ?t1 = "t\<lparr>fds := (fds t)(int a := None)\<rparr>"
  let ?d = "\<lparr>o_ino = target s new, o_off = 0, o_acc = O_WRONLY, o_append = False\<rparr>"
  have o3: "get_ofd ?t1 (int b) = Some ?d" using ob ab(3) by (simp add: get_ofd_def)
  have w: "sys_write ?t1 (int b) (content ?s i) = (Inr (length (content ?s i)), after_write ?t1 (int b) ?d (content ?s i))"
    using sz' e by (intro sys_write_ok[OF o3]) (simp_all add: writable_def write_pos_def)
  have "content (after_write ?t1 (int b) ?d (content ?s i)) = (content s)(target s new := content ?s i)"
    using e c by (simp add: content_after_write write_pos_def put_at_def)
  moreover have "(fds s)(int a := None, int b := None) = fds s" using ab(4,5) by (auto simp: fun_eq_iff)
  then have "(fds t)(int a := None, int b := None) = fds s"
    using e facts(4) ab(3) by (auto simp: fun_upd_twist)
  moreover have "copy_file_with_holes old new s =
      Some (0, (after_write ?t1 (int b) ?d (content ?s i))\<lparr>fds := (fds t)(int a := None, int b := None)\<rparr>)"
    using ab(1-3) t(1) w e(3) facts(4)
    by (simp add: copy_file_with_holes_def fopen_flags_simps fclose_def fflush_def sys_close_ok)
  ultimately show ?thesis using e facts(5) c by (auto simp: copied_def)
qed

section \<open>Runs from a freshly started process\<close>

text \<open>
  A process starts with descriptors 0, 1 and 2 open and room for more; names and contents are arbitrary.
\<close>

definition std_start :: "fs \<Rightarrow> bool" where
  "std_start s \<longleftrightarrow> fs_ok s \<and> (\<forall>fd. fds s fd = None \<longleftrightarrow> fd \<notin> {0, 1, 2}) \<and> 16 \<le> open_max s \<and> 65536 \<le> size_max s"

lemma lowest_fd_I:
  assumes "lo \<le> n" "n < open_max s" "fds s (int n) = None" "\<forall>k. lo \<le> k \<and> k < n \<longrightarrow> fds s (int k) \<noteq> None"
  shows "lowest_fd s lo = Some n"
  using assms
proof (induction "n - lo" arbitrary: lo)
  case 0
  then show ?case by (simp add: lowest_fd_exact)
next
  case (Suc m)
  have "lowest_fd s (Suc lo) = Some n" using Suc.prems Suc.hyps(2) by (intro Suc.hyps(1)) auto
  moreover have "fds s (int lo) \<noteq> None" "lo < open_max s" using Suc.prems Suc.hyps(2) by auto
  then have "lowest_fd s lo = lowest_fd s (Suc lo)"
    unfolding lowest_fd_def by (subst upt_conv_Cons) auto
  ultimately show ?case by simp
qed

lemma lowest_fd_first:
  "3 < open_max s \<Longrightarrow> fds s 3 = None \<Longrightarrow> fds s 0 \<noteq> None \<Longrightarrow> fds s 1 \<noteq> None \<Longrightarrow> fds s 2 \<noteq> None \<Longrightarrow>
     lowest_fd s 0 = Some 3"
  "4 < open_max s \<Longrightarrow> fds s 4 = None \<Longrightarrow> fds s 0 \<noteq> None \<Longrightarrow> fds s 1 \<noteq> None \<Longrightarrow> fds s 2 \<noteq> None \<Longrightarrow>
     fds s 3 \<noteq> None \<Longrightarrow> lowest_fd s 0 = Some 4"
  "5 < open_max s \<Longrightarrow> fds s 5 = None \<Longrightarrow> fds s 0 \<noteq> None \<Longrightarrow> fds s 1 \<noteq> None \<Longrightarrow> fds s 2 \<noteq> None \<Longrightarrow>
     fds s 3 \<noteq> None \<Longrightarrow> fds s 4 \<noteq> None \<Longrightarrow> lowest_fd s 0 = Some 5"
  "6 < open_max s \<Longrightarrow> fds s 6 = None \<Longrightarrow> fds s 0 \<noteq> None \<Longrightarrow> fds s 1 \<noteq> None \<Longrightarrow> fds s 2 \<noteq> None \<Longrightarrow>
     fds s 3 \<noteq> None \<Longrightarrow> fds s 4 \<noteq> None \<Longrightarrow> fds s 5 \<noteq> None \<Longrightarrow> lowest_fd s 0 = Some 6"
  by (rule lowest_fd_I, auto simp: eval_nat_numeral less_Suc_eq)+

lemmas fs_eval = sys_open_opened opened_def target_def sys_write_def sys_dup_def sys_lseek_def sys_close_def
  sys_unlink_def sys_getfl_def sys_read_def set_off_def get_ofd_def readable_def writable_def put_at_def Let_def lowest_fd_first

lemma std_startD:
  assumes "std_start s"
  shows "fds s 0 \<noteq> None" "fds s 1 \<noteq> None" "fds s 2 \<noteq> None" "fds s 3 = None" "fds s 4 = None" "fds s 5 = None" "fds s 6 = None"
    "6 < open_max s" "65535 < size_max s" "(fds s)(3 := None) = fds s"
    "(fds s)(3 := None, 4 := None) = fds s" "(fds s)(3 := None, 4 := None, 5 := None) = fds s"
proof -
  have n: "fds s fd = None \<longleftrightarrow> fd \<noteq> 0 \<and> fd \<noteq> 1 \<and> fd \<noteq> 2" for fd using assms by (simp add: std_start_def)
  show "fds s 0 \<noteq> None" "fds s 1 \<noteq> None" "fds s 2 \<noteq> None" by (simp_all only: n) simp_all
  show m: "fds s 3 = None" "fds s 4 = None" "fds s 5 = None" "fds s 6 = None" by (simp_all only: n) simp_all
  show "6 < open_max s" "65535 < size_max s" using assms by (simp_all add: std_start_def)
  show "(fds s)(3 := None) = fds s" "(fds s)(3 := None, 4 := None) = fds s"
    "(fds s)(3 := None, 4 := None, 5 := None) = fds s"
    using m by (simp_all add: fun_upd_idem)
qed

lemma show_counts: "show_int 14 = ''14''" "show_nat 14 = ''14''" "show_int 21 = ''21''" "show_int 3 = ''3''" "show_int 4 = ''4''" "show_int 5 = ''5''"
  by (simp_all add: show_int_def show_nat.simps digit_char_def)

section \<open>Reading lines\<close>

lemma take_drop_length: "take k s @ drop (length (take k s)) s = s"
  by (cases "k \<le> length s") (auto simp: min_def)

lemma chunk_append: "fgets_chunk n s @ drop (length (fgets_chunk n s)) s = s"
proof -
  define m where "m = length (takeWhile (\<lambda>c. c \<noteq> NL) s @ (if NL \<in> set s then [NL] else []))"
  have "takeWhile (\<lambda>c. c \<noteq> NL) s @ (if NL \<in> set s then [NL] else []) = take m s"
    unfolding m_def by (induction s) auto
  then have "fgets_chunk n s = take (min (n - 1) m) s" by (simp add: fgets_chunk_def)
  then show ?thesis by (simp only: take_drop_length)
qed

lemma concat_fgets_all: "2 \<le> n \<Longrightarrow> concat (fgets_all n s) = s"
proof (induction n s rule: fgets_all.induct)
  case (1 n s)
  then show ?case by (subst fgets_all.simps) (auto simp: chunk_append)
qed

lemma fgets_all_chars: "b \<in> set (fgets_all n s) \<Longrightarrow> set b \<subseteq> set s"
proof (induction n s rule: fgets_all.induct)
  case (1 n s)
  have c: "set (fgets_chunk n s) \<subseteq> set s" using arg_cong[OF chunk_append[of n s], of set] by auto
  show ?case using 1 c by (subst (asm) (2) fgets_all.simps) (auto split: if_splits dest: in_set_dropD)
qed

lemma fgets_all_text: "2 \<le> n \<Longrightarrow> NUL \<notin> set s \<Longrightarrow> concat (map c_str (fgets_all n s)) = s"
proof -
  assume n: "2 \<le> n" and s: "NUL \<notin> set s"
  have "map c_str (fgets_all n s) = map id (fgets_all n s)"
    using s fgets_all_chars[of _ n s] by (intro map_cong) (auto simp: c_str_def takeWhile_eq_all_conv)
  then show ?thesis using concat_fgets_all[OF n] by simp
qed

lemma display_dup_run:
  assumes n: "lowest_fd s 0 = Some n" and f: "names s f = Some i"
  shows "\<exists>t. display_dup_file s f = Some ([NL] @ ''Displaying content of '' @ f @ '':'' @ [NL] @ content s i, t) \<and>
     names t = names s \<and> content t = content s \<and> fds t = fds s \<and> open_max t = open_max s"
proof -
  let ?h = "[NL] @ ''Displaying content of '' @ f @ '':'' @ [NL]"
  let ?s = "opened s f (oflag O_RDONLY) n"
  have o: "sys_open s f (oflag O_RDONLY) = (Inr (int n), ?s)" using n f by (simp add: sys_open_opened)
  have g: "get_ofd ?s (int n) = Some \<lparr>o_ino = i, o_off = 0, o_acc = O_RDONLY, o_append = False\<rparr>"
    using f by (simp add: get_ofd_opened target_def)
  have e: "set_off ?s (int n) 0 = ?s" using set_off_self[OF g] by simp
  have c: "content ?s = content s" "names ?s = names s" "open_max ?s = open_max s"
    using f by (auto simp: opened_def target_def fun_upd_idem)
  have "stream_rest ?s (int n) = content s i" "text_ok (int n) (length (content s i)) (?s, ?h)"
    using g c by (simp_all add: stream_rest_def text_ok_def readable_def)
  then obtain u where u: "pump (fd_read_out (int n)) to_stdout 128 (?s, ?h) = Some (Eof, u)" "snd u = ?h @ content s i"
      "set_off (fst u) (int n) 0 = ?s"
    using show_io.pump_transfers_all[of 128 "int n" "length (content s i)" "(?s, ?h)"] e by (auto simp: text_frame_def)
  have w: "names (fst u) = names s" "content (fst u) = content s" "fds (fst u) = (fds s)(int n \<mapsto> next_ofd s)" "open_max (fst u) = open_max s"
    using c set_off_simps[of "fst u" "int n" 0] u(3) by (simp_all add: opened_def)
  have cl: "sys_close (fst u) (int n) = (Inr (), (fst u)\<lparr>fds := (fds s)(int n := None)\<rparr>)"
    using w by (simp add: sys_close_ok)
  have "(fds s)(int n := None) = fds s" using lowest_fd_Some[OF n] by (simp add: fun_upd_idem)
  then show ?thesis using o u w cl by (cases u) (simp add: display_dup_file_def)
qed
lemma dup_finish_run:
  assumes n: "lowest_fd s 0 = Some n" and i: "names s ''testfile1.txt'' = Some i" and j: "names s ''anotherfile.txt'' = Some j"
    and f: "fds s a \<noteq> None" "fds s b \<noteq> None" "fds s c \<noteq> None" "distinct [a, b, c]"
  shows "\<exists>t. dup_finish s out a b c = Some (0, out @
      [NL] @ ''Displaying content of testfile1.txt:'' @ [NL] @ content s i @
      [NL] @ ''Displaying content of anotherfile.txt:'' @ [NL] @ content s j @
      [NL] @ ''Deleted testfile1.txt'' @ [NL] @ ''Deleted anotherfile.txt'' @ [NL], t) \<and>
    names t = (names s)(''testfile1.txt'' := None, ''anotherfile.txt'' := None) \<and> fds t = (fds s)(a := None, b := None, c := None)"
proof -
  obtain t where t: "display_dup_file s ''testfile1.txt'' = Some ([NL] @ ''Displaying content of '' @ ''testfile1.txt'' @ '':'' @ [NL] @ content s i, t)"
     "names t = names s" "content t = content s" "fds t = fds s" "open_max t = open_max s"
    using display_dup_run[OF n i] by blast
  have n': "lowest_fd t 0 = Some n" and j': "names t ''anotherfile.txt'' = Some j"
    using n j t(2,4,5) by (simp_all add: lowest_fd_def)
  obtain u where u: "display_dup_file t ''anotherfile.txt'' = Some ([NL] @ ''Displaying content of '' @ ''anotherfile.txt'' @ '':'' @ [NL] @ content t j, u)"
     "names u = names t" "fds u = fds t"
    using display_dup_run[OF n' j'] by blast
  show ?thesis
    using t(1-4) u i j f by (auto simp: dup_finish_def dup_end_def sys_close_def sys_unlink_def Let_def)
qed

lemma dup_run:
  assumes st: "std_start s" and n: "names s ''testfile1.txt'' = None" "names s ''anotherfile.txt'' = None"
  shows "\<exists>t. dup_main s = Some (0, ''after int fd2 = my_dup(fd1),fd1:3,fd2:4'' @ [NL] @
      ''after my_dup2(fd1, fd3),fd1: 3,fd3: 5'' @ [NL] @
      [NL] @ ''Displaying content of testfile1.txt:'' @ [NL] @
      ''init line'' @ [NL] @ ''second line'' @ [NL] @ ''third line'' @ [NL] @
      [NL] @ ''Displaying content of anotherfile.txt:'' @ [NL] @
      [NL] @ ''Deleted testfile1.txt'' @ [NL] @ ''Deleted anotherfile.txt'' @ [NL], t) \<and>
    names t = names s \<and> fds t = fds s"
proof -
  have "\<exists>u. dup_main s = dup_finish u (''after int fd2 = my_dup(fd1),fd1:3,fd2:4'' @ [NL] @
      ''after my_dup2(fd1, fd3),fd1: 3,fd3: 5'' @ [NL]) 3 4 5 \<and> lowest_fd u 0 = Some 6 \<and>
      names u = (names s)(''testfile1.txt'' \<mapsto> next_ino s, ''anotherfile.txt'' \<mapsto> Suc (next_ino s)) \<and>
      content u (next_ino s) = ''init line'' @ [NL] @ ''second line'' @ [NL] @ ''third line'' @ [NL] \<and>
      content u (Suc (next_ino s)) = [] \<and>
      fds u = (fds s)(3 \<mapsto> next_ofd s, 4 \<mapsto> next_ofd s, 5 \<mapsto> next_ofd s)"
    using std_startD[OF st] n
    by (intro exI conjI) (simp add: dup_main_def fs_eval my_dup_def my_dup2_def sys_dupfd_def show_counts lowest_fd_exact,
      simp_all add: fs_eval)
  then obtain u where u: "dup_main s = dup_finish u (''after int fd2 = my_dup(fd1),fd1:3,fd2:4'' @ [NL] @
      ''after my_dup2(fd1, fd3),fd1: 3,fd3: 5'' @ [NL]) 3 4 5" "lowest_fd u 0 = Some 6"
      "names u = (names s)(''testfile1.txt'' \<mapsto> next_ino s, ''anotherfile.txt'' \<mapsto> Suc (next_ino s))"
      "content u (next_ino s) = ''init line'' @ [NL] @ ''second line'' @ [NL] @ ''third line'' @ [NL]"
      "content u (Suc (next_ino s)) = []"
      "fds u = (fds s)(3 \<mapsto> next_ofd s, 4 \<mapsto> next_ofd s, 5 \<mapsto> next_ofd s)"
    by blast
  have e: "(names u)(''testfile1.txt'' := None, ''anotherfile.txt'' := None) = names s"
    using u(3) n by (simp add: fun_upd_twist fun_upd_idem)
  have f: "(fds u)(3 := None, 4 := None, 5 := None) = fds s"
    using u(6) std_startD[OF st] by (simp add: fun_upd_twist fun_upd_idem)
  show ?thesis
    unfolding u(1)
    using dup_finish_run[OF u(2), where i = "next_ino s" and j = "Suc (next_ino s)" and a = 3 and b = 4 and c = 5
        and out = "''after int fd2 = my_dup(fd1),fd1:3,fd2:4'' @ [NL] @ ''after my_dup2(fd1, fd3),fd1: 3,fd3: 5'' @ [NL]"]
      u(3-6) e f n by simp
qed
section \<open>Writing and reading back with seek_io\<close>

lemma getLong_show_nat: "int n \<le> LONG_MAX \<Longrightarrow> getLong (Some (show_nat n)) GN_ANY_BASE nm = Inr (int n)"
  by (simp add: getLong_def getNum_def num_base_def flag_set_def GN_ANY_BASE_def GN_NONNEG_def GN_GT_0_def strtol_show_nat_base0)

lemma seek_cmd_s:
  assumes "get_ofd s fd = Some d" "int off \<le> LONG_MAX"
  shows "seek_cmd mok fd (CHR ''s'' # show_nat off) s = (Inr (CHR ''s'' # show_nat off @ '': seek succeeded'' @ [NL]), set_off s fd off)"
  using assms by (simp add: seek_cmd_def getLong_show_nat sys_lseek_def Let_def)

lemma seek_cmd_w:
  assumes "get_ofd s fd = Some d" "writable d" "write_pos s d + length str \<le> size_max s"
  shows "seek_cmd mok fd (CHR ''w'' # str) s =
    (Inr (CHR ''w'' # str @ '': wrote '' @ show_nat (length str) @ '' bytes'' @ [NL]), after_write s fd d str)"
  using sys_write_ok[OF assms] by (simp add: seek_cmd_def)

lemma seek_cmd_r:
  assumes "get_ofd s fd = Some d" "readable d" "int n \<le> LONG_MAX" "mok n" "take n (drop (o_off d) (content s (o_ino d))) = bs" "bs \<noteq> []"
  shows "\<exists>t. seek_cmd mok fd (CHR ''r'' # show_nat n) s =
    (Inr (CHR ''r'' # show_nat n @ '': '' @ map (\<lambda>b. if isprint b then b else CHR ''?'') bs @ [NL]), t) \<and> content t = content s \<and> fds t = fds s"
proof -
  have m: "nat (int n mod int SIZE_MOD) = n" using assms(3) by (simp add: SIZE_MOD_def LONG_MAX_def)
  have "concat (map (\<lambda>b. [if isprint b then b else CHR ''?'']) bs) = map (\<lambda>b. if isprint b then b else CHR ''?'') bs"
    by (induction bs) auto
  then show ?thesis using assms m sys_read_ok[OF assms(1,2), of n] by (simp add: seek_cmd_def getLong_show_nat Let_def)
qed

lemma seek_io_run:
  assumes ok: "fs_ok s" and n: "lowest_fd s 0 = Some n" and f: "f \<noteq> ''--help''" and str: "str \<noteq> []"
    and off: "int off \<le> LONG_MAX" and len: "int (length str) \<le> LONG_MAX" "mok (length str)" and room: "off + length str \<le> size_max s"
  shows "\<exists>t. seek_io_main mok [f, CHR ''s'' # show_nat off, CHR ''w'' # str, CHR ''s'' # show_nat off, CHR ''r'' # show_nat (length str)] s =
     (0, ''s'' @ show_nat off @ '': seek succeeded'' @ [NL] @
         ''w'' @ str @ '': wrote '' @ show_nat (length str) @ '' bytes'' @ [NL] @
         ''s'' @ show_nat off @ '': seek succeeded'' @ [NL] @
         ''r'' @ show_nat (length str) @ '': '' @ map (\<lambda>b. if isprint b then b else CHR ''?'') str @ [NL], t) \<and>
     content t (target s f) = put_at (case names s f of None \<Rightarrow> [] | Some i \<Rightarrow> content s i) off str \<and> fds t = fds s"
proof -
  let ?fl = "(oflag O_RDWR)\<lparr>f_creat := True\<rparr>" and ?fd = "int n"
  let ?s0 = "opened s f ?fl n"
  let ?d0 = "\<lparr>o_ino = target s f, o_off = 0, o_acc = O_RDWR, o_append = False\<rparr>"
  have g0: "get_ofd ?s0 ?fd = Some ?d0" by (simp add: get_ofd_opened)
  let ?s1 = "set_off ?s0 ?fd off" and ?d1 = "?d0\<lparr>o_off := off\<rparr>"
  have g1: "get_ofd ?s1 ?fd = Some ?d1" using g0 by (simp add: get_ofd_set_off)
  have wp: "write_pos ?s1 ?d1 = off" by (simp add: write_pos_def)
  let ?s2 = "after_write ?s1 ?fd ?d1 str" and ?d2 = "?d1\<lparr>o_off := off + length str\<rparr>"
  have g2: "get_ofd ?s2 ?fd = Some ?d2" using get_ofd_after_write[OF g1, of str] str wp by simp
  let ?s3 = "set_off ?s2 ?fd off" and ?d3 = "?d2\<lparr>o_off := off\<rparr>"
  have g3: "get_ofd ?s3 ?fd = Some ?d3" using g2 by (simp add: get_ofd_set_off)
  have c0: "content ?s0 (target s f) = (case names s f of None \<Rightarrow> [] | Some i \<Rightarrow> content s i)"
    by (cases "names s f") (simp_all add: opened_def target_def)
  have c2: "content ?s2 (target s f) = put_at (case names s f of None \<Rightarrow> [] | Some i \<Rightarrow> content s i) off str"
    using wp c0 by (simp add: content_after_write)
  have w: "seek_cmd mok ?fd (CHR ''w'' # str) ?s1 =
      (Inr (CHR ''w'' # str @ '': wrote '' @ show_nat (length str) @ '' bytes'' @ [NL]), ?s2)"
    using room by (intro seek_cmd_w[OF g1]) (simp_all add: writable_def write_pos_def opened_def)
  obtain t where t: "seek_cmd mok ?fd (CHR ''r'' # show_nat (length str)) ?s3 =
      (Inr (CHR ''r'' # show_nat (length str) @ '': '' @ map (\<lambda>b. if isprint b then b else CHR ''?'') str @ [NL]), t)"
      "content t = content ?s3" "fds t = fds ?s3"
    using seek_cmd_r[OF g3 _ len(1), of mok str] len(2) str c2 by (auto simp: readable_def read_back_put_at)
  have ft: "fds t = (fds s)(?fd \<mapsto> next_ofd s)" using t(3) by (simp add: opened_def)
  have cl: "sys_close t ?fd = (Inr (), t\<lparr>fds := (fds t)(?fd := None)\<rparr>)" using ft by (simp add: sys_close_ok)
  have "(fds ?s0)(?fd := None) = fds s" using lowest_fd_Some[OF n] by (simp add: opened_def fun_upd_idem)
  then show ?thesis
    using f cl t c2 ft seek_cmd_s[OF g0 off] w seek_cmd_s[OF g2 off] sys_open_opened[OF n, of ?fl f]
    by (simp add: seek_io_main_def)
qed
section \<open>tee\<close>

lemma tee_loop_eq:
  "tee_loop bufs out files = (out @ concat (map c_str bufs), map (\<lambda>(fd, b). (fd, b @ concat (map c_str bufs))) files)"
  by (induction bufs out files rule: tee_loop.induct) (auto simp: Let_def case_prod_beta comp_def)

text \<open>Streams on pairwise different files, each positioned at the end of its file, with room for their data.\<close>

definition at_end :: "fs \<Rightarrow> int \<Rightarrow> string \<Rightarrow> bool" where
  "at_end s fd b \<longleftrightarrow>
     (case get_ofd s fd of
        None \<Rightarrow> False
      | Some d \<Rightarrow> writable d \<and> write_pos s d = length (content s (o_ino d)) \<and>
          length (content s (o_ino d)) + length b \<le> size_max s)"

definition ino_of :: "fs \<Rightarrow> int \<Rightarrow> nat" where
  "ino_of s fd = (case get_ofd s fd of None \<Rightarrow> 0 | Some d \<Rightarrow> o_ino d)"

definition ready :: "fs \<Rightarrow> (int \<times> string) list \<Rightarrow> bool" where
  "ready s files \<longleftrightarrow> distinct (map fst files) \<and> distinct (map (ino_of s \<circ> fst) files) \<and>
     (\<forall>(fd, b) \<in> set files. at_end s fd b)"

lemma fclose_at_end:
  assumes a: "at_end s fd b"
  obtains t where "fclose s fd b = t" "content t = (content s)(ino_of s fd := content s (ino_of s fd) @ b)"
    "names t = names s" "fds t = (fds s)(fd := None)" "size_max t = size_max s"
    "\<And>g. fds s g \<noteq> fds s fd \<Longrightarrow> g \<noteq> fd \<Longrightarrow> get_ofd t g = get_ofd s g"
proof -
  obtain d where d: "get_ofd s fd = Some d" "writable d" "write_pos s d = length (content s (o_ino d))"
      "length (content s (o_ino d)) + length b \<le> size_max s"
    using a by (auto simp: at_end_def split: option.splits)
  have w: "sys_write s fd b = (Inr (length b), after_write s fd d b)"
    using d by (intro sys_write_ok) simp_all
  have "fds s fd \<noteq> None" using d(1) by (auto simp: get_ofd_def)
  then have cl: "fclose s fd b = (after_write s fd d b)\<lparr>fds := (fds s)(fd := None)\<rparr>"
    using w by (auto simp: fclose_def fflush_def sys_close_ok)
  let ?t = "(after_write s fd d b)\<lparr>fds := (fds s)(fd := None)\<rparr>"
  have i: "ino_of s fd = o_ino d" using d(1) by (simp add: ino_of_def)
  have c: "content ?t = (content s)(ino_of s fd := content s (ino_of s fd) @ b)"
    using d(3) i by (simp add: content_after_write put_at_end)
  have o: "get_ofd ?t g = get_ofd s g" if "fds s g \<noteq> fds s fd" "g \<noteq> fd" for g
  proof -
    have "get_ofd ?t g = get_ofd (after_write s fd d b) g" using that(2) by (simp add: get_ofd_def)
    also have "\<dots> = get_ofd s g" using that(1) by (simp add: after_write_def get_ofd_set_off_other)
    finally show ?thesis .
  qed
  show thesis by (rule that[of ?t]) (use cl c o in simp_all)
qed

lemma ready_Cons:
  assumes r: "ready s ((fd, b) # files)"
  shows "ready (fclose s fd b) files" "\<forall>g \<in> set (map fst files). ino_of (fclose s fd b) g = ino_of s g"
proof -
  have a: "at_end s fd b" using r by (simp add: ready_def)
  obtain t where t: "fclose s fd b = t" "content t = (content s)(ino_of s fd := content s (ino_of s fd) @ b)"
    "names t = names s" "fds t = (fds s)(fd := None)" "size_max t = size_max s"
    "\<And>g. fds s g \<noteq> fds s fd \<Longrightarrow> g \<noteq> fd \<Longrightarrow> get_ofd t g = get_ofd s g"
    using fclose_at_end[OF a] by metis
  have ne: "g \<noteq> fd" "ino_of s g \<noteq> ino_of s fd" if "g \<in> set (map fst files)" for g
    using r that by (force simp: ready_def)+
  have g: "get_ofd t g = get_ofd s g" if "g \<in> set (map fst files)" for g
  proof (rule t(6))
    show "fds s g \<noteq> fds s fd" using ne(2)[OF that] by (auto simp: ino_of_def get_ofd_def)
    show "g \<noteq> fd" using ne(1)[OF that] .
  qed
  then have i: "ino_of t g = ino_of s g" if "g \<in> set (map fst files)" for g using that by (simp add: ino_of_def)
  then show "\<forall>g \<in> set (map fst files). ino_of (fclose s fd b) g = ino_of s g" using t(1) by simp
  have e: "at_end t g c" if "(g, c) \<in> set files" for g c
  proof -
    have gm: "g \<in> set (map fst files)" using that by force
    have ae: "at_end s g c" using r that by (auto simp: ready_def)
    then obtain d where d: "get_ofd s g = Some d" "at_end s g c" by (auto simp: at_end_def split: option.splits)
    have "o_ino d \<noteq> ino_of s fd" using ne(2)[OF gm] d(1) by (simp add: ino_of_def)
    then show ?thesis using d g[OF gm] t(2,5) by (auto simp: at_end_def write_pos_def split: if_splits)
  qed
  have dm: "map (ino_of t \<circ> fst) files = map (ino_of s \<circ> fst) files" using i by simp
  have "distinct (map (ino_of t \<circ> fst) files)" unfolding dm using r by (simp add: ready_def)
  then show "ready (fclose s fd b) files" using e r t(1) by (auto simp: ready_def)
qed

lemma close_files_ready:
  assumes "ready s files"
  shows "(\<forall>(fd, b) \<in> set files. content (close_files files s) (ino_of s fd) = content s (ino_of s fd) @ b) \<and>
    (\<forall>i. i \<notin> set (map (ino_of s \<circ> fst) files) \<longrightarrow> content (close_files files s) i = content s i) \<and>
    names (close_files files s) = names s"
  using assms
proof (induction files arbitrary: s)
  case Nil
  then show ?case by (simp add: close_files_def)
next
  case (Cons f files)
  obtain fd b where f: "f = (fd, b)" by (cases f)
  let ?s1 = "fclose s fd b"
  have a: "at_end s fd b" using Cons.prems f by (simp add: ready_def)
  obtain t where t: "?s1 = t" "content t = (content s)(ino_of s fd := content s (ino_of s fd) @ b)" "names t = names s"
    using fclose_at_end[OF a] by metis
  note rc = ready_Cons[OF Cons.prems[unfolded f]]
  note IH = Cons.IH[OF rc(1)]
  have cf: "close_files (f # files) s = close_files files ?s1" by (simp add: close_files_def f)
  have ne: "ino_of s fd \<notin> set (map (ino_of s \<circ> fst) files)" using Cons.prems f by (simp add: ready_def comp_def)
  have im: "map (ino_of ?s1 \<circ> fst) files = map (ino_of s \<circ> fst) files" using rc(2) by simp
  have rest: "content (close_files files ?s1) i = content ?s1 i" if "i \<notin> set (map (ino_of s \<circ> fst) files)" for i
    using IH that unfolding im by blast
  have mem: "content (close_files files ?s1) (ino_of s g) = content s (ino_of s g) @ c" if "(g, c) \<in> set files" for g c
  proof -
    have gm: "g \<in> set (map fst files)" using that by force
    then have "ino_of s g \<noteq> ino_of s fd" using ne by force
    moreover have "content (close_files files ?s1) (ino_of ?s1 g) = content ?s1 (ino_of ?s1 g) @ c" using IH that by blast
    moreover have "ino_of ?s1 g = ino_of s g" using rc(2) gm by blast
    ultimately show ?thesis using t by simp
  qed
  show ?case unfolding cf using rest[OF ne] rest mem IH t f by auto
qed

lemma tee_main_run:
  assumes op: "tee_open (if ap then CHR ''a'' else CHR ''w'') args s = (Some files, s1)"
    and r: "ready s1 (map (\<lambda>(fd, b). (fd, b @ input)) files)" and l: "length args \<le> FILE_LIMIT" and nn: "NUL \<notin> set input"
  shows "\<exists>t. tee_main ap args input s = Some (0, input, t) \<and> names t = names s1 \<and>
    (\<forall>(fd, b) \<in> set files. content t (ino_of s1 fd) = content s1 (ino_of s1 fd) @ b @ input)"
proof -
  have tl: "tee_loop (fgets_all 1024 input) [] files = (input, map (\<lambda>(fd, b). (fd, b @ input)) files)"
    using fgets_all_text[OF _ nn, of 1024] by (simp add: tee_loop_eq)
  then have "tee_main ap args input s = Some (0, input, close_files (map (\<lambda>(fd, b). (fd, b @ input)) files) s1)"
    using op l by (simp add: tee_main_def Let_def)
  then show ?thesis using close_files_ready[OF r] by force
qed
section \<open>A concrete state\<close>

text \<open>A process with its three standard descriptors and one file \<^verbatim>\<open>src\<close>, for concrete runs.\<close>

definition fs0 :: fs where
  "fs0 = \<lparr>names = [''src'' \<mapsto> 0], content = (\<lambda>_. [])(0 := ''abc''),
     ofds = (\<lambda>_. \<lparr>o_ino = 1, o_off = 0, o_acc = O_RDWR, o_append = False\<rparr>), fds = [0 \<mapsto> 0, 1 \<mapsto> 1, 2 \<mapsto> 2],
     next_ino = 2, next_ofd = 3, open_max = 16, size_max = 65536\<rparr>"

lemma fs0_ok: "fs_ok fs0"
  by (rule fs_okI) (auto simp: fs0_def split: if_splits)

lemma fs0_start: "std_start fs0"
  using fs0_ok by (auto simp: std_start_def fs0_def)

lemma fs0_lowest: "lowest_fd fs0 0 = Some 3"
  by (rule lowest_fd_first) (simp_all add: fs0_def)

lemma fs0_free: "free_fds fs0 2"
proof -
  have "{3, 4} \<subseteq> {n. n < open_max fs0 \<and> fds fs0 (int n) = None}" by (auto simp: fs0_def)
  then have "card {3, 4 :: nat} \<le> card {n. n < open_max fs0 \<and> fds fs0 (int n) = None}"
    by (intro card_mono) auto
  then show ?thesis by (simp add: free_fds_def)
qed

section \<open>Properties\<close>

text \<open>
  \<^verbatim>\<open>my_dup\<close> behaves as \<^verbatim>\<open>dup\<close> in every state, and \<^verbatim>\<open>my_dup2\<close> as \<^verbatim>\<open>dup2\<close>, result, error number and
  new state, except that for a new descriptor outside the descriptor range it reports \<^verbatim>\<open>EINVAL\<close> where
  \<^verbatim>\<open>dup2\<close> reports \<^verbatim>\<open>EBADF\<close>.
\<close>

theorem my_dup_correct:
  assumes "fs_ok s"
  shows "my_dup s fd = sys_dup s fd \<and>
    my_dup2 s fd n =
      (if fds s fd \<noteq> None \<and> (n < 0 \<or> int (open_max s) \<le> n) then (Inl EINVAL, s) else sys_dup2 s fd n)"
  using my_dup_eq[OF assms] my_dup2_eq[OF assms] by simp

theorem my_dup_correct_witness:
  "my_dup2 fs0 1 2 = sys_dup2 fs0 1 2 \<and> fst (my_dup2 fs0 1 (-1)) = Inl EINVAL \<and> fst (sys_dup2 fs0 1 (-1)) = Inl EBADF"
  using my_dup_correct[OF fs0_ok, of 1 2] my_dup_correct[OF fs0_ok, of 1 "-1"]
  by (simp add: fs0_def sys_dup2_def)

text \<open>
  \<^verbatim>\<open>my_readv\<close> fills its buffers with exactly the bytes one \<^verbatim>\<open>read\<close> of their total length returns, in
  order, each within its length, and leaves the same state; \<^verbatim>\<open>my_writev\<close> has the result and the
  effect of one \<^verbatim>\<open>write\<close> of the joined buffers when these fit below the file size limit.
\<close>

theorem readv_writev_correct:
  assumes "get_ofd s fd = Some d"
  shows "(readable d \<longrightarrow> (\<exists>bufs. my_readv s fd ns = (Inr bufs, snd (sys_read s fd (sum_list ns))) \<and>
      fst (sys_read s fd (sum_list ns)) = Inr (concat bufs) \<and>
      list_all2 (\<lambda>b n. length b \<le> n) bufs (take (length bufs) ns))) \<and>
    (writable d \<and> write_pos s d + length (concat iov) \<le> size_max s \<longrightarrow>
      my_writev s fd iov = sys_write s fd (concat iov))"
  using readv_loop_eq[OF assms, of ns "[]"] writev_loop_eq[OF assms, of iov 0] sys_write_ok[OF assms, of "concat iov"]
  by (auto simp: my_readv_def my_writev_def)

theorem readv_writev_correct_witness:
  "my_writev fs0 1 [''ab'', ''c''] = sys_write fs0 1 ''abc''"
  using readv_writev_correct[where s = fs0 and fd = 1 and d = "\<lparr>o_ino = 1, o_off = 0, o_acc = O_RDWR, o_append = False\<rparr>"
      and iov = "[''ab'', ''c'']"]
  by (simp add: fs0_def get_ofd_def writable_def write_pos_def)

text \<open>
  C29: both copying programs (\<^verbatim>\<open>fileio/copy.c\<close> and \<^verbatim>\<open>ch04/2_cp.c\<close>) end, with success, and the target has
  the content of the source, whether it existed or not; no other file and no descriptor changes.
  When source and target are the same file its content is lost.
\<close>

theorem copy_programs_correct:
  assumes "fs_ok s" and "free_fds s 2" and "names s old = Some i" and "old \<noteq> ''--help''"
    and "length (content s i) \<le> size_max s"
  shows "\<exists>t u. copy_main [old, new] s = Some (0, t) \<and> cp_main [old, new] s = Some (0, u) \<and>
    copied s new i t \<and> copied s new i u"
  using copy_main_run[OF assms, of new] cp_run[OF assms(1,2,3,5), of new] by (auto simp: cp_main_def)

theorem copy_programs_correct_witness:
  "\<exists>t u. copy_main [''src'', ''dst''] fs0 = Some (0, t) \<and> cp_main [''src'', ''dst''] fs0 = Some (0, u) \<and>
    content t 2 = ''abc'' \<and> content u 2 = ''abc''"
proof -
  have "names fs0 ''src'' = Some 0" "length (content fs0 0) \<le> size_max fs0" by (simp_all add: fs0_def)
  then have "\<exists>t u. copy_main [''src'', ''dst''] fs0 = Some (0, t) \<and> cp_main [''src'', ''dst''] fs0 = Some (0, u) \<and>
      copied fs0 ''dst'' 0 t \<and> copied fs0 ''dst'' 0 u"
    using copy_programs_correct[OF fs0_ok fs0_free, of "''src''" 0 "''dst''"] by simp
  moreover have "content t 2 = ''abc''" if "copied fs0 ''dst'' 0 t" for t
    using that by (simp add: copied_def fs0_def target_def)
  ultimately show ?thesis by blast
qed

text \<open>
  \<^verbatim>\<open>seek_io\<close> reads back what it wrote.  Writing any nonempty text at any offset and reading as many
  bytes at that offset prints the text, unprintable characters shown as question marks; the file is
  as before outside the written range, with null bytes in a gap.
\<close>

theorem seek_io_reads_back:
  assumes "fs_ok s" and "lowest_fd s 0 = Some n" and "f \<noteq> ''--help''" and "str \<noteq> []"
    and "int off \<le> LONG_MAX" and "int (length str) \<le> LONG_MAX" and "mok (length str)"
    and "off + length str \<le> size_max s"
  shows "\<exists>t. seek_io_main mok [f, CHR ''s'' # show_nat off, CHR ''w'' # str, CHR ''s'' # show_nat off,
        CHR ''r'' # show_nat (length str)] s =
     (0, ''s'' @ show_nat off @ '': seek succeeded'' @ [NL] @
         ''w'' @ str @ '': wrote '' @ show_nat (length str) @ '' bytes'' @ [NL] @
         ''s'' @ show_nat off @ '': seek succeeded'' @ [NL] @
         ''r'' @ show_nat (length str) @ '': '' @ map (\<lambda>b. if isprint b then b else CHR ''?'') str @ [NL], t) \<and>
     content t (target s f) = put_at (case names s f of None \<Rightarrow> [] | Some i \<Rightarrow> content s i) off str \<and> fds t = fds s"
  using assms by (rule seek_io_run)

theorem seek_io_reads_back_witness:
  "\<exists>out t. seek_io_main (\<lambda>_. True) [''src'', CHR ''s'' # show_nat 5, ''wxyz'', CHR ''s'' # show_nat 5, CHR ''r'' # show_nat 3] fs0 =
     (0, out, t) \<and> content t 0 = ''abc'' @ [NUL, NUL] @ ''xyz''"
proof -
  have "int 5 \<le> LONG_MAX" "int (length ''xyz'') \<le> LONG_MAX" by (simp_all add: LONG_MAX_def)
  then obtain out t where "seek_io_main (\<lambda>_. True) [''src'', CHR ''s'' # show_nat 5, ''wxyz'', CHR ''s'' # show_nat 5,
      CHR ''r'' # show_nat (length ''xyz'')] fs0 = (0, out, t)"
      "content t (target fs0 ''src'') = put_at (case names fs0 ''src'' of None \<Rightarrow> [] | Some i \<Rightarrow> content fs0 i) 5 ''xyz''"
    using seek_io_reads_back[OF fs0_ok fs0_lowest, of "''src''" "''xyz''" 5 "\<lambda>_. True"] by (auto simp: fs0_def)
  moreover have "target fs0 ''src'' = 0" "names fs0 ''src'' = Some 0" "content fs0 0 = ''abc''"
    by (simp_all add: target_def fs0_def)
  ultimately show ?thesis by (simp add: put_at_def numeral_3_eq_3)
qed

text \<open>
  \<^verbatim>\<open>tee\<close> copies.  For input without null bytes and streams opened on different files, standard output
  gets the input unchanged and every file gets it after what it held when opened; at most twenty
  files are allowed.
\<close>

theorem tee_copies:
  assumes "tee_open (if ap then CHR ''a'' else CHR ''w'') args s = (Some files, s1)"
    and "ready s1 (map (\<lambda>(fd, b). (fd, b @ input)) files)" and "length args \<le> FILE_LIMIT" and "NUL \<notin> set input"
  shows "\<exists>t. tee_main ap args input s = Some (0, input, t) \<and> names t = names s1 \<and>
    (\<forall>(fd, b) \<in> set files. content t (ino_of s1 fd) = content s1 (ino_of s1 fd) @ b @ input)"
  using assms by (rule tee_main_run)

theorem tee_copies_witness:
  "\<exists>t. tee_main True [''src'', ''new''] (''hi'' @ [NL]) fs0 = Some (0, ''hi'' @ [NL], t) \<and>
    content t 0 = ''abchi'' @ [NL] \<and> content t 2 = ''hi'' @ [NL]"
proof -
  let ?a = "\<lparr>f_acc = O_WRONLY, f_creat = True, f_trunc = False, f_append = True\<rparr>"
  let ?s1 = "opened (opened fs0 ''src'' ?a 3) ''new'' ?a 4"
  have l4: "lowest_fd (opened fs0 ''src'' ?a 3) 0 = Some 4"
    by (rule lowest_fd_first) (simp_all add: fs0_def opened_def)
  have op: "tee_open (if True then CHR ''a'' else CHR ''w'') [''src'', ''new''] fs0 = (Some [(3, []), (4, [])], ?s1)"
    using sys_open_opened[OF fs0_lowest, of ?a] sys_open_opened[OF l4, of ?a]
    by (simp add: fopen_flags_def oflag_def)
  have r: "ready ?s1 (map (\<lambda>(fd, b). (fd, b @ ''hi'' @ [NL])) [(3, []), (4, [])])"
    by (simp add: ready_def at_end_def ino_of_def get_ofd_def opened_def target_def fs0_def writable_def write_pos_def)
  obtain t where t: "tee_main True [''src'', ''new''] (''hi'' @ [NL]) fs0 = Some (0, ''hi'' @ [NL], t)"
      "\<forall>(fd, b) \<in> set [(3, []), (4, [])]. content t (ino_of ?s1 fd) = content ?s1 (ino_of ?s1 fd) @ b @ ''hi'' @ [NL]"
    using tee_copies[OF op r] by (simp add: FILE_LIMIT_def) blast
  have "ino_of ?s1 3 = 0" "ino_of ?s1 4 = 2" "content ?s1 0 = ''abc''" "content ?s1 2 = []"
    by (simp_all add: ino_of_def get_ofd_def opened_def target_def fs0_def)
  then show ?thesis using t by simp
qed

text \<open>
  the demonstrations of descriptor sharing.  From a freshly started process \<^verbatim>\<open>multi_descriptors\<close>
  shows the writes through both copies of one descriptor following each other and the separately
  opened one overwriting from the start, and \<^verbatim>\<open>check_dup\<close> reports equal offsets and flags.
\<close>

theorem descriptor_sharing_runs:
  assumes "std_start s"
  shows "(\<exists>t. multi_descriptors_main s = (0, ''Hello,'' @ [NL] @ ''Hello, world'' @ [NL] @ ''HELLO, world'' @ [NL] @
        ''Gidday world'' @ [NL], t) \<and> fds t = fds s) \<and>
    (\<exists>t. check_dup_main enc s = (0, ''Original FD: 3, Offset: 21, Flags: '' @ show_int (enc (O_WRONLY, False)) @ [NL] @
        ''Duplicated FD: 4, Offset: 21, Flags: '' @ show_int (enc (O_WRONLY, False)) @ [NL] @
        ''Duplicated file descriptors share the same file offset and status flags.'' @ [NL], t) \<and> fds t = fds s \<and>
      names t = (names s)(''temp_file.txt'' := None))"
  using std_startD[OF assms]
  by (intro conjI)
    (simp add: multi_descriptors_main_def fs_eval cat_a_def,
     simp add: check_dup_main_def fs_eval ret_val_def show_counts)

theorem descriptor_sharing_runs_witness:
  "fst (multi_descriptors_main fs0) = 0 \<and> fst (check_dup_main (\<lambda>_. 1) fs0) = 0"
  using descriptor_sharing_runs[OF fs0_start, of "\<lambda>_. 1"] by auto

text \<open>
  the run of \<^verbatim>\<open>ch05/4_dup.c\<close>: from a freshly started process without the two files, the three writes
  through the copies of one descriptor end up one after the other in the first file, the second stays
  empty, and both files and all descriptors are gone at the end.
\<close>

theorem dup_main_result:
  assumes "std_start s" and "names s ''testfile1.txt'' = None" and "names s ''anotherfile.txt'' = None"
  shows "\<exists>t. dup_main s = Some (0, ''after int fd2 = my_dup(fd1),fd1:3,fd2:4'' @ [NL] @
      ''after my_dup2(fd1, fd3),fd1: 3,fd3: 5'' @ [NL] @
      [NL] @ ''Displaying content of testfile1.txt:'' @ [NL] @
      ''init line'' @ [NL] @ ''second line'' @ [NL] @ ''third line'' @ [NL] @
      [NL] @ ''Displaying content of anotherfile.txt:'' @ [NL] @
      [NL] @ ''Deleted testfile1.txt'' @ [NL] @ ''Deleted anotherfile.txt'' @ [NL], t) \<and>
    names t = names s \<and> fds t = fds s"
  using assms by (rule dup_run)

theorem dup_main_result_witness: "\<exists>out t. dup_main fs0 = Some (0, out, t) \<and> names t = names fs0"
  using dup_main_result[OF fs0_start] by (auto simp: fs0_def)

text \<open>
  the end of the second buffer of \<^verbatim>\<open>ch05/7_rwc.c\<close> is one byte too early.  All fourteen bytes are
  written and read back, but the program prints the second buffer without its last byte, the newline.
\<close>

theorem rwc_drops_last_byte:
  assumes "std_start s"
  shows "\<exists>t. rwc_main s = Some (0, ''Bytes written: 14'' @ [NL] @ ''Bytes read: 14'' @ [NL] @
      ''Buffer 1: '' @ [CHR 0x27] @ ''Hello, '' @ [CHR 0x27, NL] @
      ''Buffer 2: '' @ [CHR 0x27] @ ''world!'' @ [CHR 0x27, NL], t) \<and>
    fds t = fds s \<and> names t = (names s)(''test_file.txt'' := None)"
  using std_startD[OF assms]
  by (simp add: rwc_main_def my_writev_def my_readv_def fs_eval ret_val_def show_counts)
    (simp add: show_nat.simps digit_char_def)

theorem rwc_drops_last_byte_witness: "\<exists>out t. rwc_main fs0 = Some (0, out, t)"
  using rwc_drops_last_byte[OF fs0_start] by blast

text \<open>
  the run of \<^verbatim>\<open>ch05/2_append.c\<close>: the seek to the start does not matter in append mode, the second
  text follows the first, and the file is removed.
\<close>

theorem append_main_result:
  assumes "std_start s"
  shows "\<exists>t. append_main s = (0, ''content of init file:'' @ [NL] @ INITIAL_TEXT @
      ''content of file after operating:'' @ [NL] @ INITIAL_TEXT @ APPEND_TEXT @
      ''File testfile.txt removed successfully.'' @ [NL], t) \<and> fds t = fds s \<and>
    names t = (names s)(''testfile.txt'' := None)"
  using std_startD[OF assms]
  by (simp add: append_main_def display_append_file_def fopen_flags_simps fs_eval stream_rest_def INITIAL_TEXT_def
      APPEND_TEXT_def fgets_all_text)

theorem append_main_result_witness: "fst (append_main fs0) = 0"
  using append_main_result[OF fs0_start] by auto

text \<open>
  \<^verbatim>\<open>ch04/create_holes.c\<close> leaves a file of 4174 bytes: the text, 4096 null bytes and the text again.
\<close>

theorem create_holes_result:
  assumes "std_start s"
  shows "\<exists>t i. create_holes_main s = (0, ''File '' @ [CHR 0x27] @ ''file_with_holes.bin'' @ [CHR 0x27] @
        '' created with holes.'' @ [NL], t) \<and> fds t = fds s \<and>
    names t ''file_with_holes.bin'' = Some i \<and> content t i = holes_data @ replicate 4096 NUL @ holes_data \<and>
    length (content t i) = 4174"
proof -
  have "\<exists>t i. create_holes_main s = (0, ''File '' @ [CHR 0x27] @ ''file_with_holes.bin'' @ [CHR 0x27] @
        '' created with holes.'' @ [NL], t) \<and> fds t = fds s \<and>
    names t ''file_with_holes.bin'' = Some i \<and> content t i = holes_data @ replicate 4096 NUL @ holes_data"
    using std_startD[OF assms]
    by (simp add: create_holes_main_def create_file_with_holes_def fopen_flags_simps fclose_def fflush_def fs_eval
        HOLE_SIZE_def holes_data_def)
  moreover have "length (holes_data @ replicate 4096 NUL @ holes_data) = 4174"
    by (simp add: holes_data_def)
  ultimately show ?thesis by metis
qed

theorem create_holes_result_witness: "fst (create_holes_main fs0) = 0"
  using create_holes_result[OF fs0_start] by auto

end
