(* ===== verification/Interleave.thy ===== *)
theory Interleave
  imports Main
begin

text \<open>
  Processes that share a state and take atomic steps in any order.  A process is given by its next
  step: from its local state and the shared state to new ones, or no step when it has ended or is
  blocked.  The locale gives the induction over all interleavings that the protocols use.
\<close>

inductive interleave :: "('p \<Rightarrow> 's \<Rightarrow> ('p \<times> 's) option) \<Rightarrow> 's \<times> 'p list \<Rightarrow> 's \<times> 'p list \<Rightarrow> bool" for nxt where
  interleaveI: "i < length ps \<Longrightarrow> nxt (ps ! i) s = Some (p, t) \<Longrightarrow> interleave nxt (s, ps) (t, ps[i := p])"

inductive_cases interleaveE: "interleave nxt st st'"

inductive_simps interleave_simps: "interleave nxt (s, ps) st'"

locale interleaved =
  fixes nxt :: "'p \<Rightarrow> 's \<Rightarrow> ('p \<times> 's) option"
    and inv :: "'s \<Rightarrow> 'p list \<Rightarrow> bool"
  assumes inv_step: "inv s ps \<Longrightarrow> i < length ps \<Longrightarrow> nxt (ps ! i) s = Some (p, t) \<Longrightarrow> inv t (ps[i := p])"
begin

lemma inv_reachable: "(interleave nxt)\<^sup>*\<^sup>* (s, ps) (t, qs) \<Longrightarrow> inv s ps \<Longrightarrow> inv t qs"
proof (induction "(t, qs)" arbitrary: t qs rule: rtranclp_induct)
  case (step st)
  obtain u rs where st: "st = (u, rs)" by (cases st)
  with step have "inv u rs" by simp
  with step.hyps(2) st show ?case by (auto elim!: interleaveE intro: inv_step)
qed

end

text \<open>A schedule names the process that takes the next step.\<close>

fun run_schedule :: "('p \<Rightarrow> 's \<Rightarrow> ('p \<times> 's) option) \<Rightarrow> nat list \<Rightarrow> 's \<times> 'p list \<Rightarrow> ('s \<times> 'p list) option" where
  "run_schedule nxt [] st = Some st"
| "run_schedule nxt (i # is) (s, ps) =
     (if i < length ps then
        (case nxt (ps ! i) s of None \<Rightarrow> None | Some (p, t) \<Rightarrow> run_schedule nxt is (t, ps[i := p]))
      else None)"

lemma run_schedule_reachable: "run_schedule nxt is st = Some st' \<Longrightarrow> (interleave nxt)\<^sup>*\<^sup>* st st'"
proof (induction nxt "is" st rule: run_schedule.induct)
  case (2 nxt i "is" s ps)
  then obtain p t where i: "i < length ps" and n: "nxt (ps ! i) s = Some (p, t)"
      and r: "run_schedule nxt is (t, ps[i := p]) = Some st'"
    by (auto split: if_splits option.splits)
  have "(interleave nxt)\<^sup>*\<^sup>* (t, ps[i := p]) st'" using 2(1)[OF i n refl r] .
  moreover have "interleave nxt (s, ps) (t, ps[i := p])" using i n by (rule interleaveI)
  ultimately show ?case by (rule converse_rtranclp_into_rtranclp[rotated])
qed simp

text \<open>A run that a schedule finds, with what holds at its end.\<close>

lemma scheduled_run:
  "(case run_schedule nxt sched st of None \<Rightarrow> False | Some (s, ps) \<Rightarrow> P s ps) \<Longrightarrow> \<exists>s ps. (interleave nxt)\<^sup>*\<^sup>* st (s, ps) \<and> P s ps"
  using run_schedule_reachable[of nxt sched st] by (cases "run_schedule nxt sched st") auto

section \<open>Executions that always end\<close>

text \<open>No process can take a step.\<close>

definition stuck :: "('p \<Rightarrow> 's \<Rightarrow> ('p \<times> 's) option) \<Rightarrow> 's \<times> 'p list \<Rightarrow> bool" where
  "stuck nxt st \<longleftrightarrow> (case st of (s, ps) \<Rightarrow> list_all (\<lambda>p. nxt p s = None) ps)"

text \<open>
  Total correctness under every scheduler: the executions have bounded length, and where no process
  can go on, the result holds; in particular there is no deadlock in a state without it.
\<close>

definition always_ends ::
  "('p \<Rightarrow> 's \<Rightarrow> ('p \<times> 's) option) \<Rightarrow> 's \<times> 'p list \<Rightarrow> ('s \<times> 'p list \<Rightarrow> bool) \<Rightarrow> bool" where
  "always_ends nxt st Q \<longleftrightarrow>
     (\<exists>b. \<forall>k st'. (interleave nxt ^^ k) st st' \<longrightarrow> k \<le> b) \<and>
     (\<forall>st'. (interleave nxt)\<^sup>*\<^sup>* st st' \<longrightarrow> stuck nxt st' \<longrightarrow> Q st')"

locale ending_protocol = interleaved nxt inv
  for nxt :: "'p \<Rightarrow> 's \<Rightarrow> ('p \<times> 's) option" and inv :: "'s \<Rightarrow> 'p list \<Rightarrow> bool" +
  fixes rank :: "'s \<Rightarrow> 'p list \<Rightarrow> nat"
  assumes rank_step: "inv s ps \<Longrightarrow> i < length ps \<Longrightarrow> nxt (ps ! i) s = Some (p, t) \<Longrightarrow> rank t (ps[i := p]) < rank s ps"
begin

lemma run_bounded: "(interleave nxt ^^ k) (s, ps) (t, qs) \<Longrightarrow> inv s ps \<Longrightarrow> k + rank t qs \<le> rank s ps"
proof (induction k arbitrary: t qs)
  case (Suc k)
  obtain u rs where u: "(interleave nxt ^^ k) (s, ps) (u, rs)" "interleave nxt (u, rs) (t, qs)"
    using Suc.prems(1) by (auto elim!: relpowp_Suc_E)
  then have "inv u rs" using Suc.prems(2) inv_reachable relpowp_imp_rtranclp by metis
  with u(2) have "rank t qs < rank u rs" by (auto elim!: interleaveE intro: rank_step)
  with Suc.IH[OF u(1) Suc.prems(2)] show ?case by simp
qed simp

lemma always_endsI:
  assumes i: "inv s ps" and f: "\<And>t qs. inv t qs \<Longrightarrow> stuck nxt (t, qs) \<Longrightarrow> Q (t, qs)"
  shows "always_ends nxt (s, ps) Q"
proof -
  have "k \<le> rank s ps" if "(interleave nxt ^^ k) (s, ps) st" for k st
    using that run_bounded[OF _ i, of k] by (cases st) (auto dest: add_leD1)
  moreover have "Q st" if "(interleave nxt)\<^sup>*\<^sup>* (s, ps) st" "stuck nxt st" for st
    using that inv_reachable[OF _ i] f by (cases st) auto
  ultimately show ?thesis by (auto simp: always_ends_def)
qed

end

lemma stuck_nth: "stuck nxt (s, ps) \<longleftrightarrow> (\<forall>i<length ps. nxt (ps ! i) s = None)"
  by (simp add: stuck_def list_all_length)

lemma sum_list_upd:
  fixes f :: "'a \<Rightarrow> int"
  shows "j < length xs \<Longrightarrow> sum_list (map f (xs[j := y])) = sum_list (map f xs) + f y - f (xs ! j)"
  by (induction xs arbitrary: j) (auto simp: nth_Cons split: nat.splits)

lemma sum_list_upd_nat:
  fixes f :: "'a \<Rightarrow> nat"
  shows "j < length xs \<Longrightarrow> sum_list (map f (xs[j := y])) + f (xs ! j) = sum_list (map f xs) + f y"
  by (induction xs arbitrary: j) (auto simp: nth_Cons split: nat.splits)

lemma list_all_upd: "list_all P xs \<Longrightarrow> P y \<Longrightarrow> list_all P (xs[i := y])"
  by (auto simp: list_all_iff dest!: set_update_subset_insert[THEN subsetD])

text \<open>How many processes satisfy a test.\<close>

definition tally :: "('a \<Rightarrow> bool) \<Rightarrow> 'a list \<Rightarrow> nat" where
  "tally P xs = sum_list (map (\<lambda>x. if P x then 1 else 0) xs)"

lemma tally_upd: "i < length xs \<Longrightarrow> tally P (xs[i := y]) + (if P (xs ! i) then 1 else 0) = tally P xs + (if P y then 1 else 0)"
  unfolding tally_def by (rule sum_list_upd_nat)

lemma tally_zero: "tally P xs = 0 \<longleftrightarrow> list_all (\<lambda>x. \<not> P x) xs"
  by (induction xs) (auto simp: tally_def)

lemma tally_pos: "i < length xs \<Longrightarrow> P (xs ! i) \<Longrightarrow> 0 < tally P xs"
  using tally_zero[of P xs] by (auto simp: list_all_length)

lemma tally_Cons: "tally P (x # xs) = (if P x then 1 else 0) + tally P xs"
  by (simp add: tally_def)

lemma tally_one:
  assumes "tally P xs = 1" "i < length xs" "P (xs ! i)" "j < length xs" "P (xs ! j)"
  shows "j = i"
  using assms
proof (induction xs arbitrary: i j)
  case (Cons x xs)
  show ?case
  proof (cases "P x")
    case True
    then have "list_all (\<lambda>x. \<not> P x) xs" using Cons.prems(1) by (simp add: tally_Cons tally_zero)
    then show ?thesis using Cons.prems by (cases i; cases j) (auto simp: list_all_length)
  next
    case False
    then have "tally P xs = 1" using Cons.prems(1) by (simp add: tally_Cons)
    then show ?thesis using Cons False by (cases i; cases j) auto
  qed
qed simp

end
