(* ===== verification/File_Races.thy ===== *)
theory File_Races
  imports File_Programs_Correct Interleave
begin

text \<open>
  Several processes on one file: \<^verbatim>\<open>ch05/3_atomic_append.c\<close>, \<^verbatim>\<open>tlpi-dist/fileio/atomic_append.c\<close> and
  \<^verbatim>\<open>tlpi-dist/fileio/bad_exclusive_open.c\<close>.  Every system call is one atomic step, and
  the processes interleave in any order.  The descriptor table of the state is the union of the
  processes' tables, with different descriptors for different processes.
\<close>

section \<open>Appending one byte at a time\<close>

text \<open>
  The body of the loop, between the calls: the descriptor, the bytes still to write, whether the seek
  to the end has been done, and whether the process has ended with an error.
\<close>

record aproc =
  a_fd :: int
  a_left :: nat
  a_sought :: bool
  a_failed :: bool

definition aa_next :: "bool \<Rightarrow> char \<Rightarrow> aproc \<Rightarrow> fs \<Rightarrow> (aproc \<times> fs) option" where
  "aa_next useLseek c p s =
     (if a_left p = 0 \<or> a_failed p then None
      else if useLseek \<and> \<not> a_sought p then
        (case sys_lseek s (a_fd p) 0 SEEK_END of
           (Inl e, s1) \<Rightarrow> Some (p\<lparr>a_failed := True\<rparr>, s1)
         | (Inr off, s1) \<Rightarrow> Some (p\<lparr>a_sought := True\<rparr>, s1))
      else
        (case sys_write s (a_fd p) [c] of
           (Inl e, s1) \<Rightarrow> Some (p\<lparr>a_failed := True\<rparr>, s1)
         | (Inr n, s1) \<Rightarrow>
             if n = 1 then Some (p\<lparr>a_left := a_left p - 1, a_sought := False\<rparr>, s1)
             else Some (p\<lparr>a_failed := True\<rparr>, s1)))"

text \<open>One process on its own: the loop as the program runs it.\<close>

fun append_loop :: "bool \<Rightarrow> char \<Rightarrow> nat \<Rightarrow> int \<Rightarrow> fs \<Rightarrow> nat \<times> fs" where
  "append_loop useLseek c 0 fd s = (0, s)"
| "append_loop useLseek c (Suc n) fd s =
     (case (if useLseek then sys_lseek s fd 0 SEEK_END else (Inr 0, s)) of
        (Inl e, s1) \<Rightarrow> (1, s1)
      | (Inr off, s1) \<Rightarrow>
          (case sys_write s1 fd [c] of
             (Inl e, s2) \<Rightarrow> (1, s2)
           | (Inr k, s2) \<Rightarrow> if k = 1 then append_loop useLseek c n fd s2 else (1, s2)))"

definition atomic_append_main :: "string list \<Rightarrow> fs \<Rightarrow> nat \<times> fs" where
  "atomic_append_main args s =
     (case args of
        path # num # rest \<Rightarrow>
          if path = ''--help'' then (1, s)
          else
            (let useLseek = (rest \<noteq> []) in
             case getInt (Some num) 0 (Some ''num-bytes'') of
               Inl e \<Rightarrow> (1, s)
             | Inr numBytes \<Rightarrow>
                 (case sys_open s path ((oflag O_RDWR)\<lparr>f_creat := True, f_append := \<not> useLseek\<rparr>) of
                    (Inl e, s1) \<Rightarrow> (1, s1)
                  | (Inr fd, s1) \<Rightarrow> append_loop useLseek CHR ''x'' (nat numBytes) fd s1))
      | _ \<Rightarrow> (1, s))"

definition ch05_append_main :: "string list \<Rightarrow> fs \<Rightarrow> nat \<times> fs" where
  "ch05_append_main args s =
     (if length args < 2 \<or> length args > 3 then (1, s)
      else
        let num_bytes = fst (strtol (args ! 1) 10);
            append = (length args = 2)
        in if num_bytes \<le> 0 then (1, s)
           else
             (case sys_open s (args ! 0) ((oflag O_WRONLY)\<lparr>f_creat := True, f_append := append\<rparr>) of
                (Inl e, s1) \<Rightarrow> (1, s1)
              | (Inr fd, s1) \<Rightarrow> append_loop (\<not> append) CHR ''A'' (nat num_bytes) fd s1))"

section \<open>Checking and creating\<close>

datatype epc = Start | Missing | Created | Existed | Open_failed

definition excl_next :: "string \<Rightarrow> epc \<Rightarrow> fs \<Rightarrow> (epc \<times> fs) option" where
  "excl_next fname pc s =
     (case pc of
        Start \<Rightarrow>
          (case sys_open s fname (oflag O_WRONLY) of
             (Inr fd, s1) \<Rightarrow> Some (Existed, snd (sys_close s1 fd))
           | (Inl e, s1) \<Rightarrow> Some (if e \<noteq> ENOENT then Open_failed else Missing, s1))
      | Missing \<Rightarrow>
          (case sys_open s fname ((oflag O_WRONLY)\<lparr>f_creat := True\<rparr>) of
             (Inl e, s1) \<Rightarrow> Some (Open_failed, s1)
           | (Inr fd, s1) \<Rightarrow> Some (Created, s1))
      | _ \<Rightarrow> None)"

text \<open>One process alone, from its start to its end.\<close>

definition exclusive_open_main :: "string \<Rightarrow> fs \<Rightarrow> epc \<times> fs" where
  "exclusive_open_main fname s =
     (case excl_next fname Start s of
        None \<Rightarrow> (Start, s)
      | Some (p, s1) \<Rightarrow> (case excl_next fname p s1 of None \<Rightarrow> (p, s1) | Some q \<Rightarrow> q))"

section \<open>Appending loses nothing\<close>

definition appends_to :: "nat \<Rightarrow> fs \<Rightarrow> aproc \<Rightarrow> bool" where
  "appends_to ino s p \<longleftrightarrow> \<not> a_failed p \<and>
     (case get_ofd s (a_fd p) of None \<Rightarrow> False | Some d \<Rightarrow> o_ino d = ino \<and> writable d \<and> o_append d)"

definition aa_inv :: "nat \<Rightarrow> string \<Rightarrow> char \<Rightarrow> nat \<Rightarrow> fs \<Rightarrow> aproc list \<Rightarrow> bool" where
  "aa_inv ino c0 c tot s ps \<longleftrightarrow>
     (\<exists>k. content s ino = c0 @ replicate k c \<and> k + sum_list (map a_left ps) = tot) \<and>
     length c0 + tot \<le> size_max s \<and> (\<forall>p \<in> set ps. appends_to ino s p)"

lemma get_ofd_set_off_any:
  "get_ofd (set_off s fd n) g = map_option (\<lambda>d. if fds s g = fds s fd then d\<lparr>o_off := n\<rparr> else d) (get_ofd s g)"
  by (cases "fds s fd"; cases "fds s g") (auto simp: get_ofd_def set_off_def)

lemma appends_to_after_write:
  "appends_to ino s q \<Longrightarrow> appends_to ino (after_write s fd d bs) q"
  by (auto simp: appends_to_def after_write_def get_ofd_set_off_any writable_def split: option.splits)

lemma sum_left_update:
  "i < length ps \<Longrightarrow> a_left (ps ! i) = Suc n \<Longrightarrow> a_left p = n \<Longrightarrow>
   Suc (sum_list (map a_left (ps[i := p]))) = sum_list (map a_left ps)"
proof (induction ps arbitrary: i)
  case (Cons q ps)
  then show ?case by (cases i) auto
qed simp

lemma aa_next_append:
  assumes iv: "aa_inv ino c0 c tot s ps" and i: "i < length ps" and nx: "aa_next False c (ps ! i) s = Some (p, t)"
  shows "aa_inv ino c0 c tot t (ps[i := p])"
proof -
  let ?q = "ps ! i"
  have q: "appends_to ino s ?q" using iv i by (simp add: aa_inv_def)
  obtain n where n: "a_left ?q = Suc n" using nx by (cases "a_left ?q") (simp_all add: aa_next_def)
  obtain d where d: "get_ofd s (a_fd ?q) = Some d" "o_ino d = ino" "writable d" "o_append d" "\<not> a_failed ?q"
    using q by (auto simp: appends_to_def split: option.splits)
  obtain k where k: "content s ino = c0 @ replicate k c" "k + sum_list (map a_left ps) = tot"
    using iv by (auto simp: aa_inv_def)
  have "Suc n \<le> sum_list (map a_left ps)" using i n member_le_sum_list[of "Suc n" "map a_left ps"] by (force simp: in_set_conv_nth)
  then have room: "write_pos s d + length [c] \<le> size_max s" using iv k d by (simp add: aa_inv_def write_pos_def)
  have t: "t = after_write s (a_fd ?q) d [c]" "p = ?q\<lparr>a_left := n, a_sought := False\<rparr>"
    using nx n d(5) sys_write_ok[OF d(1,3) room] by (simp_all add: aa_next_def)
  have "content t ino = c0 @ replicate (Suc k) c"
    using t(1) d k(1) put_at_end[of "c0 @ replicate k c" "[c]"]
    by (simp add: content_after_write write_pos_def replicate_append_same)
  moreover have "Suc k + sum_list (map a_left (ps[i := p])) = tot"
    using sum_left_update[OF i n, of p] t(2) k(2) by simp
  moreover have "appends_to ino t r" if "r \<in> set (ps[i := p])" for r
  proof -
    have "r \<in> set ps \<or> r = p" using that set_update_subset_insert[of ps i p] by auto
    moreover have "appends_to ino t p" using appends_to_after_write[OF q] t by (simp add: appends_to_def)
    ultimately show ?thesis using iv appends_to_after_write t(1) by (auto simp: aa_inv_def)
  qed
  ultimately show ?thesis using iv t(1) unfolding aa_inv_def by auto
qed

interpretation append_race: interleaved "aa_next False c" "aa_inv ino c0 c tot" for c ino c0 tot
  by unfold_locales (rule aa_next_append)

lemma stuck_done:
  assumes "\<forall>p \<in> set ps. appends_to ino s p" and "\<And>st. \<not> interleave (aa_next False c) (s, ps) st"
  shows "sum_list (map a_left ps) = 0"
proof (rule ccontr)
  assume "sum_list (map a_left ps) \<noteq> 0"
  then obtain p where p: "p \<in> set ps" "a_left p \<noteq> 0" by (auto simp: sum_list_eq_0_iff)
  obtain i where i: "i < length ps" "ps ! i = p" using p(1) by (auto simp: in_set_conv_nth)
  have "\<not> a_failed p" using assms(1) p(1) by (simp add: appends_to_def)
  then have "aa_next False c p s \<noteq> None" using p(2) by (auto simp: aa_next_def split: prod.splits sum.splits)
  then obtain q t where "aa_next False c (ps ! i) s = Some (q, t)" using i(2) by auto
  then have "interleave (aa_next False c) (s, ps) (t, ps[i := q])" using i(1) by (intro interleaveI)
  with assms(2) show False by blast
qed

text \<open>One process in either mode.\<close>

lemma append_loop_run:
  assumes "get_ofd s fd = Some d" "writable d" "u \<noteq> o_append d" "length (content s (o_ino d)) + n \<le> size_max s"
  shows "\<exists>t. append_loop u c n fd s = (0, t) \<and> names t = names s \<and> fds t = fds s \<and>
    content t = (content s)(o_ino d := content s (o_ino d) @ replicate n c)"
  using assms
proof (induction n arbitrary: s d)
  case 0
  then show ?case by simp
next
  case (Suc n)
  let ?L = "length (content s (o_ino d))"
  define s1 where "s1 = (if u then set_off s fd ?L else s)"
  define d1 where "d1 = (if u then d\<lparr>o_off := ?L\<rparr> else d)"
  have sk: "(if u then sys_lseek s fd 0 SEEK_END else (Inr 0, s)) = (Inr (if u then ?L else 0), s1)"
    using Suc.prems(1) by (simp add: sys_lseek_def s1_def)
  have g1: "get_ofd s1 fd = Some d1" "writable d1" "o_ino d1 = o_ino d" "o_append d1 = o_append d"
      "content s1 = content s" "names s1 = names s" "fds s1 = fds s" "size_max s1 = size_max s"
    using Suc.prems(1,2) by (simp_all add: s1_def d1_def get_ofd_set_off writable_def)
  have wp: "write_pos s1 d1 = ?L" using Suc.prems(3) g1 by (simp add: write_pos_def d1_def split: if_splits)
  define s2 where "s2 = after_write s1 fd d1 [c]"
  have w: "sys_write s1 fd [c] = (Inr 1, s2)"
    using sys_write_ok[OF g1(1,2), of "[c]"] wp Suc.prems(4) g1(8) by (simp add: s2_def)
  have c2: "content s2 = (content s)(o_ino d := content s (o_ino d) @ [c])"
    using wp g1(3,5) by (simp add: s2_def content_after_write put_at_end)
  define d2 where "d2 = d1\<lparr>o_off := ?L + 1\<rparr>"
  have g2: "get_ofd s2 fd = Some d2" "writable d2" "u \<noteq> o_append d2" "o_ino d2 = o_ino d"
    using get_ofd_after_write[OF g1(1), of "[c]"] wp Suc.prems(3) g1 by (simp_all add: s2_def d2_def writable_def)
  have "length (content s2 (o_ino d2)) + n \<le> size_max s2" using Suc.prems(4) c2 g2(4) g1(8) by (simp add: s2_def)
  from Suc.IH[OF g2(1-3) this] obtain t where t: "append_loop u c n fd s2 = (0, t)" "names t = names s2" "fds t = fds s2"
      "content t = (content s2)(o_ino d := content s2 (o_ino d) @ replicate n c)"
    unfolding g2(4) by blast
  have "append_loop u c (Suc n) fd s = (0, t)" using sk w t(1) by simp
  moreover have "names t = names s" "fds t = fds s" using t(2,3) g1(6,7) by (simp_all add: s2_def)
  moreover have "content t = (content s)(o_ino d := content s (o_ino d) @ replicate (Suc n) c)"
    using t(4) c2 by simp
  ultimately show ?case by blast
qed

section \<open>Properties\<close>

text \<open>
  C7: in append mode no byte is lost.  Any number of processes, each with a description of the same
  file opened with \<^verbatim>\<open>O_APPEND\<close>, in any interleaving: at every moment the file is the old content and one
  byte for every completed loop round, no process fails, and when nothing can step any more the file
  has all bytes of all processes.
\<close>

theorem append_mode_loses_nothing:
  assumes "(interleave (aa_next False c))\<^sup>*\<^sup>* (s, ps) (t, qs)"
    and "\<forall>p \<in> set ps. appends_to ino s p" and "content s ino = c0"
    and "length c0 + sum_list (map a_left ps) \<le> size_max s"
  shows "(\<forall>q \<in> set qs. \<not> a_failed q) \<and>
    (\<exists>k. content t ino = c0 @ replicate k c \<and> k + sum_list (map a_left qs) = sum_list (map a_left ps)) \<and>
    ((\<forall>st. \<not> interleave (aa_next False c) (t, qs) st) \<longrightarrow>
       content t ino = c0 @ replicate (sum_list (map a_left ps)) c)"
proof -
  have "aa_inv ino c0 c (sum_list (map a_left ps)) s ps" using assms(2-4) by (auto simp: aa_inv_def)
  with assms(1) have iv: "aa_inv ino c0 c (sum_list (map a_left ps)) t qs" by (rule append_race.inv_reachable)
  obtain k where k: "content t ino = c0 @ replicate k c" "k + sum_list (map a_left qs) = sum_list (map a_left ps)"
    using iv by (auto simp: aa_inv_def)
  have ap: "\<forall>q \<in> set qs. appends_to ino t q" using iv by (simp add: aa_inv_def)
  have "k = sum_list (map a_left ps)" if "\<forall>st. \<not> interleave (aa_next False c) (t, qs) st"
  proof -
    have "sum_list (map a_left qs) = 0" using stuck_done[OF ap, of c] that by blast
    then show ?thesis using k(2) by linarith
  qed
  then show ?thesis using k ap by (auto simp: appends_to_def)
qed

text \<open>Two processes on one empty file, in append mode or not.\<close>

definition race_fs :: "bool \<Rightarrow> fs" where
  "race_fs ap = fs0\<lparr>ofds := (\<lambda>_. \<lparr>o_ino = 0, o_off = 0, o_acc = O_WRONLY, o_append = ap\<rparr>),
     fds := [3 \<mapsto> 3, 4 \<mapsto> 4], next_ofd := 5, content := (\<lambda>_. [])\<rparr>"

definition race_procs :: "aproc list" where
  "race_procs = [\<lparr>a_fd = 3, a_left = 1, a_sought = False, a_failed = False\<rparr>,
     \<lparr>a_fd = 4, a_left = 1, a_sought = False, a_failed = False\<rparr>]"

lemmas race_eval = race_fs_def race_procs_def fs0_def aa_next_def sys_lseek_def sys_write_def get_ofd_def set_off_def
  writable_def put_at_def Let_def

theorem append_mode_loses_nothing_witness:
  "\<exists>t qs. run_schedule (aa_next False CHR ''x'') [1, 0] (race_fs True, race_procs) = Some (t, qs) \<and> content t 0 = ''xx''"
proof -
  obtain t qs where r: "run_schedule (aa_next False CHR ''x'') [1, 0] (race_fs True, race_procs) = Some (t, qs)"
      "map a_left qs = [0, 0]"
    by (simp add: race_eval)
  have "content t 0 = [] @ replicate (sum_list (map a_left race_procs) - 0) CHR ''x''"
    using append_mode_loses_nothing[OF run_schedule_reachable[OF r(1)], of 0 "[]"] r(2)
    by (auto simp: appends_to_def race_eval)
  then show ?thesis using r(1) by (simp add: race_procs_def numeral_2_eq_2)
qed

text \<open>
  seeking to the end before each write loses data.  Two processes that write one byte each can both
  end without an error and leave a file of one byte.
\<close>

theorem seek_mode_can_lose:
  "\<exists>t qs. (interleave (aa_next True CHR ''x''))\<^sup>*\<^sup>* (race_fs False, race_procs) (t, qs) \<and>
     map a_left qs = [0, 0] \<and> map a_failed qs = [False, False] \<and> content t 0 = ''x''"
proof -
  obtain t qs where r: "run_schedule (aa_next True CHR ''x'') [0, 1, 0, 1] (race_fs False, race_procs) = Some (t, qs)"
      "map a_left qs = [0, 0]" "map a_failed qs = [False, False]" "content t 0 = ''x''"
    by (simp add: race_eval)
  then show ?thesis using run_schedule_reachable[OF r(1)] by (intro exI[of _ t] exI[of _ qs]) simp
qed

text \<open>
  a single process appends exactly the requested bytes in either mode, in both programs: with two
  arguments through \<^verbatim>\<open>O_APPEND\<close>, with a third argument, whatever it is, through seeking.
\<close>

theorem append_mains_correct:
  assumes "lowest_fd s 0 = Some fd" and "f \<noteq> ''--help''" and "0 < n" and "int n \<le> INT_MAX"
    and "c0 = (case names s f of None \<Rightarrow> [] | Some i \<Rightarrow> content s i)" and "length c0 + n \<le> size_max s"
    and "rest = [] \<or> rest = [x]"
  shows "\<exists>t u. atomic_append_main (f # show_nat n # rest) s = (0, t) \<and>
    ch05_append_main (f # show_nat n # rest) s = (0, u) \<and>
    content t (target s f) = c0 @ replicate n CHR ''x'' \<and> content u (target s f) = c0 @ replicate n CHR ''A'' \<and>
    (\<forall>i. i \<noteq> target s f \<longrightarrow> content t i = content s i \<and> content u i = content s i)"
proof -
  let ?f = "(oflag O_RDWR)\<lparr>f_creat := True, f_append := (rest = [])\<rparr>"
  let ?g = "(oflag O_WRONLY)\<lparr>f_creat := True, f_append := (rest = [])\<rparr>"
  have opn: "sys_open s f fl = (Inr (int fd), opened s f fl fd)" if "f_creat fl" for fl
    using sys_open_opened[OF assms(1)] that by simp
  have cont: "content (opened s f fl fd) = (content s)(target s f := c0)" if "\<not> f_trunc fl" for fl
    using that assms(5) by (cases "names s f") (simp_all add: opened_def target_def fun_upd_idem)
  have run: "\<exists>t. append_loop (rest \<noteq> []) c n (int fd) (opened s f fl fd) = (0, t) \<and>
      content t = (content s)(target s f := c0 @ replicate n c)"
    if "\<not> f_trunc fl" "f_append fl = (rest = [])" "f_acc fl \<noteq> O_RDONLY" for fl c
  proof -
    have sz: "length (content (opened s f fl fd) (target s f)) + n \<le> size_max (opened s f fl fd)"
      using cont[OF that(1)] assms(6) by (simp add: opened_def)
    show ?thesis
      using append_loop_run[of "opened s f fl fd" "int fd" _ "rest \<noteq> []" n c, OF get_ofd_opened] that sz cont[OF that(1)]
      by (auto simp: writable_def)
  qed
  have i32: "INT_MAX \<le> LONG_MAX" "INT_MIN < 0" "LONG_MIN < 0" by (simp_all add: INT_MAX_def LONG_MAX_def INT_MIN_def LONG_MIN_def)
  have sn: "show_nat n = show_int (int n)" by (simp add: show_int_def)
  have st: "strtol (show_nat n) 10 = (int n, [], False)"
    using strtol_show_int[of "int n" "[]"] assms(4) i32 unfolding sn by simp
  then have gi: "getInt (Some (show_nat n)) 0 nm = Inr (int n)" for nm
    using assms(4) i32 by (simp add: getInt_def getNum_def num_base_def flag_set_def)
  obtain t where t: "append_loop (rest \<noteq> []) CHR ''x'' n (int fd) (opened s f ?f fd) = (0, t)"
      "content t = (content s)(target s f := c0 @ replicate n CHR ''x'')"
    using run[of ?f "CHR ''x''"] by auto
  obtain u where u: "append_loop (rest \<noteq> []) CHR ''A'' n (int fd) (opened s f ?g fd) = (0, u)"
      "content u = (content s)(target s f := c0 @ replicate n CHR ''A'')"
    using run[of ?g "CHR ''A''"] by auto
  have "atomic_append_main (f # show_nat n # rest) s = (0, t)"
    using assms(2) gi t(1) opn[of ?f] by (simp add: atomic_append_main_def)
  moreover have "ch05_append_main (f # show_nat n # rest) s = (0, u)"
    using assms(3,7) st u(1) opn[of ?g] by (auto simp: ch05_append_main_def)
  ultimately show ?thesis using t(2) u(2) by auto
qed

theorem append_mains_correct_witness:
  "\<exists>t. atomic_append_main [''src'', show_nat 2, ''x''] fs0 = (0, t) \<and> content t 0 = ''abcxx''"
proof -
  have "target fs0 ''src'' = 0" "(case names fs0 ''src'' of None \<Rightarrow> [] | Some i \<Rightarrow> content fs0 i) = ''abc''"
    by (simp_all add: fs0_def target_def)
  then show ?thesis
    using append_mains_correct[OF fs0_lowest, of "''src''" 2 "''abc''" "[''x'']" "''x''"]
    by (auto simp: INT_MAX_def fs0_def numeral_2_eq_2)
qed

text \<open>
  \<^verbatim>\<open>bad_exclusive_open\<close>.  Run one after the other on a missing file, the first process reports that
  it created the file and the next that it exists; but two processes that both check first can both
  report an exclusive creation.
\<close>

theorem exclusive_open_race:
  assumes "fs_ok s" and "free_fds s 2" and "names s f = None"
  shows "(\<exists>t u. exclusive_open_main f s = (Created, t) \<and> exclusive_open_main f t = (Existed, u)) \<and>
    (\<exists>v. (interleave (excl_next f))\<^sup>*\<^sup>* (s, [Start, Start]) (v, [Created, Created]))"
proof -
  let ?c = "(oflag O_WRONLY)\<lparr>f_creat := True\<rparr>"
  obtain a where a: "lowest_fd s 0 = Some a" using assms(2) by (auto simp: numeral_2_eq_2 elim: free_fds_lowest)
  let ?t = "opened s f ?c a"
  have "free_fds ?t 1"
    using free_fds_use[of s 1 a ?t "next_ofd s"] assms(2) a by (simp add: opened_def numeral_2_eq_2)
  then obtain b where b: "lowest_fd ?t 0 = Some b" by (auto simp: One_nat_def elim: free_fds_lowest)
  have n: "names ?t f \<noteq> None" by (simp add: opened_def)
  have m: "excl_next f Start s = Some (Missing, s)" using a assms(3) by (simp add: excl_next_def sys_open_def)
  have c: "excl_next f Missing s = Some (Created, ?t)" using a by (simp add: excl_next_def sys_open_opened)
  have e: "\<exists>u. excl_next f Start ?t = Some (Existed, u)" using b n by (simp add: excl_next_def sys_open_opened)
  have c2: "\<exists>v. excl_next f Missing ?t = Some (Created, v)" using b by (simp add: excl_next_def sys_open_opened)
  then obtain v where v: "excl_next f Missing ?t = Some (Created, v)" by blast
  have x: "excl_next f Existed u = None" for u by (simp add: excl_next_def)
  have "run_schedule (excl_next f) [0, 1, 0, 1] (s, [Start, Start]) = Some (v, [Created, Created])"
    using m c v by simp
  then have "(interleave (excl_next f))\<^sup>*\<^sup>* (s, [Start, Start]) (v, [Created, Created])"
    by (rule run_schedule_reachable)
  moreover have "\<exists>t u. exclusive_open_main f s = (Created, t) \<and> exclusive_open_main f t = (Existed, u)"
    using m c e x by (auto simp: exclusive_open_main_def)
  ultimately show ?thesis by blast
qed

theorem exclusive_open_race_witness:
  "\<exists>v. (interleave (excl_next ''lock''))\<^sup>*\<^sup>* (fs0, [Start, Start]) (v, [Created, Created])"
  using exclusive_open_race[OF fs0_ok fs0_free, of "''lock''"] by (simp add: fs0_def)

end
