(* ===== verification/Inotify_Dtree.thy ===== *)
theory Inotify_Dtree
  imports Num_Args
begin

text \<open>
  The directory-tree monitor \<^verbatim>\<open>tlpi-dist/inotify/inotify_dtree.c\<close>: the cache of watched directories, the
  list of root directories, the traversal that adds watches, and the handling of inotify events and
  of keyboard commands.  The kernel's side is part of the state: which directories exist, which of
  them the inotify instance watches, and the watch descriptors given out.  The order in which \<^verbatim>\<open>nftw\<close>
  visits a tree is given with the state of the file system.  Log messages are left out, except for the
  text of an event and of the cache; they do not influence the program.
\<close>

section \<open>State\<close>

definition PATH_MAX :: nat where
  "PATH_MAX = 4096"

definition NAME_MAX :: nat where
  "NAME_MAX = 255"

record watch =
  wd :: int
  path :: string

text \<open>
  What the system calls see: the walk of \<^verbatim>\<open>nftw\<close> from a path (no value: it fails; each visited path with
  whether it is a directory), the directory at a path (its device and inode), and whether a path can be
  examined with \<^verbatim>\<open>lstat\<close> and is a directory.
\<close>

record world =
  nftw :: "string \<Rightarrow> (string \<times> bool) list option"
  dir_at :: "string \<Rightarrow> (nat \<times> nat) option"
  lstat :: "string \<Rightarrow> bool option"
  max_watches :: nat

record dt =
  wlCache :: "watch list"
  rootDirPaths :: "string option list"
  ignoreRootDirs :: nat
  watches :: "((nat \<times> nat) \<times> int) list"
  next_wd :: int
  dirCnt :: nat
  reinitCnt :: nat
  inotifyReadCnt :: nat
  overflowCnt :: nat
  checkCache :: bool
  dumpCache :: bool
  verboseMask :: int
  logfile :: "string option"
  abortOnCacheProblem :: bool
  readBufferSize :: int

text \<open>A call returns, the process exits with a status or aborts, or an indeterminate value is used.\<close>

datatype 'a res = Ok 'a | Exited nat | Abort | Undefined

fun bind_res :: "'a res \<Rightarrow> ('a \<Rightarrow> 'b res) \<Rightarrow> 'b res" where
  "bind_res (Ok a) f = f a"
| "bind_res (Exited n) f = Exited n"
| "bind_res Abort f = Abort"
| "bind_res Undefined f = Undefined"

section \<open>Messages\<close>

definition VB_BASIC :: int where
  "VB_BASIC = 1"

definition VB_NOISY :: int where
  "VB_NOISY = 2"

text \<open>Where a message goes: to the error stream, and to the log file when there is one.\<close>

definition logMessage :: "int \<Rightarrow> string \<Rightarrow> int \<Rightarrow> string \<Rightarrow> string option \<Rightarrow> string \<times> string option" where
  "logMessage vb_mask msg vmask err log =
     (if vb_mask = 0 \<or> and vb_mask vmask \<noteq> 0 then err @ msg else err, map_option (\<lambda>l. l @ msg) log)"

section \<open>Events\<close>

definition IN_MOVED_FROM :: "32 word" where "IN_MOVED_FROM = 0x40"
definition IN_MOVED_TO :: "32 word" where "IN_MOVED_TO = 0x80"
definition IN_CREATE :: "32 word" where "IN_CREATE = 0x100"
definition IN_DELETE_SELF :: "32 word" where "IN_DELETE_SELF = 0x400"
definition IN_MOVE_SELF :: "32 word" where "IN_MOVE_SELF = 0x800"
definition IN_UNMOUNT :: "32 word" where "IN_UNMOUNT = 0x2000"
definition IN_Q_OVERFLOW :: "32 word" where "IN_Q_OVERFLOW = 0x4000"
definition IN_IGNORED :: "32 word" where "IN_IGNORED = 0x8000"
definition IN_ISDIR :: "32 word" where "IN_ISDIR = 0x40000000"

record inotify_event =
  ev_wd :: int
  ev_mask :: "32 word"
  ev_cookie :: int
  ev_name :: string

definition has :: "inotify_event \<Rightarrow> 32 word \<Rightarrow> bool" where
  "has ev b \<longleftrightarrow> and (ev_mask ev) b \<noteq> 0"

definition show_width4 :: "int \<Rightarrow> string" where
  "show_width4 n = (let t = show_int n in replicate (4 - length t) CHR '' '' @ t)"

definition displayInotifyEvent :: "inotify_event \<Rightarrow> string" where
  "displayInotifyEvent ev =
     ''==> wd = '' @ show_int (ev_wd ev) @ ''; '' @
     (if ev_cookie ev > 0 then ''cookie = '' @ show_width4 (ev_cookie ev) @ ''; '' else []) @
     ''mask = '' @
     (if has ev IN_ISDIR then ''IN_ISDIR '' else []) @
     (if has ev IN_CREATE then ''IN_CREATE '' else []) @
     (if has ev IN_DELETE_SELF then ''IN_DELETE_SELF '' else []) @
     (if has ev IN_MOVE_SELF then ''IN_MOVE_SELF '' else []) @
     (if has ev IN_MOVED_FROM then ''IN_MOVED_FROM '' else []) @
     (if has ev IN_MOVED_TO then ''IN_MOVED_TO '' else []) @
     (if has ev IN_IGNORED then ''IN_IGNORED '' else []) @
     (if has ev IN_Q_OVERFLOW then ''IN_Q_OVERFLOW '' else []) @
     (if has ev IN_UNMOUNT then ''IN_UNMOUNT '' else []) @ [CHR 0x0A] @
     (if ev_name ev \<noteq> [] then ''        name = '' @ ev_name ev @ [CHR 0x0A] else [])"

section \<open>The cache\<close>

definition empty_watch :: watch where
  "empty_watch = \<lparr>wd = -1, path = []\<rparr>"

definition freeCache :: "dt \<Rightarrow> dt" where
  "freeCache s = s\<lparr>wlCache := []\<rparr>"

text \<open>The slots from \<open>j\<close> on that satisfy a test, the first of them.\<close>

definition find_slot :: "(watch \<Rightarrow> bool) \<Rightarrow> watch list \<Rightarrow> nat option" where
  "find_slot P ws = find (\<lambda>j. P (ws ! j)) [0..<length ws]"

definition findWatch :: "dt \<Rightarrow> int \<Rightarrow> nat option" where
  "findWatch s w = find_slot (\<lambda>e. wd e = w) (wlCache s)"

definition cache_text :: "watch list \<Rightarrow> string" where
  "cache_text ws =
     concat (map (\<lambda>j. if wd (ws ! j) \<ge> 0
                      then show_nat j @ '': wd = '' @ show_int (wd (ws ! j)) @ ''; '' @ path (ws ! j) @ [CHR 0x0A]
                      else []) [0..<length ws])
     @ ''Total entries: '' @ show_nat (length (filter (\<lambda>e. wd e \<ge> 0) ws)) @ [CHR 0x0A]"

text \<open>The log file has to be open.\<close>

definition dumpCacheToLog :: "dt \<Rightarrow> dt res" where
  "dumpCacheToLog s =
     (case logfile s of
        None \<Rightarrow> Undefined
      | Some t \<Rightarrow> Ok (s\<lparr>logfile := Some (t @ cache_text (wlCache s))\<rparr>))"

definition createStopFileAndAbort :: "dt \<Rightarrow> 'a res" where
  "createStopFileAndAbort s = bind_res (dumpCacheToLog s) (\<lambda>_. Abort)"

definition findWatchChecked :: "dt \<Rightarrow> int \<Rightarrow> (nat option) res" where
  "findWatchChecked s w =
     (case findWatch s w of
        Some slot \<Rightarrow> Ok (Some slot)
      | None \<Rightarrow> if abortOnCacheProblem s then createStopFileAndAbort s else Ok None)"

definition markCacheSlotEmpty :: "nat \<Rightarrow> dt \<Rightarrow> dt" where
  "markCacheSlotEmpty slot s = s\<lparr>wlCache := (wlCache s)[slot := empty_watch]\<rparr>"

definition ALLOC_INCR :: nat where
  "ALLOC_INCR = 200"

definition findEmptyCacheSlot :: "dt \<Rightarrow> nat \<times> dt" where
  "findEmptyCacheSlot s =
     (case find_slot (\<lambda>e. wd e = -1) (wlCache s) of
        Some j \<Rightarrow> (j, s)
      | None \<Rightarrow> (length (wlCache s), s\<lparr>wlCache := wlCache s @ replicate ALLOC_INCR empty_watch\<rparr>))"

definition addWatchToCache :: "int \<Rightarrow> string \<Rightarrow> dt \<Rightarrow> nat \<times> dt" where
  "addWatchToCache w pathname s =
     (let (slot, s1) = findEmptyCacheSlot s
      in (slot, s1\<lparr>wlCache := (wlCache s1)[slot := \<lparr>wd = w, path = take PATH_MAX pathname\<rparr>]\<rparr>))"

definition pathnameToCacheSlot :: "dt \<Rightarrow> string \<Rightarrow> nat option" where
  "pathnameToCacheSlot s pathname = find_slot (\<lambda>e. wd e \<ge> 0 \<and> path e = pathname) (wlCache s)"

definition pathnameInCache :: "dt \<Rightarrow> string \<Rightarrow> bool" where
  "pathnameInCache s pathname \<longleftrightarrow> pathnameToCacheSlot s pathname \<noteq> None"

text \<open>
  The structure \<^verbatim>\<open>sb\<close> is filled by the last successful \<^verbatim>\<open>lstat\<close>; before that it is indeterminate.
\<close>

fun check_loop :: "world \<Rightarrow> watch list \<Rightarrow> bool option \<Rightarrow> nat \<Rightarrow> nat res" where
  "check_loop w [] sb failures = Ok failures"
| "check_loop w (e # es) sb failures =
     (if wd e \<ge> 0 then
        (case lstat w (path e) of
           None \<Rightarrow> check_loop w es sb (Suc failures)
         | Some isdir \<Rightarrow> check_loop w es (Some isdir) failures)
      else
        (case sb of
           None \<Rightarrow> Undefined
         | Some isdir \<Rightarrow> if \<not> isdir then Exited 1 else check_loop w es sb failures))"

definition checkCacheConsistency :: "world \<Rightarrow> dt \<Rightarrow> nat res" where
  "checkCacheConsistency w s = check_loop w (wlCache s) None 0"

section \<open>Root directories\<close>

fun count_roots :: "world \<Rightarrow> string list \<Rightarrow> nat res" where
  "count_roots w [] = Ok 0"
| "count_roots w (p # ps) =
     (case lstat w p of
        None \<Rightarrow> Exited 1
      | Some isdir \<Rightarrow> if \<not> isdir then Exited 1 else bind_res (count_roots w ps) (\<lambda>n. Ok (Suc n)))"

text \<open>Copying the arguments; the directories seen so far are compared by device and inode.\<close>

fun copy_roots :: "world \<Rightarrow> string list \<Rightarrow> (nat \<times> nat) list \<Rightarrow> (string option list) res" where
  "copy_roots w [] seen = Ok []"
| "copy_roots w (p # ps) seen =
     (case dir_at w p of
        None \<Rightarrow> Exited 1
      | Some d \<Rightarrow>
          if d \<in> set seen then Exited 1
          else bind_res (copy_roots w ps (seen @ [d])) (\<lambda>l. Ok (Some p # l)))"

definition copyRootDirPaths :: "world \<Rightarrow> string list \<Rightarrow> dt \<Rightarrow> dt res" where
  "copyRootDirPaths w argv s =
     bind_res (count_roots w argv) (\<lambda>n.
     bind_res (copy_roots w argv []) (\<lambda>l.
       Ok (s\<lparr>rootDirPaths := l, ignoreRootDirs := 0\<rparr>)))"

definition findRootDirPath :: "dt \<Rightarrow> string \<Rightarrow> nat option" where
  "findRootDirPath s p = find (\<lambda>j. rootDirPaths s ! j = Some p) [0..<length (rootDirPaths s)]"

definition isRootDirPath :: "dt \<Rightarrow> string \<Rightarrow> bool" where
  "isRootDirPath s p \<longleftrightarrow> findRootDirPath s p \<noteq> None"

definition zapRootDirPath :: "string \<Rightarrow> dt \<Rightarrow> dt res" where
  "zapRootDirPath p s =
     (case findRootDirPath s p of
        None \<Rightarrow> Exited 1
      | Some j \<Rightarrow>
          let s1 = s\<lparr>rootDirPaths := (rootDirPaths s)[j := None], ignoreRootDirs := Suc (ignoreRootDirs s)\<rparr>
          in if ignoreRootDirs s1 = length (rootDirPaths s1) then Exited 0 else Ok s1)"

section \<open>Watches\<close>

text \<open>
  The kernel's calls.  Adding a watch for a directory that is already watched returns its descriptor;
  new descriptors are counted up.
\<close>

definition inotify_add_watch :: "world \<Rightarrow> string \<Rightarrow> dt \<Rightarrow> (errno + int) \<times> dt" where
  "inotify_add_watch w p s =
     (case dir_at w p of
        None \<Rightarrow> (Inl ENOENT, s)
      | Some d \<Rightarrow>
          (case map_of (watches s) d of
             Some n \<Rightarrow> (Inr n, s)
           | None \<Rightarrow>
               if max_watches w \<le> length (watches s) then (Inl ENOSPC, s)
               else (Inr (next_wd s), s\<lparr>watches := (d, next_wd s) # watches s, next_wd := next_wd s + 1\<rparr>)))"

definition inotify_rm_watch :: "int \<Rightarrow> dt \<Rightarrow> (errno + unit) \<times> dt" where
  "inotify_rm_watch n s =
     (if n \<in> snd ` set (watches s) then (Inr (), s\<lparr>watches := filter (\<lambda>x. snd x \<noteq> n) (watches s)\<rparr>)
      else (Inl EINVAL, s))"

definition traverseTree :: "world \<Rightarrow> string \<times> bool \<Rightarrow> dt \<Rightarrow> dt res" where
  "traverseTree w v s =
     (let (pathname, isdir) = v in
      if \<not> isdir then Ok s
      else
        (case inotify_add_watch w pathname s of
           (Inl e, s1) \<Rightarrow> if e = ENOENT then Ok s1 else Exited 1
         | (Inr n, s1) \<Rightarrow>
             if findWatch s1 n \<noteq> None then Ok s1
             else Ok (snd (addWatchToCache n pathname (s1\<lparr>dirCnt := Suc (dirCnt s1)\<rparr>)))))"

fun traverse_all :: "world \<Rightarrow> (string \<times> bool) list \<Rightarrow> dt \<Rightarrow> dt res" where
  "traverse_all w [] s = Ok s"
| "traverse_all w (v # vs) s = bind_res (traverseTree w v s) (traverse_all w vs)"

definition watchDir :: "world \<Rightarrow> string \<Rightarrow> dt \<Rightarrow> dt res" where
  "watchDir w pathname s =
     (let s1 = s\<lparr>dirCnt := 0\<rparr>
      in case nftw w pathname of
           None \<Rightarrow> Ok s1
         | Some vs \<Rightarrow> traverse_all w vs s1)"

definition watchSubtree :: "world \<Rightarrow> string \<Rightarrow> dt \<Rightarrow> dt res" where
  "watchSubtree w p s = watchDir w p s"

section \<open>Renaming and removing subtrees\<close>

text \<open>\<open>strncmp(p, q, strlen(p)) == 0\<close> and \<open>q\<close> ends there or goes on with a slash.\<close>

definition path_under :: "string \<Rightarrow> string \<Rightarrow> bool" where
  "path_under p q \<longleftrightarrow> strncmp_eq p q (length p) \<and>
     (length q = length p \<or> length p < length q \<and> q ! length p = CHR ''/'')"

definition snprintf_path :: "nat \<Rightarrow> string \<Rightarrow> string" where
  "snprintf_path n s = take (n - 1) s"

definition rewriteCachedPaths :: "string \<Rightarrow> string \<Rightarrow> string \<Rightarrow> string \<Rightarrow> dt \<Rightarrow> dt" where
  "rewriteCachedPaths oldPathPrefix oldName newPathPrefix newName s =
     (let fullPath = snprintf_path PATH_MAX (oldPathPrefix @ ''/'' @ oldName);
          newPrefix = snprintf_path PATH_MAX (newPathPrefix @ ''/'' @ newName);
          len = length fullPath
      in s\<lparr>wlCache := map (\<lambda>e. if path_under fullPath (path e)
           then e\<lparr>path := snprintf_path PATH_MAX (newPrefix @ drop len (path e))\<rparr> else e) (wlCache s)\<rparr>)"

text \<open>The loop over the slots from \<open>j\<close> on; no count when removing a watch failed.\<close>

function zap_loop :: "string \<Rightarrow> nat \<Rightarrow> nat \<Rightarrow> dt \<Rightarrow> nat option \<times> dt" where
  "zap_loop pn j cnt s =
     (if j < length (wlCache s) then
        (let e = wlCache s ! j in
         if wd e \<ge> 0 \<and> path_under pn (path e) then
           (case inotify_rm_watch (wd e) s of
              (Inl err, s1) \<Rightarrow> (None, s1)
            | (Inr u, s1) \<Rightarrow> zap_loop pn (Suc j) (Suc cnt) (markCacheSlotEmpty j s1))
         else zap_loop pn (Suc j) cnt s)
      else (Some cnt, s))"
  by pat_completeness auto

termination
  by (relation "measure (\<lambda>(pn, j, cnt, s). length (wlCache s) - j)")
    (auto simp: markCacheSlotEmpty_def inotify_rm_watch_def split: if_splits)

declare zap_loop.simps [simp del]

definition zapSubtree :: "string \<Rightarrow> dt \<Rightarrow> nat option \<times> dt" where
  "zapSubtree p s = zap_loop p 0 0 s"

fun watch_roots :: "world \<Rightarrow> string option list \<Rightarrow> dt \<Rightarrow> dt res" where
  "watch_roots w [] s = Ok s"
| "watch_roots w (None # rs) s = watch_roots w rs s"
| "watch_roots w (Some p # rs) s = bind_res (watchSubtree w p s) (watch_roots w rs)"

text \<open>A new inotify instance has no watches and counts its descriptors from one.\<close>

definition reinitialize :: "world \<Rightarrow> bool \<Rightarrow> dt \<Rightarrow> dt res" where
  "reinitialize w explicit s =
     (let s1 = s\<lparr>reinitCnt := (if explicit then 0 else Suc (reinitCnt s)), watches := [], next_wd := 1\<rparr>
      in watch_roots w (rootDirPaths s1) (freeCache s1))"

section \<open>Events\<close>

text \<open>
  What one call consumes of the buffer: a number of events, everything that was read, or nothing
  because another read is needed first.
\<close>

datatype consumed = Events nat | All_events | More

definition rebuild :: "world \<Rightarrow> dt \<Rightarrow> (consumed \<times> dt) res" where
  "rebuild w s = bind_res (reinitialize w False s) (\<lambda>s1. Ok (All_events, s1))"

definition zap_or_rebuild :: "world \<Rightarrow> string \<Rightarrow> dt \<Rightarrow> (consumed \<times> dt) res" where
  "zap_or_rebuild w p s =
     (case zapSubtree p s of
        (None, s1) \<Rightarrow> rebuild w s1
      | (Some cnt, s1) \<Rightarrow> Ok (Events 1, s1))"

definition cached_path :: "dt \<Rightarrow> nat option \<Rightarrow> string res" where
  "cached_path s slot = (case slot of None \<Rightarrow> Undefined | Some j \<Rightarrow> Ok (path (wlCache s ! j)))"

definition event_full_path :: "string \<Rightarrow> inotify_event \<Rightarrow> string" where
  "event_full_path p ev = snprintf_path (PATH_MAX + NAME_MAX) (p @ ''/'' @ ev_name ev)"

text \<open>The branches of \<^verbatim>\<open>processNextInotifyEvent\<close>, in the order of the code.\<close>

definition directory_created :: "world \<Rightarrow> inotify_event \<Rightarrow> nat option \<Rightarrow> dt \<Rightarrow> (consumed \<times> dt) res" where
  "directory_created w ev slot s =
     bind_res (cached_path s slot) (\<lambda>p.
       let fullPath = event_full_path p ev
       in if \<not> pathnameInCache s fullPath
          then bind_res (watchSubtree w fullPath s) (\<lambda>s1. Ok (Events 1, s1))
          else Ok (Events 1, s))"

definition directory_deleted :: "nat option \<Rightarrow> dt \<Rightarrow> (consumed \<times> dt) res" where
  "directory_deleted slot s =
     bind_res (cached_path s slot) (\<lambda>p.
     bind_res (if isRootDirPath s p then zapRootDirPath p s else Ok s) (\<lambda>s1.
       Ok (Events 1, markCacheSlotEmpty (the slot) s1)))"

definition directory_moved_from ::
  "world \<Rightarrow> inotify_event \<Rightarrow> inotify_event list \<Rightarrow> bool \<Rightarrow> nat option \<Rightarrow> dt \<Rightarrow> (consumed \<times> dt) res" where
  "directory_moved_from w ev rest firstTry slot s =
     (if rest \<noteq> [] \<and> has (hd rest) IN_MOVED_TO \<and> ev_cookie (hd rest) = ev_cookie ev then
        bind_res (findWatchChecked s (ev_wd (hd rest))) (\<lambda>nx.
          case nx of
            None \<Rightarrow> rebuild w s
          | Some nextSlot \<Rightarrow>
              bind_res (cached_path s slot) (\<lambda>p.
                Ok (Events 2, rewriteCachedPaths p (ev_name ev) (path (wlCache s ! nextSlot)) (ev_name (hd rest)) s)))
      else if rest \<noteq> [] \<or> \<not> firstTry then
        bind_res (cached_path s slot) (\<lambda>p. zap_or_rebuild w (event_full_path p ev) s)
      else Ok (More, s))"

definition queue_overflowed :: "world \<Rightarrow> dt \<Rightarrow> (consumed \<times> dt) res" where
  "queue_overflowed w s = rebuild w (s\<lparr>overflowCnt := Suc (overflowCnt s)\<rparr>)"

definition filesystem_unmounted :: "nat option \<Rightarrow> dt \<Rightarrow> (consumed \<times> dt) res" where
  "filesystem_unmounted slot s =
     (case slot of None \<Rightarrow> Undefined | Some j \<Rightarrow> Ok (Events 1, markCacheSlotEmpty j s))"

definition root_moved :: "world \<Rightarrow> nat option \<Rightarrow> dt \<Rightarrow> (consumed \<times> dt) res" where
  "root_moved w slot s =
     bind_res (cached_path s slot) (\<lambda>p.
       if isRootDirPath s p then
         bind_res (zapRootDirPath p s) (zap_or_rebuild w p)
       else Ok (Events 1, s))"

text \<open>What follows the branches unless one of them has returned.\<close>

definition after_event :: "world \<Rightarrow> consumed \<times> dt \<Rightarrow> (consumed \<times> dt) res" where
  "after_event w r =
     (let (c, s) = r in
      bind_res (if checkCache s then checkCacheConsistency w s else Ok 0) (\<lambda>_.
      bind_res (if dumpCache s then dumpCacheToLog s else Ok s) (\<lambda>s1. Ok (c, s1))))"

definition finish_event :: "world \<Rightarrow> (consumed \<times> dt) res \<Rightarrow> (consumed \<times> dt) res" where
  "finish_event w r =
     bind_res r (\<lambda>(c, s). case c of Events n \<Rightarrow> after_event w (c, s) | _ \<Rightarrow> Ok (c, s))"

definition process_event ::
  "world \<Rightarrow> inotify_event \<Rightarrow> inotify_event list \<Rightarrow> bool \<Rightarrow> nat option \<Rightarrow> dt \<Rightarrow> (consumed \<times> dt) res" where
  "process_event w ev rest firstTry slot s =
     (if has ev IN_ISDIR \<and> has ev (or IN_CREATE IN_MOVED_TO) then
        finish_event w (directory_created w ev slot s)
      else if has ev IN_DELETE_SELF then finish_event w (directory_deleted slot s)
      else if and (ev_mask ev) (or IN_MOVED_FROM IN_ISDIR) = or IN_MOVED_FROM IN_ISDIR then
        finish_event w (directory_moved_from w ev rest firstTry slot s)
      else if has ev IN_Q_OVERFLOW then bind_res (queue_overflowed w s) (after_event w)
      else if has ev IN_UNMOUNT then finish_event w (filesystem_unmounted slot s)
      else if has ev IN_MOVE_SELF then finish_event w (root_moved w slot s)
      else after_event w (Events 1, s))"

definition processNextInotifyEvent ::
  "world \<Rightarrow> inotify_event \<Rightarrow> inotify_event list \<Rightarrow> bool \<Rightarrow> dt \<Rightarrow> (consumed \<times> dt) res" where
  "processNextInotifyEvent w ev rest firstTry s =
     (if ev_wd ev \<noteq> -1 \<and> \<not> has ev IN_IGNORED then
        bind_res (findWatchChecked s (ev_wd ev)) (\<lambda>r.
          case r of None \<Rightarrow> rebuild w s | Some j \<Rightarrow> process_event w ev rest firstTry (Some j) s)
      else process_event w ev rest firstTry None s)"

text \<open>A call consumes at least one event, or asks for more only at the first try and the last event.\<close>

lemma bind_res_Ok: "bind_res m f = Ok a \<longleftrightarrow> (\<exists>b. m = Ok b \<and> f b = Ok a)"
  by (cases m) auto

lemma rebuild_consumed: "rebuild w s = Ok (c, t) \<Longrightarrow> c = All_events"
  by (auto simp: rebuild_def bind_res_Ok)

lemma zap_or_rebuild_consumed: "zap_or_rebuild w p s = Ok (c, t) \<Longrightarrow> c = All_events \<or> c = Events 1"
  by (cases "zapSubtree p s"; cases "fst (zapSubtree p s)") (auto simp: zap_or_rebuild_def dest: rebuild_consumed)

lemma after_event_consumed: "after_event w (c, s) = Ok (d, t) \<Longrightarrow> d = c"
  by (auto simp: after_event_def bind_res_Ok)

definition consumes :: "consumed \<Rightarrow> inotify_event list \<Rightarrow> bool \<Rightarrow> bool" where
  "consumes c rest ft \<longleftrightarrow>
     (case c of All_events \<Rightarrow> True | Events n \<Rightarrow> n = 1 \<or> n = 2 \<and> rest \<noteq> [] | More \<Rightarrow> ft \<and> rest = [])"

lemma finish_event_consumed: "finish_event w r = Ok (c, t) \<Longrightarrow> \<exists>s. r = Ok (c, s)"
  by (cases r) (auto simp: finish_event_def split: consumed.splits dest: after_event_consumed)

lemma consumes_Events1 [simp]: "consumes (Events 1) rest ft" "consumes (Events (Suc 0)) rest ft"
    "consumes All_events rest ft"
  by (simp_all add: consumes_def)

lemma bind_res_OkE: "bind_res m f = Ok a \<Longrightarrow> (\<And>b. m = Ok b \<Longrightarrow> f b = Ok a \<Longrightarrow> P) \<Longrightarrow> P"
  by (cases m) auto

lemma if_eqE: "(if b then x else y) = z \<Longrightarrow> (b \<Longrightarrow> x = z \<Longrightarrow> P) \<Longrightarrow> (\<not> b \<Longrightarrow> y = z \<Longrightarrow> P) \<Longrightarrow> P"
  by (cases b) auto

lemma moved_from_consumed:
  assumes "directory_moved_from w ev rest ft slot s = Ok (c, t)"
  shows "consumes c rest ft"
proof -
  show ?thesis
    using assms unfolding directory_moved_from_def
  proof (elim if_eqE bind_res_OkE)
    fix nx assume "(case nx of None \<Rightarrow> rebuild w s
        | Some nextSlot \<Rightarrow> bind_res (cached_path s slot) (\<lambda>p. Ok (Events 2, rewriteCachedPaths p (ev_name ev)
            (path (wlCache s ! nextSlot)) (ev_name (hd rest)) s))) = Ok (c, t)"
      and "rest \<noteq> [] \<and> has (hd rest) IN_MOVED_TO \<and> ev_cookie (hd rest) = ev_cookie ev"
    then show ?thesis by (cases nx) (auto elim!: bind_res_OkE dest!: rebuild_consumed simp: consumes_def)
  qed (auto dest!: zap_or_rebuild_consumed simp: consumes_def)
qed

lemma other_branches_consumed:
  "directory_created w ev slot s = Ok (c, t) \<Longrightarrow> consumes c rest ft"
  "directory_deleted slot s = Ok (c, t) \<Longrightarrow> consumes c rest ft"
  "queue_overflowed w s = Ok (c, t) \<Longrightarrow> consumes c rest ft"
  "filesystem_unmounted slot s = Ok (c, t) \<Longrightarrow> consumes c rest ft"
  "root_moved w slot s = Ok (c, t) \<Longrightarrow> consumes c rest ft"
  by (auto simp: directory_created_def directory_deleted_def queue_overflowed_def filesystem_unmounted_def
      root_moved_def Let_def split: option.splits elim!: bind_res_OkE if_eqE
      dest!: rebuild_consumed zap_or_rebuild_consumed)

lemma process_event_consumed:
  assumes "process_event w ev rest ft slot s = Ok (c, t)"
  shows "consumes c rest ft"
proof -
  have ov: "consumes c rest ft" if q: "bind_res (queue_overflowed w s) (after_event w) = Ok (c, t)"
  proof -
    obtain d u where "queue_overflowed w s = Ok (d, u)" "after_event w (d, u) = Ok (c, t)"
      using q by (auto elim!: bind_res_OkE)
    then show ?thesis using after_event_consumed other_branches_consumed(3) by blast
  qed
  have ot: "consumes c rest ft" if "after_event w (Events 1, s) = Ok (c, t)"
    using after_event_consumed[OF that] by simp
  show ?thesis
    using assms unfolding process_event_def
    by (elim if_eqE) (blast dest: finish_event_consumed intro: moved_from_consumed other_branches_consumed ov ot)+
qed

lemma processNext_consumed:
  assumes "processNextInotifyEvent w ev rest ft s = Ok (c, t)"
  shows "consumes c rest ft"
proof (cases "ev_wd ev \<noteq> -1 \<and> \<not> has ev IN_IGNORED")
  case True
  then obtain r where "(case r of None \<Rightarrow> rebuild w s | Some j \<Rightarrow> process_event w ev rest ft (Some j) s) = Ok (c, t)"
    using assms by (auto simp: processNextInotifyEvent_def bind_res_Ok)
  then show ?thesis by (cases r) (auto dest: process_event_consumed dest!: rebuild_consumed)
next
  case False
  then have "process_event w ev rest ft None s = Ok (c, t)"
    using assms unfolding processNextInotifyEvent_def by argo
  then show ?thesis by (rule process_event_consumed)
qed

text \<open>
  The loop over the buffer.  The further reads are the results the kernel gives to the short reads
  that wait for the second half of a rename; when none is left the timer interrupts the read.  After an
  interrupted read the program also adds the result -1 to the number of bytes; as the event at hand is
  then the only one in the buffer, it is still handled once and whole.
\<close>

function event_loop ::
  "world \<Rightarrow> inotify_event list \<Rightarrow> bool \<Rightarrow> (errno + inotify_event list) list \<Rightarrow> dt \<Rightarrow> dt res" where
  "event_loop w [] firstTry reads s = Ok s"
| "event_loop w (ev # rest) firstTry reads s =
     (case processNextInotifyEvent w ev rest firstTry s of
        Exited n \<Rightarrow> Exited n
      | Abort \<Rightarrow> Abort
      | Undefined \<Rightarrow> Undefined
      | Ok (All_events, s1) \<Rightarrow> Ok s1
      | Ok (Events n, s1) \<Rightarrow> event_loop w (drop (n - 1) rest) True reads s1
      | Ok (More, s1) \<Rightarrow>
          let s2 = s1\<lparr>inotifyReadCnt := Suc (inotifyReadCnt s1)\<rparr> in
          (case reads of
             [] \<Rightarrow> event_loop w (ev # rest) False [] s2
           | Inl e # rs \<Rightarrow> if e = EINTR then event_loop w (ev # rest) False rs s2 else Exited 1
           | Inr es # rs \<Rightarrow> if es = [] then Exited 1 else event_loop w (ev # rest @ es) False rs s2))"
  by pat_completeness auto

termination
proof (relation "measure (\<lambda>(w, evs, ft, rs, s). 2 * (length evs + sum_list (map (case_sum (\<lambda>_. 0) length) rs)) + (if ft then 1 else 0))",
    goal_cases)
  case (2 w ev rest ft rs s p c t n)
  then show ?case by (auto dest!: processNext_consumed simp: consumes_def)
next
  case (3 w ev rest ft rs s p c t)
  then show ?case by (auto dest!: processNext_consumed simp: consumes_def)
next
  case (4 w ev rest ft rs s p c t)
  then show ?case by (auto dest!: processNext_consumed simp: consumes_def)
next
  case (5 w ev rest ft rs s p c t)
  then show ?case by (auto dest!: processNext_consumed simp: consumes_def)
qed simp

definition processInotifyEvents ::
  "world \<Rightarrow> errno + inotify_event list \<Rightarrow> (errno + inotify_event list) list \<Rightarrow> dt \<Rightarrow> dt res" where
  "processInotifyEvents w got reads s =
     (case got of
        Inl e \<Rightarrow> Exited 1
      | Inr evs \<Rightarrow>
          if evs = [] then Exited 1
          else event_loop w evs True reads (s\<lparr>inotifyReadCnt := Suc (inotifyReadCnt s)\<rparr>))"

section \<open>Commands\<close>

definition displayCommandList :: string where
  "displayCommandList =
     ''Commands:'' @ [CHR 0x0A] @
     ''0        Rebuild cache'' @ [CHR 0x0A] @
     ''a path   Add/refresh pathname watches and cache'' @ [CHR 0x0A] @
     ''c        Verify cached pathnames'' @ [CHR 0x0A] @
     ''d        Toggle cache dumping'' @ [CHR 0x0A] @
     ''l        List cached pathnames'' @ [CHR 0x0A] @
     ''q        Quit'' @ [CHR 0x0A] @
     ''v [n]    Toggle/set verbose level for messages to stderr'' @ [CHR 0x0A] @
     ''             0 = no messages'' @ [CHR 0x0A] @
     ''             1 = basic messages'' @ [CHR 0x0A] @
     ''             2 = verbose messages'' @ [CHR 0x0A] @
     ''             3 = basic and verbose messages'' @ [CHR 0x0A] @
     ''w file   Write directory list to file'' @ [CHR 0x0A] @
     ''x        Toggle cache checking'' @ [CHR 0x0A] @
     ''z path   Zap pathname and watches from cache'' @ [CHR 0x0A]"

text \<open>The numbers of verified entries and of failures; a cached path that is no directory ends the program.\<close>

fun checkAllCachedPathnamesExist :: "world \<Rightarrow> watch list \<Rightarrow> nat \<Rightarrow> nat \<Rightarrow> (nat \<times> nat) res" where
  "checkAllCachedPathnamesExist w [] cnt failures = Ok (cnt, failures)"
| "checkAllCachedPathnamesExist w (e # es) cnt failures =
     (if wd e \<ge> 0 then
        (case lstat w (path e) of
           None \<Rightarrow> checkAllCachedPathnamesExist w es cnt (Suc failures)
         | Some isdir \<Rightarrow>
             if \<not> isdir then Exited 1 else checkAllCachedPathnamesExist w es (Suc cnt) failures)
      else checkAllCachedPathnamesExist w es cnt failures)"

text \<open>A line up to its first null byte.\<close>

definition c_line :: "string \<Rightarrow> string" where
  "c_line t = takeWhile (\<lambda>c. c \<noteq> CHR 0x00) t"

text \<open>The list of cached paths the command \<^verbatim>\<open>w\<close> writes.\<close>

definition path_list :: "watch list \<Rightarrow> string" where
  "path_list ws = concat (map (\<lambda>e. if wd e \<ge> 0 then path e @ [CHR 0x0A] else []) ws)"

text \<open>\<^verbatim>\<open>sscanf(line, "%c %s")\<close>: the command and, when there is one, the argument.\<close>

definition scan_line :: "string \<Rightarrow> char \<times> string option" where
  "scan_line line =
     (let a = takeWhile (\<lambda>c. \<not> isspace c) (dropWhile isspace (tl line))
      in (hd line, if a = [] then None else Some a))"

definition with_arg :: "string option \<Rightarrow> (string \<Rightarrow> 'a res) \<Rightarrow> 'a res" where
  "with_arg a f = (case a of None \<Rightarrow> Undefined | Some p \<Rightarrow> f p)"

text \<open>
  One command line as read (at most 100 bytes; the last one, the newline, is cut off).  The result has
  the new state, the output and the file written by \<^verbatim>\<open>w\<close>; \<open>fopen_ok\<close> tells whether that file can be
  opened.  A command that uses a missing argument, or a file that could not be opened, is undefined.
\<close>

definition executeCommand ::
  "world \<Rightarrow> (string \<Rightarrow> bool) \<Rightarrow> string \<Rightarrow> dt \<Rightarrow> (dt \<times> string \<times> (string \<times> string) option) res" where
  "executeCommand w fopen_ok input s =
     (if input = [] then Exited 1
      else
        let line = c_line (butlast (take 100 input)) in
        if line = [] then Ok (s, [], None)
        else
          let (cmd, arg) = scan_line line;
              onoff = (\<lambda>b. (if b then ''on'' else ''off'') @ [CHR 0x0A])
          in
          if cmd = CHR ''a'' then
            with_arg arg (\<lambda>p. bind_res (watchSubtree w p (snd (zapSubtree p s))) (\<lambda>t. Ok (t, [], None)))
          else if cmd = CHR ''c'' \<or> cmd = CHR ''C'' then
            bind_res (checkAllCachedPathnamesExist w (wlCache s) 0 0) (\<lambda>_. Ok (s, [], None))
          else if cmd = CHR ''l'' then Ok (s, [], None)
          else if cmd = CHR ''q'' then Exited 0
          else if cmd = CHR ''v'' then
            (case arg of
               Some a \<Rightarrow> Ok (s\<lparr>verboseMask := atoi a\<rparr>, [], None)
             | None \<Rightarrow>
                 let m = (if verboseMask s = 0 then 1 else 0)
                 in Ok (s\<lparr>verboseMask := m\<rparr>, onoff (m \<noteq> 0), None))
          else if cmd = CHR ''d'' then Ok (s\<lparr>dumpCache := \<not> dumpCache s\<rparr>, onoff (\<not> dumpCache s), None)
          else if cmd = CHR ''x'' then Ok (s\<lparr>checkCache := \<not> checkCache s\<rparr>, onoff (\<not> checkCache s), None)
          else if cmd = CHR ''w'' then
            with_arg arg (\<lambda>p. if fopen_ok p then Ok (s, [], Some (p, path_list (wlCache s))) else Undefined)
          else if cmd = CHR ''z'' then with_arg arg (\<lambda>p. Ok (snd (zapSubtree p s), [], None))
          else if cmd = CHR ''0'' then bind_res (reinitialize w True s) (\<lambda>t. Ok (t, [], None))
          else Ok (s, ''Unrecognized command: '' @ [cmd, CHR 0x0A] @ displayCommandList, None))"

section \<open>The program\<close>

text \<open>
  The options as \<^verbatim>\<open>getopt\<close> returns them, with their arguments; a letter it does not know is returned as
  a question mark.  The name of the stop file is not kept.
\<close>

definition dtree_defaults :: "dt \<Rightarrow> dt" where
  "dtree_defaults s = s\<lparr>verboseMask := 0, checkCache := False, dumpCache := False, abortOnCacheProblem := False\<rparr>"

fun dtree_options :: "(string \<Rightarrow> bool) \<Rightarrow> (char \<times> string) list \<Rightarrow> dt \<Rightarrow> dt res" where
  "dtree_options fopen_ok [] s = Ok s"
| "dtree_options fopen_ok ((opt, optarg) # opts) s =
     (if opt = CHR ''a'' then dtree_options fopen_ok opts (s\<lparr>abortOnCacheProblem := True\<rparr>)
      else if opt = CHR ''x'' then dtree_options fopen_ok opts (s\<lparr>checkCache := True\<rparr>)
      else if opt = CHR ''d'' then dtree_options fopen_ok opts (s\<lparr>dumpCache := True\<rparr>)
      else if opt = CHR ''v'' then dtree_options fopen_ok opts (s\<lparr>verboseMask := atoi optarg\<rparr>)
      else if opt = CHR ''b'' then dtree_options fopen_ok opts (s\<lparr>readBufferSize := atoi optarg\<rparr>)
      else if opt = CHR ''l'' then
        (if fopen_ok optarg then dtree_options fopen_ok opts (s\<lparr>logfile := Some []\<rparr>) else Exited 1)
      else Exited 1)"

definition dtree_start ::
  "world \<Rightarrow> (string \<Rightarrow> bool) \<Rightarrow> (char \<times> string) list \<Rightarrow> string list \<Rightarrow> dt \<Rightarrow> dt res" where
  "dtree_start w fopen_ok opts argv s =
     bind_res (dtree_options fopen_ok opts (dtree_defaults s)) (\<lambda>s1.
       if argv = [] then Exited 1
       else bind_res (copyRootDirPaths w argv s1) (reinitialize w True))"

text \<open>
  The states at the head of the main loop.  Between two rounds the file system may change; in each
  round a command line, or the inotify descriptor, or one after the other is handled.
\<close>

inductive monitoring :: "dt \<Rightarrow> bool" where
  started: "dtree_start w fopen_ok opts argv s = Ok t \<Longrightarrow> monitoring t"
| command: "monitoring s \<Longrightarrow> executeCommand w fopen_ok input s = Ok (t, out, f) \<Longrightarrow> monitoring t"
| events: "monitoring s \<Longrightarrow> processInotifyEvents w got reads s = Ok t \<Longrightarrow> monitoring t"

end
