(* ===== verification/Inotify_Dtree_Correct.thy ===== *)
theory Inotify_Dtree_Correct
  imports Inotify_Dtree "HOL-Library.Sublist"
begin

text \<open>
  Correctness of the directory-tree monitor.  A locale states what the elementary operations have to
  keep and derives that the traversal, the event handling and the commands keep it; it is interpreted
  for the well-formedness of the cache and for the accounting of the root directories.  Then the
  exact effect of renames and removals, and what a traversal covers.
\<close>

section \<open>Invariants of the monitor\<close>

locale monitor_core =
  fixes inv :: "dt \<Rightarrow> bool"
  assumes inv_add: "inv s \<Longrightarrow> inotify_add_watch w p s = (r, t) \<Longrightarrow> inv t"
    and inv_cache: "inv s \<Longrightarrow> findWatch s n = None \<Longrightarrow> n \<in> snd ` set (watches s) \<Longrightarrow> inv (snd (addWatchToCache n p s))"
    and inv_mark: "inv s \<Longrightarrow> inv (markCacheSlotEmpty j s)"
    and inv_rm: "inv s \<Longrightarrow> inotify_rm_watch n s = (r', t) \<Longrightarrow> inv t"
    and inv_rewrite: "inv s \<Longrightarrow> inv (rewriteCachedPaths a b c d s)"
    and inv_zap_root: "inv s \<Longrightarrow> zapRootDirPath p s = Ok t \<Longrightarrow> inv t"
    and inv_reset: "inv s \<Longrightarrow> inv (freeCache (s\<lparr>reinitCnt := k, watches := [], next_wd := 1\<rparr>))"
    and inv_counters: "inv s \<Longrightarrow> inv (s\<lparr>dirCnt := k\<rparr>)"
      "inv s \<Longrightarrow> inv (s\<lparr>overflowCnt := k\<rparr>)" "inv s \<Longrightarrow> inv (s\<lparr>logfile := l\<rparr>)" "inv s \<Longrightarrow> inv (s\<lparr>checkCache := b'\<rparr>)"
      "inv s \<Longrightarrow> inv (s\<lparr>dumpCache := b'\<rparr>)" "inv s \<Longrightarrow> inv (s\<lparr>verboseMask := v\<rparr>)"
begin

lemma added_watched: "inotify_add_watch w p s = (Inr n, t) \<Longrightarrow> n \<in> snd ` set (watches t)"
  by (auto simp: inotify_add_watch_def image_iff split: option.splits if_splits dest!: map_of_SomeD) force

lemma traverse_inv: "inv s \<Longrightarrow> traverseTree w v s = Ok t \<Longrightarrow> inv t"
proof -
  assume i: "inv s" and t: "traverseTree w v s = Ok t"
  obtain p d where v: "v = (p, d)" by (cases v)
  obtain r s1 where a: "inotify_add_watch w p s = (r, s1)" by (cases "inotify_add_watch w p s")
  have i1: "inv s1" using inv_add[OF i a] .
  show ?thesis
  proof (cases r)
    case (Inl e)
    then show ?thesis using t a i i1 by (auto simp: traverseTree_def v split: if_splits)
  next
    case (Inr n)
    then have "n \<in> snd ` set (watches s1)" using added_watched a by blast
    then have "inv (snd (addWatchToCache n p (s1\<lparr>dirCnt := Suc (dirCnt s1)\<rparr>)))" if "findWatch s1 n = None"
      using that inv_counters(1)[OF i1] by (intro inv_cache) (simp_all add: findWatch_def)
    then show ?thesis using t a i i1 Inr by (auto simp: traverseTree_def v split: if_splits)
  qed
qed

lemma traverse_all_inv: "inv s \<Longrightarrow> traverse_all w vs s = Ok t \<Longrightarrow> inv t"
  by (induction vs arbitrary: s) (auto elim!: bind_res_OkE dest: traverse_inv)

lemma watchSubtree_inv: "inv s \<Longrightarrow> watchSubtree w p s = Ok t \<Longrightarrow> inv t"
  by (auto simp: watchSubtree_def watchDir_def Let_def inv_counters split: option.splits
      dest: traverse_all_inv[OF inv_counters(1)])

lemma watch_roots_inv: "inv s \<Longrightarrow> watch_roots w rs s = Ok t \<Longrightarrow> inv t"
  by (induction w rs s rule: watch_roots.induct) (auto elim!: bind_res_OkE dest: watchSubtree_inv)

lemma reinitialize_inv: "inv s \<Longrightarrow> reinitialize w e s = Ok t \<Longrightarrow> inv t"
  unfolding reinitialize_def Let_def by (drule inv_reset) (erule watch_roots_inv)

lemma zap_loop_inv: "inv s \<Longrightarrow> inv (snd (zap_loop pn j c s))"
proof (induction pn j c s rule: zap_loop.induct)
  case (1 pn j c s)
  show ?case
  proof (cases "j < length (wlCache s) \<and> 0 \<le> wd (wlCache s ! j) \<and> path_under pn (path (wlCache s ! j))")
    case True
    obtain r t where rt: "inotify_rm_watch (wd (wlCache s ! j)) s = (r, t)" by (cases "inotify_rm_watch (wd (wlCache s ! j)) s")
    have "inv t" using inv_rm[OF 1(3) rt] .
    then have m: "inv (markCacheSlotEmpty j t)" by (rule inv_mark)
    show ?thesis
    proof (cases r)
      case (Inl e)
      then show ?thesis using True rt \<open>inv t\<close> by (subst zap_loop.simps) simp
    next
      case (Inr u)
      have "inv (snd (zap_loop pn (Suc j) (Suc c) (markCacheSlotEmpty j t)))"
        using 1(1)[OF _ refl] True rt Inr m by simp
      then show ?thesis using True rt Inr by (subst zap_loop.simps) simp
    qed
  next
    case False
    then show ?thesis using 1(2,3) by (subst zap_loop.simps) auto
  qed
qed

lemma zapSubtree_inv: "inv s \<Longrightarrow> zapSubtree p s = (r, t) \<Longrightarrow> inv t"
  using zap_loop_inv[of s p 0 0] by (simp add: zapSubtree_def)

lemma rebuild_inv: "inv s \<Longrightarrow> rebuild w s = Ok (c, t) \<Longrightarrow> inv t"
  by (auto simp: rebuild_def elim!: bind_res_OkE dest: reinitialize_inv)

lemma zap_or_rebuild_inv: "inv s \<Longrightarrow> zap_or_rebuild w p s = Ok (c, t) \<Longrightarrow> inv t"
proof -
  assume i: "inv s" and z: "zap_or_rebuild w p s = Ok (c, t)"
  obtain r u where ru: "zapSubtree p s = (r, u)" by (cases "zapSubtree p s")
  have "inv u" using zapSubtree_inv[OF i ru] .
  then show ?thesis using z ru by (cases r) (auto simp: zap_or_rebuild_def dest: rebuild_inv)
qed

lemma dump_inv: "inv s \<Longrightarrow> dumpCacheToLog s = Ok t \<Longrightarrow> inv t"
  by (auto simp: dumpCacheToLog_def inv_counters split: option.splits)

lemma after_event_inv: "inv s \<Longrightarrow> after_event w (c, s) = Ok (d, t) \<Longrightarrow> inv t"
  by (auto simp: after_event_def elim!: bind_res_OkE if_eqE dest: dump_inv)

lemma finish_event_inv: "(\<And>d u. r = Ok (d, u) \<Longrightarrow> inv u) \<Longrightarrow> finish_event w r = Ok (c, t) \<Longrightarrow> inv t"
  by (auto simp: finish_event_def elim!: bind_res_OkE split: consumed.splits dest: after_event_inv)

lemma branches_inv:
  assumes "inv s"
  shows "directory_created w ev slot s = Ok (c, t) \<Longrightarrow> inv t"
    "directory_deleted slot s = Ok (c, t) \<Longrightarrow> inv t"
    "queue_overflowed w s = Ok (c, t) \<Longrightarrow> inv t"
    "filesystem_unmounted slot s = Ok (c, t) \<Longrightarrow> inv t"
    "root_moved w slot s = Ok (c, t) \<Longrightarrow> inv t"
  using assms
  by (auto simp: directory_created_def directory_deleted_def queue_overflowed_def filesystem_unmounted_def
      root_moved_def Let_def split: option.splits elim!: bind_res_OkE if_eqE
      intro: inv_mark dest: watchSubtree_inv inv_zap_root rebuild_inv[OF inv_counters(2)] zap_or_rebuild_inv)

lemma moved_from_inv:
  assumes i: "inv s" and m: "directory_moved_from w ev rest ft slot s = Ok (c, t)"
  shows "inv t"
  using m unfolding directory_moved_from_def
proof (elim if_eqE bind_res_OkE)
  fix nx assume "(case nx of None \<Rightarrow> rebuild w s
      | Some nextSlot \<Rightarrow> bind_res (cached_path s slot) (\<lambda>p. Ok (Events 2, rewriteCachedPaths p (ev_name ev)
          (path (wlCache s ! nextSlot)) (ev_name (hd rest)) s))) = Ok (c, t)"
  then show ?thesis using i by (cases nx) (auto elim!: bind_res_OkE dest: rebuild_inv intro: inv_rewrite)
qed (use i in \<open>auto dest: zap_or_rebuild_inv\<close>)

lemma process_event_inv:
  assumes i: "inv s" and p: "process_event w ev rest ft slot s = Ok (c, t)"
  shows "inv t"
proof -
  have ov: "inv t" if q: "bind_res (queue_overflowed w s) (after_event w) = Ok (c, t)"
    using q by (auto elim!: bind_res_OkE intro: after_event_inv branches_inv(3)[OF i])
  show ?thesis
    using p unfolding process_event_def
    by (elim if_eqE)
      (blast intro: finish_event_inv branches_inv[OF i] moved_from_inv[OF i] ov after_event_inv[OF i])+
qed

lemma processNext_inv:
  assumes i: "inv s" and p: "processNextInotifyEvent w ev rest ft s = Ok (c, t)"
  shows "inv t"
proof (cases "ev_wd ev \<noteq> -1 \<and> \<not> has ev IN_IGNORED")
  case True
  then obtain r where "(case r of None \<Rightarrow> rebuild w s | Some j \<Rightarrow> process_event w ev rest ft (Some j) s) = Ok (c, t)"
    using p by (auto simp: processNextInotifyEvent_def elim!: bind_res_OkE)
  then show ?thesis using i by (cases r) (auto dest: process_event_inv rebuild_inv)
next
  case False
  then have "process_event w ev rest ft None s = Ok (c, t)"
    using p unfolding processNextInotifyEvent_def by argo
  with i show ?thesis by (rule process_event_inv)
qed

lemma executeCommand_inv:
  assumes i: "inv s" and e: "executeCommand w fo input s = Ok (t, out, f)"
  shows "inv t"
proof -
  have z: "inv (snd (zapSubtree p s))" for p
    using zapSubtree_inv[OF i, of p "fst (zapSubtree p s)" "snd (zapSubtree p s)"] by simp
  obtain cmd arg where ca: "scan_line (c_line (butlast (take 100 input))) = (cmd, arg)"
    by (cases "scan_line (c_line (butlast (take 100 input)))")
  have a: "inv t" if "with_arg arg (\<lambda>p. bind_res (watchSubtree w p (snd (zapSubtree p s))) (\<lambda>t. Ok (t, [], None))) = Ok (t, out, f)"
    using that watchSubtree_inv[OF z] by (cases arg) (auto simp: with_arg_def elim!: bind_res_OkE)
  have o: "inv t" if "with_arg arg (\<lambda>p. if fo p then Ok (s, [], Some (p, path_list (wlCache s))) else Undefined) = Ok (t, out, f)"
    using that i by (cases arg) (auto simp: with_arg_def elim!: if_eqE)
  have zp: "inv t" if "with_arg arg (\<lambda>p. Ok (snd (zapSubtree p s), [], None)) = Ok (t, out, f)"
    using that z by (cases arg) (auto simp: with_arg_def)
  have v: "inv t" if "(case arg of Some a \<Rightarrow> Ok (s\<lparr>verboseMask := atoi a\<rparr>, [], None)
       | None \<Rightarrow> Ok (s\<lparr>verboseMask := g\<rparr>, h, None)) = Ok (t, out, f)" for g h
    using that inv_counters(6)[OF i] by (cases arg) auto
  have n: "inv t" if "bind_res (reinitialize w True s) (\<lambda>t. Ok (t, [], None)) = Ok (t, out, f)"
    using that reinitialize_inv[OF i] by (auto elim!: bind_res_OkE)
  have c: "inv t" if "bind_res k (\<lambda>_. Ok (s, [], None)) = Ok (t, out, f)" for k :: "(nat \<times> nat) res"
    using that i by (auto elim!: bind_res_OkE)
  have k: "inv u \<Longrightarrow> Ok (u, x, y) = Ok (t, out, f) \<Longrightarrow> inv t" for u x y
    by simp
  show ?thesis
    using e unfolding executeCommand_def Let_def ca prod.case
    by (elim if_eqE) (erule a c v o zp n k[OF i] k[OF inv_counters(4)[OF i]] k[OF inv_counters(5)[OF i]] | simp only: res.distinct)+
qed

end

locale monitor_invariant = monitor_core +
  assumes inv_reads: "inv s \<Longrightarrow> inv (s\<lparr>inotifyReadCnt := k\<rparr>)"
begin

lemma event_loop_inv: "inv s \<Longrightarrow> event_loop w evs ft rs s = Ok t \<Longrightarrow> inv t"
proof (induction w evs ft rs s rule: event_loop.induct)
  case (2 w ev rest ft rs s)
  obtain c u where p: "processNextInotifyEvent w ev rest ft s = Ok (c, u)"
    using 2(6) by (cases "processNextInotifyEvent w ev rest ft s") (auto split: prod.splits)
  have u: "inv u" using processNext_inv[OF 2(5) p] .
  let ?u = "u\<lparr>inotifyReadCnt := Suc (inotifyReadCnt u)\<rparr>"
  have u': "inv ?u" using inv_reads[OF u] .
  show ?case
  proof (cases c)
    case (Events n)
    then show ?thesis using 2(1)[OF p] 2(6) p u by simp
  next
    case All_events
    then show ?thesis using 2(6) p u by simp
  next
    case More
    show ?thesis
    proof (cases rs)
      case Nil
      then show ?thesis using 2(2)[OF p] More 2(6) p u' by simp
    next
      case (Cons r rs')
      show ?thesis
      proof (cases r)
        case (Inl e)
        then show ?thesis using 2(3)[OF p] More Cons 2(6) p u' by (auto split: if_splits)
      next
        case (Inr es)
        then show ?thesis using 2(4)[OF p] More Cons 2(6) p u' by (auto split: if_splits)
      qed
    qed
  qed
qed simp

lemma processInotifyEvents_inv: "inv s \<Longrightarrow> processInotifyEvents w got rs s = Ok t \<Longrightarrow> inv t"
  by (auto simp: processInotifyEvents_def split: sum.splits if_splits dest: event_loop_inv[OF inv_reads])

end

section \<open>The cache is well-formed\<close>

text \<open>
  A slot is empty or holds a descriptor that was given out, no descriptor is in two slots, and the
  kernel's watches are one per directory.
\<close>

definition slot_ok :: "int \<Rightarrow> watch \<Rightarrow> bool" where
  "slot_ok n e \<longleftrightarrow> e = empty_watch \<or> 1 \<le> wd e \<and> wd e < n"

definition used_wds :: "watch list \<Rightarrow> int list" where
  "used_wds ws = filter (\<lambda>n. 0 \<le> n) (map wd ws)"

definition dt_ok :: "dt \<Rightarrow> bool" where
  "dt_ok s \<longleftrightarrow> 1 \<le> next_wd s \<and> distinct (map fst (watches s)) \<and> distinct (map snd (watches s)) \<and>
     list_all (\<lambda>n. 1 \<le> n \<and> n < next_wd s) (map snd (watches s)) \<and>
     list_all (slot_ok (next_wd s)) (wlCache s) \<and> distinct (used_wds (wlCache s))"

lemma empty_watch_simps [simp]: "wd empty_watch = -1" "path empty_watch = []" "0 < ALLOC_INCR"
  by (simp_all add: empty_watch_def ALLOC_INCR_def)

lemma find_slot_None: "find_slot P ws = None \<longleftrightarrow> list_all (\<lambda>e. \<not> P e) ws"
  by (auto simp: find_slot_def find_None_iff list_all_length)

lemma find_slot_Some: "find_slot P ws = Some j \<Longrightarrow> j < length ws \<and> P (ws ! j) \<and> (\<forall>i<j. \<not> P (ws ! i))"
  by (auto simp: find_slot_def find_Some_iff)

lemma used_wds_simps [simp]: "used_wds [] = []" "used_wds (e # ws) = (if 0 \<le> wd e then wd e # used_wds ws else used_wds ws)"
    "used_wds (us @ ws) = used_wds us @ used_wds ws" "used_wds (replicate k empty_watch) = []"
  by (simp_all add: used_wds_def)

lemma used_wds_update: "j < length ws \<Longrightarrow> used_wds (ws[j := e]) = used_wds (take j ws) @ used_wds [e] @ used_wds (drop (Suc j) ws)"
  by (simp add: upd_conv_take_nth_drop)

lemma used_wds_at: "j < length ws \<Longrightarrow> used_wds ws = used_wds (take j ws) @ used_wds [ws ! j] @ used_wds (drop (Suc j) ws)"
  using used_wds_update[of j ws "ws ! j"] by simp

lemma distinct_used_clear: "distinct (used_wds ws) \<Longrightarrow> distinct (used_wds (ws[j := empty_watch]))"
proof (cases "j < length ws")
  case True
  then show "distinct (used_wds ws) \<Longrightarrow> distinct (used_wds (ws[j := empty_watch]))"
    using used_wds_at[OF True] by (simp add: used_wds_update split: if_splits)
qed (simp add: list_update_beyond)

lemma distinct_used_fill:
  assumes "distinct (used_wds ws)" "n \<notin> set (used_wds ws)" "j < length ws" "wd (ws ! j) = -1"
  shows "distinct (used_wds (ws[j := \<lparr>wd = n, path = p\<rparr>]))"
  using assms used_wds_at[of j ws] by (auto simp: used_wds_update)

lemma list_all_update: "list_all P ws \<Longrightarrow> P e \<Longrightarrow> list_all P (ws[j := e])"
  using set_update_subset_insert[of ws j e] by (auto simp: list_all_iff)

lemma slot_ok_empty [simp]: "slot_ok n empty_watch"
  by (simp add: slot_ok_def)

lemma findWatch_fresh: "findWatch s n = None \<Longrightarrow> n \<notin> set (used_wds (wlCache s))"
  by (auto simp: findWatch_def find_slot_None used_wds_def list_all_iff)

lemma empty_slot_ok:
  assumes "findEmptyCacheSlot s = (j, t)"
  shows "j < length (wlCache t)" "wd (wlCache t ! j) = -1" "used_wds (wlCache t) = used_wds (wlCache s)"
    "list_all (slot_ok n) (wlCache s) \<Longrightarrow> list_all (slot_ok n) (wlCache t)"
proof -
  have "j < length (wlCache t) \<and> wd (wlCache t ! j) = -1 \<and> used_wds (wlCache t) = used_wds (wlCache s) \<and>
      (list_all (slot_ok n) (wlCache s) \<longrightarrow> list_all (slot_ok n) (wlCache t))"
  proof (cases "find_slot (\<lambda>e. wd e = -1) (wlCache s)")
    case None
    then have "j = length (wlCache s)" "wlCache t = wlCache s @ replicate ALLOC_INCR empty_watch"
      using assms by (auto simp: findEmptyCacheSlot_def)
    then show ?thesis by (simp add: nth_append list_all_iff)
  next
    case (Some i)
    then show ?thesis using assms find_slot_Some[OF Some] by (simp add: findEmptyCacheSlot_def)
  qed
  then show "j < length (wlCache t)" "wd (wlCache t ! j) = -1" "used_wds (wlCache t) = used_wds (wlCache s)"
    "list_all (slot_ok n) (wlCache s) \<Longrightarrow> list_all (slot_ok n) (wlCache t)" by auto
qed

lemma dt_ok_update [simp]:
  "dt_ok (s\<lparr>dirCnt := k\<rparr>) = dt_ok s" "dt_ok (s\<lparr>inotifyReadCnt := k\<rparr>) = dt_ok s" "dt_ok (s\<lparr>overflowCnt := k\<rparr>) = dt_ok s"
  "dt_ok (s\<lparr>logfile := l\<rparr>) = dt_ok s" "dt_ok (s\<lparr>checkCache := b\<rparr>) = dt_ok s" "dt_ok (s\<lparr>dumpCache := b\<rparr>) = dt_ok s"
  "dt_ok (s\<lparr>verboseMask := v\<rparr>) = dt_ok s" "dt_ok (s\<lparr>rootDirPaths := r, ignoreRootDirs := k\<rparr>) = dt_ok s"
  "dt_ok (freeCache (s\<lparr>reinitCnt := k, watches := [], next_wd := 1\<rparr>))"
  by (simp_all add: dt_ok_def freeCache_def)

lemma list_all_filter: "list_all P xs \<Longrightarrow> list_all P (filter Q xs)"
  by (simp add: list_all_iff)

lemma slot_ok_mono: "slot_ok n e \<Longrightarrow> n \<le> m \<Longrightarrow> slot_ok m e"
  by (auto simp: slot_ok_def)

lemma add_watch_ok: "dt_ok s \<Longrightarrow> inotify_add_watch w p s = (r, t) \<Longrightarrow> dt_ok t"
proof -
  assume ok: "dt_ok s" and a: "inotify_add_watch w p s = (r, t)"
  show ?thesis
  proof (cases "t = s")
    case False
    then obtain d where t: "t = s\<lparr>watches := (d, next_wd s) # watches s, next_wd := next_wd s + 1\<rparr>" "map_of (watches s) d = None"
      using a by (auto simp: inotify_add_watch_def split: option.splits if_splits)
    have "next_wd s \<notin> snd ` set (watches s)" using ok by (auto simp: dt_ok_def list_all_iff)
    moreover have "list_all (\<lambda>n. 1 \<le> n \<and> n < next_wd s + 1) (map snd (watches s))"
      using ok unfolding dt_ok_def by (elim conjE) (erule list.pred_mono_strong, simp)
    moreover have "list_all (slot_ok (next_wd s + 1)) (wlCache s)"
      using ok unfolding dt_ok_def by (auto elim!: list.pred_mono_strong slot_ok_mono)
    ultimately show ?thesis using ok t by (simp add: dt_ok_def map_of_eq_None_iff)
  qed (use ok in simp)
qed

lemma cache_ok:
  assumes ok: "dt_ok s" and fr: "findWatch s n = None" and n: "n \<in> snd ` set (watches s)"
  shows "dt_ok (snd (addWatchToCache n p s))"
proof -
  obtain j t where jt: "findEmptyCacheSlot s = (j, t)" by (cases "findEmptyCacheSlot s")
  note e = empty_slot_ok[OF jt]
  have w: "watches t = watches s" "next_wd t = next_wd s"
    using jt by (auto simp: findEmptyCacheSlot_def split: option.splits)
  have "distinct (used_wds ((wlCache t)[j := \<lparr>wd = n, path = take PATH_MAX p\<rparr>]))"
    using distinct_used_fill[OF _ _ e(1,2)] ok findWatch_fresh[OF fr] e(3) by (simp add: dt_ok_def)
  moreover have "list_all (slot_ok (next_wd s)) ((wlCache t)[j := \<lparr>wd = n, path = take PATH_MAX p\<rparr>])"
    using ok n e(4) by (intro list_all_update) (auto simp: dt_ok_def slot_ok_def list_all_iff)
  ultimately show ?thesis using ok jt w by (simp add: addWatchToCache_def dt_ok_def)
qed

lemma mark_ok: "dt_ok s \<Longrightarrow> dt_ok (markCacheSlotEmpty j s)"
  by (simp add: markCacheSlotEmpty_def dt_ok_def distinct_used_clear list_all_update)

lemma rm_watch_ok: "dt_ok s \<Longrightarrow> inotify_rm_watch n s = (r, t) \<Longrightarrow> dt_ok t"
  by (auto simp: inotify_rm_watch_def dt_ok_def distinct_map_filter list.pred_map split: if_splits
      elim!: list_all_filter)

lemma strncmp_eq_prefix: "strncmp_eq p q (length p) \<longleftrightarrow> (\<exists>r. q = p @ r)"
  by (simp add: strncmp_eq_take) (metis append_eq_conv_conj append_take_drop_id)

lemma path_under_iff: "path_under p q \<longleftrightarrow> q = p \<or> (\<exists>r. q = p @ ''/'' @ r)"
proof
  assume "path_under p q"
  then obtain r where q: "q = p @ r" "r = [] \<or> 0 < length r \<and> r ! 0 = CHR ''/''"
    by (auto simp: path_under_def strncmp_eq_prefix nth_append)
  then show "q = p \<or> (\<exists>r. q = p @ ''/'' @ r)" by (cases r) auto
qed (auto simp: path_under_def strncmp_eq_prefix nth_append)

lemma rewrite_ok: "dt_ok s \<Longrightarrow> dt_ok (rewriteCachedPaths a b c d s)"
proof -
  assume ok: "dt_ok s"
  define f where "f = (\<lambda>e::watch. if path_under (snprintf_path PATH_MAX (a @ ''/'' @ b)) (path e)
    then e\<lparr>path := snprintf_path PATH_MAX (snprintf_path PATH_MAX (c @ ''/'' @ d) @
      drop (length (snprintf_path PATH_MAX (a @ ''/'' @ b))) (path e))\<rparr> else e)"
  have wd: "wd (f e) = wd e" for e by (simp add: f_def)
  have ne: "snprintf_path PATH_MAX (a @ ''/'' @ b) \<noteq> []" by (simp add: snprintf_path_def PATH_MAX_def)
  have em: "f empty_watch = empty_watch" using ne by (auto simp: f_def path_under_iff)
  have "used_wds (map f (wlCache s)) = used_wds (wlCache s)" by (simp add: used_wds_def wd comp_def)
  moreover have "list_all (slot_ok n) (map f ws) = list_all (slot_ok n) ws" if "list_all (slot_ok n) ws" for n ws
    using that em wd by (auto simp: list_all_iff slot_ok_def)
  moreover have "rewriteCachedPaths a b c d s = s\<lparr>wlCache := map f (wlCache s)\<rparr>"
    unfolding rewriteCachedPaths_def f_def Let_def by (rule refl)
  ultimately show ?thesis using ok by (simp add: dt_ok_def)
qed

lemma zap_root_eq:
  "zapRootDirPath p s = Ok t \<Longrightarrow> \<exists>j<length (rootDirPaths s). rootDirPaths s ! j = Some p \<and>
     t = s\<lparr>rootDirPaths := (rootDirPaths s)[j := None], ignoreRootDirs := Suc (ignoreRootDirs s)\<rparr> \<and>
     Suc (ignoreRootDirs s) \<noteq> length (rootDirPaths s)"
  by (auto simp: zapRootDirPath_def findRootDirPath_def Let_def find_Some_iff split: option.splits if_splits)

interpretation cache_inv: monitor_invariant dt_ok
proof
  show "dt_ok s \<Longrightarrow> zapRootDirPath p s = Ok t \<Longrightarrow> dt_ok t" for s p t
    by (drule zap_root_eq) auto
qed (blast intro: add_watch_ok cache_ok mark_ok rm_watch_ok rewrite_ok dt_ok_update(9) dt_ok_update(1-8)[THEN iffD2])+

section \<open>Some root directory is always monitored\<close>

definition roots_ok :: "dt \<Rightarrow> bool" where
  "roots_ok s \<longleftrightarrow> ignoreRootDirs s = count_list (rootDirPaths s) None \<and> ignoreRootDirs s < length (rootDirPaths s)"

lemma roots_ok_cong: "rootDirPaths t = rootDirPaths s \<Longrightarrow> ignoreRootDirs t = ignoreRootDirs s \<Longrightarrow> roots_ok s \<Longrightarrow> roots_ok t"
  by (simp add: roots_ok_def)

lemma count_list_update_None:
  "j < length xs \<Longrightarrow> xs ! j = Some p \<Longrightarrow> count_list (xs[j := None]) None = Suc (count_list xs None)"
  by (induction xs arbitrary: j) (auto simp: nth_Cons split: nat.splits)

lemma cache_keeps_roots: "rootDirPaths (snd (addWatchToCache n p s)) = rootDirPaths s"
    "ignoreRootDirs (snd (addWatchToCache n p s)) = ignoreRootDirs s"
  by (simp_all add: addWatchToCache_def findEmptyCacheSlot_def split: option.splits)

interpretation roots_inv: monitor_invariant roots_ok
proof
  show "roots_ok t" if i: "roots_ok s" and z: "zapRootDirPath p s = Ok t" for s p t
  proof -
    have "count_list (rootDirPaths s) None \<le> length (rootDirPaths s)" by (rule count_le_length)
    then show ?thesis using i zap_root_eq[OF z] by (auto simp: roots_ok_def count_list_update_None)
  qed
  show "roots_ok t" if i: "roots_ok s" and z: "inotify_add_watch w p s = (r, t)" for s w p r t
    using z by (intro roots_ok_cong[OF _ _ i]) (auto simp: inotify_add_watch_def split: option.splits if_splits)
  show "roots_ok t" if i: "roots_ok s" and z: "inotify_rm_watch n s = (r, t)" for s n r t
    using z by (intro roots_ok_cong[OF _ _ i]) (auto simp: inotify_rm_watch_def split: if_splits)
qed (auto intro: roots_ok_cong simp: cache_keeps_roots markCacheSlotEmpty_def rewriteCachedPaths_def freeCache_def Let_def)

lemma copy_roots_length: "copy_roots w ps seen = Ok l \<Longrightarrow> l = map Some ps"
  by (induction ps arbitrary: seen l) (auto elim!: bind_res_OkE split: option.splits if_splits)

lemma start_ok:
  assumes "dtree_start w fo opts argv s = Ok t"
  shows "dt_ok t \<and> roots_ok t"
proof -
  obtain s1 s2 where a: "argv \<noteq> []" "copyRootDirPaths w argv s1 = Ok s2" "reinitialize w True s2 = Ok t"
    using assms by (auto simp: dtree_start_def elim!: bind_res_OkE if_eqE)
  then have "rootDirPaths s2 = map Some argv" "ignoreRootDirs s2 = 0"
    by (auto simp: copyRootDirPaths_def elim!: bind_res_OkE dest: copy_roots_length)
  moreover have "count_list (map Some argv) None = 0" by (induction argv) auto
  ultimately have "roots_ok s2" using a(1) by (simp add: roots_ok_def)
  then have "roots_ok t" using a(3) by (rule roots_inv.reinitialize_inv)
  moreover have "dt_ok t"
    using a(3) cache_inv.watch_roots_inv[OF dt_ok_update(9)] unfolding reinitialize_def Let_def by blast
  ultimately show ?thesis by blast
qed

lemma monitoring_ok: "monitoring s \<Longrightarrow> dt_ok s \<and> roots_ok s"
proof (induction rule: monitoring.induct)
  case (started w fo opts argv s t)
  then show ?case by (rule start_ok)
next
  case (command s w fo input t out f)
  then show ?case using cache_inv.executeCommand_inv roots_inv.executeCommand_inv by blast
next
  case (events s w got reads t)
  then show ?case using cache_inv.processInotifyEvents_inv roots_inv.processInotifyEvents_inv by blast
qed

text \<open>No handler of an event counts reads; only the loop does.\<close>

lemma keeps_reads:
  "inotifyReadCnt (snd (addWatchToCache n p s)) = inotifyReadCnt s"
  "inotify_add_watch w p s = (r, t) \<Longrightarrow> inotifyReadCnt t = inotifyReadCnt s"
  "inotify_rm_watch n s = (q, t) \<Longrightarrow> inotifyReadCnt t = inotifyReadCnt s"
  by (auto simp: addWatchToCache_def findEmptyCacheSlot_def inotify_add_watch_def inotify_rm_watch_def
      split: option.splits if_splits)

interpretation reads_kept: monitor_core "\<lambda>s. inotifyReadCnt s = k" for k
proof
  show "inotifyReadCnt s = k \<Longrightarrow> zapRootDirPath p s = Ok t \<Longrightarrow> inotifyReadCnt t = k" for s p t
    by (drule zap_root_eq) auto
qed (auto simp: keeps_reads markCacheSlotEmpty_def rewriteCachedPaths_def freeCache_def Let_def)

definition incoming :: "(errno + inotify_event list) list \<Rightarrow> nat" where
  "incoming reads = sum_list (map (case_sum (\<lambda>_. 0) length) reads)"

lemma incoming_simps [simp]: "incoming [] = 0" "incoming (Inl e # rs) = incoming rs" "incoming (Inr es # rs) = length es + incoming rs"
  by (simp_all add: incoming_def)

lemma event_loop_reads:
  "event_loop w evs ft rs s = Ok t \<Longrightarrow>
   inotifyReadCnt t + (if ft \<or> evs = [] then 0 else 1) \<le> inotifyReadCnt s + length evs + incoming rs"
proof (induction w evs ft rs s rule: event_loop.induct)
  case (2 w ev rest ft rs s)
  obtain c u where p: "processNextInotifyEvent w ev rest ft s = Ok (c, u)"
    using 2(5) by (cases "processNextInotifyEvent w ev rest ft s") (auto split: prod.splits)
  have u: "inotifyReadCnt u = inotifyReadCnt s" using reads_kept.processNext_inv[OF refl p] .
  have cs: "consumes c rest ft" using processNext_consumed[OF p] .
  show ?case
  proof (cases c)
    case (Events n)
    then show ?thesis using 2(1)[OF p] 2(5) p u cs by (auto simp: consumes_def)
  next
    case All_events
    then show ?thesis using 2(5) p u by simp
  next
    case More
    have ft: "ft" "rest = []" using cs More by (auto simp: consumes_def)
    show ?thesis
    proof (cases rs)
      case Nil
      then show ?thesis using 2(2)[OF p] More 2(5) p u ft by simp
    next
      case (Cons r rs')
      show ?thesis
      proof (cases r)
        case (Inl e)
        then show ?thesis using 2(3)[OF p] More Cons 2(5) p u ft by (auto split: if_splits)
      next
        case (Inr es)
        have "es \<noteq> [] \<and> event_loop w (ev # rest @ es) False rs' (u\<lparr>inotifyReadCnt := Suc (inotifyReadCnt u)\<rparr>) = Ok t"
          using 2(5) p More Cons Inr event_loop.simps(2)[of w ev rest ft "Inr es # rs'" s]
          by (simp del: event_loop.simps split: if_splits)
        then show ?thesis using 2(4)[OF p refl More refl Cons Inr] u ft Cons Inr by (simp del: event_loop.simps)
      qed
    qed
  qed
qed simp

lemma processInotifyEvents_reads:
  "processInotifyEvents w (Inr evs) reads s = Ok t \<Longrightarrow>
   inotifyReadCnt t \<le> Suc (inotifyReadCnt s) + length evs + incoming reads"
  by (auto simp: processInotifyEvents_def split: if_splits dest: event_loop_reads)

section \<open>Renaming and removing\<close>

lemma path_under_prefix: "path_under p q \<longleftrightarrow> q = p \<or> prefix (p @ ''/'') q"
  by (auto simp: path_under_iff prefix_def)

lemma rewrite_subtree:
  assumes "length old < PATH_MAX" and "old = a @ ''/'' @ b" and "new = c @ ''/'' @ d"
    and "list_all (\<lambda>e. length new + length (path e) < PATH_MAX) (wlCache s)" and "length new < PATH_MAX"
  shows "rewriteCachedPaths a b c d s = s\<lparr>wlCache :=
    map (\<lambda>e. if path e = old \<or> prefix (old @ ''/'') (path e) then e\<lparr>path := new @ drop (length old) (path e)\<rparr> else e) (wlCache s)\<rparr>"
proof -
  have o: "snprintf_path PATH_MAX (a @ ''/'' @ b) = old" "snprintf_path PATH_MAX (c @ ''/'' @ d) = new"
    using assms by (simp_all add: snprintf_path_def)
  have "snprintf_path PATH_MAX (new @ drop (length old) (path e)) = new @ drop (length old) (path e)" if "e \<in> set (wlCache s)" for e
  proof -
    have "length new + length (path e) < PATH_MAX" using that assms(4) by (simp add: list_all_iff)
    then show ?thesis by (simp add: snprintf_path_def)
  qed
  then show ?thesis unfolding rewriteCachedPaths_def Let_def o path_under_prefix by (simp cong: map_cong)
qed

text \<open>Removing a subtree whose watches the kernel has.\<close>

definition under :: "string \<Rightarrow> watch \<Rightarrow> bool" where
  "under p e \<longleftrightarrow> 0 \<le> wd e \<and> (path e = p \<or> prefix (p @ ''/'') (path e))"

lemma under_iff: "0 \<le> wd e \<and> path_under p (path e) \<longleftrightarrow> under p e"
  by (simp add: under_def path_under_prefix)

lemma zap_loop_exact:
  assumes "distinct (used_wds (wlCache s))"
    and "list_all (\<lambda>e. under pn e \<longrightarrow> wd e \<in> snd ` set (watches s)) (drop j (wlCache s))"
  shows "zap_loop pn j cnt s =
    (Some (cnt + length (filter (under pn) (drop j (wlCache s)))),
     s\<lparr>wlCache := take j (wlCache s) @ map (\<lambda>e. if under pn e then empty_watch else e) (drop j (wlCache s)),
       watches := filter (\<lambda>x. snd x \<notin> wd ` set (filter (under pn) (drop j (wlCache s)))) (watches s)\<rparr>)"
  using assms
proof (induction pn j cnt s rule: zap_loop.induct)
  case (1 pn j cnt s)
  show ?case
  proof (cases "j < length (wlCache s)")
    case False
    then show ?thesis by (subst zap_loop.simps) (simp add: filter_True)
  next
    case True
    define e where "e = wlCache s ! j"
    have d: "drop j (wlCache s) = e # drop (Suc j) (wlCache s)" using True by (simp add: e_def Cons_nth_drop_Suc)
    have tk: "take (Suc j) (wlCache s) = take j (wlCache s) @ [e]" using True by (simp add: e_def take_Suc_conv_app_nth)
    show ?thesis
    proof (cases "under pn e")
      case False
      then have "zap_loop pn j cnt s = zap_loop pn (Suc j) cnt s"
        using True by (subst zap_loop.simps) (simp add: e_def[symmetric] under_iff)
      then show ?thesis using 1(2)[OF True refl] 1(3,4) False d tk by (simp add: e_def[symmetric] under_iff)
    next
      case u: True
      define s1 where "s1 = s\<lparr>watches := filter (\<lambda>x. snd x \<noteq> wd e) (watches s)\<rparr>"
      define s2 where "s2 = markCacheSlotEmpty j s1"
      have rm: "inotify_rm_watch (wd e) s = (Inr (), s1)"
        using 1(4) u d by (simp add: inotify_rm_watch_def s1_def)
      have dr: "drop (Suc j) (wlCache s2) = drop (Suc j) (wlCache s)" "take (Suc j) (wlCache s2) = take j (wlCache s) @ [empty_watch]"
        using True by (simp_all add: s2_def s1_def markCacheSlotEmpty_def take_Suc_conv_app_nth)
      have w2: "snd ` set (watches s2) = snd ` set (watches s) - {wd e}"
        by (auto simp: s2_def s1_def markCacheSlotEmpty_def)
      have "wd x \<noteq> wd e" if "x \<in> set (drop (Suc j) (wlCache s))" for x
        using used_wds_at[OF True] 1(3) u imageI[OF that, of wd] by (auto simp: e_def[symmetric] under_def used_wds_def)
      then have la: "list_all (\<lambda>x. under pn x \<longrightarrow> wd x \<in> snd ` set (watches s2)) (drop (Suc j) (wlCache s2))"
        using 1(4) w2 unfolding dr(1) d by (simp add: list_all_iff)
      have "zap_loop pn j cnt s = zap_loop pn (Suc j) (Suc cnt) s2"
        using True u rm by (subst zap_loop.simps) (simp add: e_def[symmetric] under_iff s2_def)
      also have "\<dots> = (Some (Suc cnt + length (filter (under pn) (drop (Suc j) (wlCache s2)))),
         s2\<lparr>wlCache := take (Suc j) (wlCache s2) @ map (\<lambda>e. if under pn e then empty_watch else e) (drop (Suc j) (wlCache s2)),
         watches := filter (\<lambda>x. snd x \<notin> wd ` set (filter (under pn) (drop (Suc j) (wlCache s2)))) (watches s2)\<rparr>)"
        using 1(1)[OF True refl] u rm la distinct_used_clear[OF 1(3), of j]
        by (simp add: e_def[symmetric] under_iff s2_def s1_def markCacheSlotEmpty_def)
      finally show ?thesis
        using u d by (simp add: dr) (simp add: s2_def s1_def markCacheSlotEmpty_def conj_commute)
    qed
  qed
qed

lemma zapSubtree_exact:
  assumes "distinct (used_wds (wlCache s))" "list_all (\<lambda>e. under p e \<longrightarrow> wd e \<in> snd ` set (watches s)) (wlCache s)"
  shows "zapSubtree p s =
    (Some (length (filter (under p) (wlCache s))),
     s\<lparr>wlCache := map (\<lambda>e. if under p e then empty_watch else e) (wlCache s),
       watches := filter (\<lambda>x. snd x \<notin> wd ` set (filter (under p) (wlCache s))) (watches s)\<rparr>)"
  using zap_loop_exact[of s p 0 0] assms by (simp add: zapSubtree_def)

section \<open>What a traversal covers\<close>

definition covered :: "(nat \<times> nat) \<Rightarrow> dt \<Rightarrow> bool" where
  "covered d s \<longleftrightarrow> (case map_of (watches s) d of None \<Rightarrow> False | Some n \<Rightarrow> n \<in> wd ` set (wlCache s))"

lemma set_update_keeps: "j < length xs \<Longrightarrow> insert n (set xs - {xs ! j}) \<subseteq> set (xs[j := n])"
  by (induction xs arbitrary: j) (auto simp: nth_Cons split: nat.splits)

lemma covered_dirCnt [simp]: "covered d (s\<lparr>dirCnt := k\<rparr>) = covered d s"
  by (simp add: covered_def split: option.split)

lemma added_slots:
  "insert n (wd ` set (wlCache s) - {-1}) \<subseteq> wd ` set (wlCache (snd (addWatchToCache n p s)))"
proof -
  obtain j t where jt: "findEmptyCacheSlot s = (j, t)" by (cases "findEmptyCacheSlot s")
  note e = empty_slot_ok(1,2)[OF jt]
  have sub: "set (map wd (wlCache s)) \<subseteq> set (map wd (wlCache t))"
    using jt by (auto simp: findEmptyCacheSlot_def split: option.splits)
  have "insert n (set (map wd (wlCache t)) - {-1}) \<subseteq> set ((map wd (wlCache t))[j := n])"
    using e set_update_keeps[of j "map wd (wlCache t)" n] by simp
  also have "(map wd (wlCache t))[j := n] = map wd (wlCache (snd (addWatchToCache n p s)))"
    using jt by (simp add: addWatchToCache_def map_update)
  finally have *: "insert n (set (map wd (wlCache t)) - {-1}) \<subseteq> set (map wd (wlCache (snd (addWatchToCache n p s))))" .
  have "insert n (set (map wd (wlCache s)) - {-1}) \<subseteq> insert n (set (map wd (wlCache t)) - {-1})"
    using sub by blast
  from order_trans[OF this *] show ?thesis by simp
qed

lemma map_of_add_watch: "inotify_add_watch w q s = (r, t) \<Longrightarrow> map_of (watches s) d = Some n \<Longrightarrow> map_of (watches t) d = Some n"
  by (auto simp: inotify_add_watch_def split: option.splits if_splits)

lemma findWatch_in: "findWatch s n \<noteq> None \<Longrightarrow> n \<in> wd ` set (wlCache s)"
  by (auto simp: findWatch_def dest!: find_slot_Some)

lemma add_watch_result:
  "inotify_add_watch w q s = (Inr n, t) \<Longrightarrow> dir_at w q = Some d \<Longrightarrow> map_of (watches t) d = Some n"
  "inotify_add_watch w q s = (Inl e, t) \<Longrightarrow> dir_at w q = Some d \<Longrightarrow> e = ENOSPC"
  "inotify_add_watch w q s = (r, t) \<Longrightarrow> wlCache t = wlCache s"
  by (auto simp: inotify_add_watch_def split: option.splits if_splits)

lemma cache_keeps_watches: "watches (snd (addWatchToCache n p s)) = watches s"
  by (simp add: addWatchToCache_def findEmptyCacheSlot_def split: option.splits)

lemma traverse_covers:
  assumes t: "traverseTree w (q, b) s = Ok t"
  shows "b \<Longrightarrow> dir_at w q = Some d \<Longrightarrow> covered d t" and "dt_ok s \<Longrightarrow> covered d s \<Longrightarrow> covered d t"
proof -
  obtain r u where a: "inotify_add_watch w q s = (r, u)" by (cases "inotify_add_watch w q s")
  show "covered d t" if "b" "dir_at w q = Some d"
  proof (cases r)
    case (Inl e)
    then have "e = ENOSPC" using a that(2) add_watch_result(2) by blast
    then show ?thesis using t a that Inl by (simp add: traverseTree_def)
  next
    case (Inr n)
    have m: "map_of (watches u) d = Some n" using a Inr that(2) add_watch_result(1) by blast
    show ?thesis
    proof (cases "findWatch u n = None")
      case True
      then have "t = snd (addWatchToCache n q (u\<lparr>dirCnt := Suc (dirCnt u)\<rparr>))" using t a Inr that by (simp add: traverseTree_def)
      then show ?thesis using m added_slots[of n "u\<lparr>dirCnt := Suc (dirCnt u)\<rparr>" q] by (simp add: covered_def cache_keeps_watches)
    next
      case False
      then have "t = u" using t a Inr that by (simp add: traverseTree_def)
      then show ?thesis using m findWatch_in[OF False] by (simp add: covered_def)
    qed
  qed
  show "covered d t" if ok: "dt_ok s" and c: "covered d s"
  proof -
    obtain n where n: "map_of (watches s) d = Some n" "n \<in> wd ` set (wlCache s)"
      using c by (auto simp: covered_def split: option.splits)
    have "1 \<le> n" using map_of_SomeD[OF n(1)] ok by (force simp: dt_ok_def list_all_iff)
    have u: "map_of (watches u) d = Some n" "n \<in> wd ` set (wlCache u)"
      using n map_of_add_watch[OF a] add_watch_result(3)[OF a] by auto
    then have "t = s \<or> t = u \<or> (\<exists>m. t = snd (addWatchToCache m q (u\<lparr>dirCnt := Suc (dirCnt u)\<rparr>)))"
      using t a by (auto simp: traverseTree_def split: if_splits sum.splits)
    then show ?thesis
    proof (elim disjE exE)
      fix m assume "t = snd (addWatchToCache m q (u\<lparr>dirCnt := Suc (dirCnt u)\<rparr>))"
      then show ?thesis using u \<open>1 \<le> n\<close> added_slots[of m "u\<lparr>dirCnt := Suc (dirCnt u)\<rparr>" q]
        by (auto simp: covered_def cache_keeps_watches)
    qed (use c u in \<open>auto simp: covered_def\<close>)
  qed
qed

lemma traverse_all_covers:
  "traverse_all w vs s = Ok t \<Longrightarrow> dt_ok s \<Longrightarrow> covered d s \<or> (q, True) \<in> set vs \<and> dir_at w q = Some d \<Longrightarrow> covered d t"
proof (induction vs arbitrary: s)
  case (Cons v vs)
  obtain p b where v: "v = (p, b)" by (cases v)
  obtain u where u: "traverseTree w (p, b) s = Ok u" "traverse_all w vs u = Ok t"
    using Cons.prems(1) v by (auto elim: bind_res_OkE)
  have "dt_ok u" using cache_inv.traverse_inv[OF Cons.prems(2) u(1)] .
  moreover have "covered d u \<or> (q, True) \<in> set vs \<and> dir_at w q = Some d"
    using Cons.prems(2,3) traverse_covers[OF u(1), of d] v by auto
  ultimately show ?case using Cons.IH[OF u(2)] by blast
qed simp

lemma watch_roots_covers:
  "watch_roots w rs s = Ok t \<Longrightarrow> dt_ok s \<Longrightarrow>
   covered d s \<or> Some p \<in> set rs \<and> nftw w p = Some vs \<and> (q, True) \<in> set vs \<and> dir_at w q = Some d \<Longrightarrow> covered d t"
proof (induction w rs s rule: watch_roots.induct)
  case (3 w r rs s)
  obtain u where u: "watchSubtree w r s = Ok u" "watch_roots w rs u = Ok t"
    using 3(2) by (auto elim: bind_res_OkE)
  have ok: "dt_ok u" using cache_inv.watchSubtree_inv[OF 3(3) u(1)] .
  have "covered d u" if "covered d s \<or> p = r \<and> nftw w p = Some vs \<and> (q, True) \<in> set vs \<and> dir_at w q = Some d"
  proof (cases "nftw w r")
    case None
    then show ?thesis using u(1) that by (auto simp: watchSubtree_def watchDir_def)
  next
    case (Some ws)
    then have "traverse_all w ws (s\<lparr>dirCnt := 0\<rparr>) = Ok u" using u(1) by (simp add: watchSubtree_def watchDir_def)
    then show ?thesis using that Some 3(3) traverse_all_covers[of w ws "s\<lparr>dirCnt := 0\<rparr>" u d q] by auto
  qed
  then show ?case using 3(1)[OF u(2) ok] 3(4) by auto
qed auto

lemma reinitialize_covers:
  assumes "reinitialize w e s = Ok t" "Some p \<in> set (rootDirPaths s)" "nftw w p = Some vs" "(q, True) \<in> set vs" "dir_at w q = Some d"
  shows "covered d t"
  using assms(1) unfolding reinitialize_def Let_def
  by (rule watch_roots_covers[OF _ dt_ok_update(9)]) (use assms in \<open>auto simp: freeCache_def\<close>)

text \<open>
  The cache check looks at the file type in the branch for unused slots, with what the previous
  \<^verbatim>\<open>lstat\<close> has left: nothing, when the first slot is unused.
\<close>

lemma check_reads_indeterminate: "wlCache s = e # es \<Longrightarrow> wd e < 0 \<Longrightarrow> checkCacheConsistency w s = Undefined"
  by (simp add: checkCacheConsistency_def)

section \<open>Properties\<close>

text \<open>A file system with one directory, and a monitor before its start and with a small cache.\<close>

definition one_dir :: world where
  "one_dir = \<lparr>nftw = (\<lambda>p. if p = ''r'' then Some [(''r/f'', False), (''r'', True)] else None),
     dir_at = (\<lambda>p. if p = ''r'' then Some (8, 2) else None),
     lstat = (\<lambda>p. if p = ''r'' then Some True else None), max_watches = 10\<rparr>"

definition idle :: dt where
  "idle = \<lparr>wlCache = [], rootDirPaths = [], ignoreRootDirs = 0, watches = [], next_wd = 1, dirCnt = 0, reinitCnt = 0,
     inotifyReadCnt = 0, overflowCnt = 0, checkCache = False, dumpCache = False, verboseMask = 0, logfile = None,
     abortOnCacheProblem = False, readBufferSize = 100\<rparr>"

definition small :: dt where
  "small = idle\<lparr>wlCache := [\<lparr>wd = 1, path = ''r''\<rparr>, \<lparr>wd = 2, path = ''r/a''\<rparr>, empty_watch, \<lparr>wd = 3, path = ''r/a/x''\<rparr>, \<lparr>wd = 4, path = ''r/ab''\<rparr>],
     rootDirPaths := [Some ''r''], watches := [((8, 2), 1), ((8, 3), 2), ((8, 4), 3), ((8, 5), 4)], next_wd := 5\<rparr>"

lemmas dtree_eval = one_dir_def idle_def dtree_start_def dtree_defaults_def copyRootDirPaths_def reinitialize_def freeCache_def
  watchSubtree_def watchDir_def traverseTree_def inotify_add_watch_def addWatchToCache_def findEmptyCacheSlot_def
  find_slot_def findWatch_def

lemma one_dir_start:
  "\<exists>t. dtree_start one_dir (\<lambda>_. True) [(CHR ''d'', [])] [''r''] idle = Ok t \<and> rootDirPaths t = [Some ''r'']"
  by (simp add: dtree_eval)

text \<open>
  C3: In every state the main loop of inotify_dtree.c can reach, whatever events, commands and changes
  of the file system came before, each cache slot is empty or holds a descriptor that was given out, no
  descriptor is in two slots, and at least one of the root directories is still monitored, with
  ignoreRootDirs the number of those that are not.
\<close>

theorem monitor_invariant_holds: "monitoring s \<Longrightarrow> dt_ok s \<and> roots_ok s"
  by (rule monitoring_ok)

theorem monitor_invariant_holds_witness: "\<exists>s. monitoring s \<and> rootDirPaths s = [Some ''r''] \<and> dt_ok s \<and> roots_ok s"
  using one_dir_start monitor_invariant_holds monitoring.started by blast



text \<open>
  A rename changes the cached paths of exactly the renamed directory and of what lies below it,
  replacing the old path by the new one; directories whose name merely starts with the old name are
  left alone.
\<close>

theorem rename_rewrites_subtree:
  assumes "length old < PATH_MAX" and "old = a @ ''/'' @ b" and "new = c @ ''/'' @ d"
    and "list_all (\<lambda>e. length new + length (path e) < PATH_MAX) (wlCache s)" and "length new < PATH_MAX"
  shows "rewriteCachedPaths a b c d s = s\<lparr>wlCache :=
    map (\<lambda>e. if path e = old \<or> prefix (old @ ''/'') (path e) then e\<lparr>path := new @ drop (length old) (path e)\<rparr> else e) (wlCache s)\<rparr>"
  using assms by (rule rewrite_subtree)

theorem rename_rewrites_subtree_witness:
  "map path (wlCache (rewriteCachedPaths ''r'' ''a'' ''q'' ''new'' small)) = [''r'', ''q/new'', [], ''q/new/x'', ''r/ab'']"
  by (subst rename_rewrites_subtree[OF _ refl refl]) (simp_all add: small_def PATH_MAX_def)

text \<open>
  Removing a subtree from the monitor empties exactly the slots of the directory and of what lies
  below it, removes exactly their watches, and returns how many they were, provided the kernel still
  has those watches.
\<close>

theorem zap_removes_subtree:
  assumes "distinct (used_wds (wlCache s))" "list_all (\<lambda>e. under p e \<longrightarrow> wd e \<in> snd ` set (watches s)) (wlCache s)"
  shows "zapSubtree p s =
    (Some (length (filter (under p) (wlCache s))),
     s\<lparr>wlCache := map (\<lambda>e. if under p e then empty_watch else e) (wlCache s),
       watches := filter (\<lambda>x. snd x \<notin> wd ` set (filter (under p) (wlCache s))) (watches s)\<rparr>)"
  using assms by (rule zapSubtree_exact)

theorem zap_removes_subtree_witness:
  "fst (zapSubtree ''r/a'' small) = Some 2 \<and> map path (wlCache (snd (zapSubtree ''r/a'' small))) = [''r'', [], [], [], ''r/ab'']
    \<and> map snd (watches (snd (zapSubtree ''r/a'' small))) = [1, 4]"
  by (subst zap_removes_subtree zap_removes_subtree[of small "''r/a''"], simp_all add: small_def under_def)+

definition moved_away :: inotify_event where
  "moved_away = \<lparr>ev_wd = 1, ev_mask = or IN_MOVED_FROM IN_ISDIR, ev_cookie = 7, ev_name = ''a''\<rparr>"

lemma moved_away_run:
  "case processInotifyEvents one_dir (Inr [moved_away]) [Inl EINTR] small of Ok t \<Rightarrow> inotifyReadCnt t = 2 | _ \<Rightarrow> False"
  by code_simp

text \<open>
  One call of processInotifyEvents terminates and reads at most once more than there are events:
  it waits for the second half of a rename at most once for each event.
\<close>

theorem rename_waits_bounded:
  "processInotifyEvents w (Inr evs) reads s = Ok t \<Longrightarrow>
   inotifyReadCnt t \<le> Suc (inotifyReadCnt s) + length evs + incoming reads"
  by (rule processInotifyEvents_reads)

theorem rename_waits_bounded_witness:
  "\<exists>t. processInotifyEvents one_dir (Inr [moved_away]) [Inl EINTR] small = Ok t \<and> inotifyReadCnt t = 2
     \<and> inotifyReadCnt t \<le> Suc (inotifyReadCnt small) + 1"
proof -
  obtain t where t: "processInotifyEvents one_dir (Inr [moved_away]) [Inl EINTR] small = Ok t" "inotifyReadCnt t = 2"
    using moved_away_run by (auto split: res.splits)
  show ?thesis using t rename_waits_bounded[OF t(1)] by (intro exI[of _ t]) simp
qed

end
