(* ===== verification/Thread_Incr.thy ===== *)
theory Thread_Incr
  imports Num_Args Interleave
begin

text \<open>
  Two threads that increment a shared variable: \<^verbatim>\<open>thread_incr.c\<close> without synchronisation and its
  variants with a mutex, a spin lock, a read-write lock and a POSIX semaphore (\<^verbatim>\<open>tlpi-dist/threads\<close> and
  \<^verbatim>\<open>tlpi-dist/psem\<close>).  Reading, adding and storing are separate steps.  A locale states what the code
  relies on in a lock; it is interpreted for the four kinds.
\<close>

section \<open>Locks\<close>

text \<open>Acquiring gives no value when the call blocks.\<close>

definition pthread_mutex_lock :: "bool \<Rightarrow> bool option" where
  "pthread_mutex_lock m = (if m then None else Some True)"

definition pthread_mutex_unlock :: "bool \<Rightarrow> bool" where
  "pthread_mutex_unlock m = False"

definition pthread_spin_lock :: "bool \<Rightarrow> bool option" where
  "pthread_spin_lock m = (if m then None else Some True)"

definition pthread_spin_unlock :: "bool \<Rightarrow> bool" where
  "pthread_spin_unlock m = False"

text \<open>A read-write lock is free, held by a number of readers, or held by a writer.\<close>

datatype rwlock = Readers nat | Writer

definition pthread_rwlock_wrlock :: "rwlock \<Rightarrow> rwlock option" where
  "pthread_rwlock_wrlock l = (if l = Readers 0 then Some Writer else None)"

definition pthread_rwlock_unlock :: "rwlock \<Rightarrow> rwlock" where
  "pthread_rwlock_unlock l = (case l of Readers n \<Rightarrow> Readers (n - 1) | Writer \<Rightarrow> Readers 0)"

definition sem_wait :: "nat \<Rightarrow> nat option" where
  "sem_wait n = (if n = 0 then None else Some (n - 1))"

definition sem_post :: "nat \<Rightarrow> nat" where
  "sem_post n = Suc n"

section \<open>The threads\<close>

text \<open>
  Where a thread is in the body of its loop, with the value of its local variable, and the rounds it
  still has to make.  Adding one to the largest \<^verbatim>\<open>int\<close> is undefined.
\<close>

datatype ipc = Lock | Load | Incr int | Store int | Unlock | Overflow

type_synonym ithread = "ipc \<times> nat"

text \<open>\<^verbatim>\<open>threadFunc\<close> of the locked programs, for the two calls of the lock.\<close>

fun locked_next ::
  "('l \<Rightarrow> 'l option) \<Rightarrow> ('l \<Rightarrow> 'l) \<Rightarrow> ithread \<Rightarrow> int \<times> 'l \<Rightarrow> (ithread \<times> (int \<times> 'l)) option" where
  "locked_next acq rel (Lock, 0) gl = None"
| "locked_next acq rel (Lock, Suc n) (glob, l) = (case acq l of None \<Rightarrow> None | Some m \<Rightarrow> Some ((Load, Suc n), (glob, m)))"
| "locked_next acq rel (Load, n) (glob, l) = Some ((Incr glob, n), (glob, l))"
| "locked_next acq rel (Incr loc, n) gl = Some (if loc = INT_MAX then (Overflow, n) else (Store (loc + 1), n), gl)"
| "locked_next acq rel (Store loc, n) (glob, l) = Some ((Unlock, n), (loc, l))"
| "locked_next acq rel (Unlock, n) (glob, l) = Some ((Lock, n - 1), (glob, rel l))"
| "locked_next acq rel (Overflow, n) gl = None"

definition mutex_threadFunc :: "ithread \<Rightarrow> int \<times> bool \<Rightarrow> (ithread \<times> (int \<times> bool)) option" where
  "mutex_threadFunc = locked_next pthread_mutex_lock pthread_mutex_unlock"

definition spin_threadFunc :: "ithread \<Rightarrow> int \<times> bool \<Rightarrow> (ithread \<times> (int \<times> bool)) option" where
  "spin_threadFunc = locked_next pthread_spin_lock pthread_spin_unlock"

definition rwlock_threadFunc :: "ithread \<Rightarrow> int \<times> rwlock \<Rightarrow> (ithread \<times> (int \<times> rwlock)) option" where
  "rwlock_threadFunc = locked_next pthread_rwlock_wrlock pthread_rwlock_unlock"

definition sem_threadFunc :: "ithread \<Rightarrow> int \<times> nat \<Rightarrow> (ithread \<times> (int \<times> nat)) option" where
  "sem_threadFunc = locked_next sem_wait sem_post"

text \<open>\<^verbatim>\<open>threadFunc\<close> without a lock.\<close>

fun incr_threadFunc :: "ithread \<Rightarrow> int \<Rightarrow> (ithread \<times> int) option" where
  "incr_threadFunc (Load, 0) glob = None"
| "incr_threadFunc (Load, Suc n) glob = Some ((Incr glob, Suc n), glob)"
| "incr_threadFunc (Incr loc, n) glob = Some (if loc = INT_MAX then (Overflow, n) else (Store (loc + 1), n), glob)"
| "incr_threadFunc (Store loc, n) glob = Some ((Load, n - 1), loc)"
| "incr_threadFunc (_, n) glob = None"

section \<open>The programs\<close>

text \<open>The argument; then the two threads run, and the variable is printed when both have ended.\<close>

definition incr_loops :: "string list \<Rightarrow> string + int" where
  "incr_loops args = (case args of [] \<Rightarrow> Inr 10000000 | a # _ \<Rightarrow> getInt (Some a) GN_GT_0 (Some ''num-loops''))"

text \<open>Under a schedule: the usage error, nothing yet, or the line that is printed.\<close>

definition incr_main ::
  "(ithread \<Rightarrow> 's \<Rightarrow> (ithread \<times> 's) option) \<Rightarrow> ipc \<Rightarrow> 's \<Rightarrow> ('s \<Rightarrow> int) \<Rightarrow> nat list \<Rightarrow> string list \<Rightarrow> string + string option" where
  "incr_main threadFunc pc s0 glob sched args =
     (case incr_loops args of
        Inl e \<Rightarrow> Inl e
      | Inr loops \<Rightarrow>
          (case run_schedule threadFunc sched (s0, replicate 2 (pc, nat loops)) of
             None \<Rightarrow> Inr None
           | Some (s, ps) \<Rightarrow>
               Inr (if list_all (\<lambda>p. p = (pc, 0)) ps then Some (''glob = '' @ show_int (glob s) @ [CHR 0x0A]) else None)))"

definition thread_incr_main :: "nat list \<Rightarrow> string list \<Rightarrow> string + string option" where
  "thread_incr_main = incr_main incr_threadFunc Load 0 id"

definition thread_incr_mutex_main :: "nat list \<Rightarrow> string list \<Rightarrow> string + string option" where
  "thread_incr_mutex_main = incr_main mutex_threadFunc Lock (0, False) fst"

definition thread_incr_spinlock_main :: "nat list \<Rightarrow> string list \<Rightarrow> string + string option" where
  "thread_incr_spinlock_main = incr_main spin_threadFunc Lock (0, False) fst"

definition thread_incr_rwlock_main :: "nat list \<Rightarrow> string list \<Rightarrow> string + string option" where
  "thread_incr_rwlock_main = incr_main rwlock_threadFunc Lock (0, Readers 0) fst"

definition thread_incr_psem_main :: "nat list \<Rightarrow> string list \<Rightarrow> string + string option" where
  "thread_incr_psem_main = incr_main sem_threadFunc Lock (0, 1) fst"

section \<open>What the code relies on in a lock\<close>

locale exclusive_lock =
  fixes acq :: "'l \<Rightarrow> 'l option" and rel :: "'l \<Rightarrow> 'l" and free :: "'l \<Rightarrow> bool" and held :: "'l \<Rightarrow> bool"
  assumes acq_free: "free l \<Longrightarrow> \<exists>m. acq l = Some m \<and> held m"
    and acq_held: "held l \<Longrightarrow> acq l = None"
    and rel_held: "held l \<Longrightarrow> free (rel l)"
    and not_both: "\<not> (free l \<and> held l)"

text \<open>A thread outside the critical section, what it still adds, and its place in the loop as a number.\<close>

definition holds :: "ithread \<Rightarrow> bool" where
  "holds p \<longleftrightarrow> fst p \<noteq> Lock"

definition owed :: "ithread \<Rightarrow> int" where
  "owed p = int (if fst p = Unlock then snd p - 1 else snd p)"

fun thread_ok :: "int \<Rightarrow> ithread \<Rightarrow> bool" where
  "thread_ok g (Lock, k) = True"
| "thread_ok g (Load, k) = (0 < k)"
| "thread_ok g (Incr v, k) = (0 < k \<and> v = g)"
| "thread_ok g (Store v, k) = (0 < k \<and> v = g + 1)"
| "thread_ok g (Unlock, k) = (0 < k)"
| "thread_ok g (Overflow, k) = False"

fun place :: "ipc \<Rightarrow> nat" where
  "place Lock = 0"
| "place Load = 1"
| "place (Incr v) = 2"
| "place (Store v) = 3"
| "place Unlock = 4"
| "place Overflow = 5"

lemma not_holding_ok: "\<not> holds p \<Longrightarrow> thread_ok g p"
  by (cases p) (simp add: holds_def)

definition incr_inv :: "('l \<Rightarrow> bool) \<Rightarrow> ('l \<Rightarrow> bool) \<Rightarrow> int \<Rightarrow> int \<times> 'l \<Rightarrow> ithread list \<Rightarrow> bool" where
  "incr_inv free held tot s ps \<longleftrightarrow> tot \<le> INT_MAX \<and> fst s + sum_list (map owed ps) = tot \<and> list_all (thread_ok (fst s)) ps \<and>
     (free (snd s) \<and> tally holds ps = 0 \<or> held (snd s) \<and> tally holds ps = 1)"

definition incr_rank :: "ithread list \<Rightarrow> nat" where
  "incr_rank ps = sum_list (map (\<lambda>p. 5 * snd p - place (fst p)) ps)"

lemma owed_nonneg: "0 \<le> sum_list (map owed ps)"
  by (intro sum_list_nonneg) (auto simp: owed_def)

lemma owed_le: "i < length ps \<Longrightarrow> owed (ps ! i) \<le> sum_list (map owed ps)"
  by (rule member_le_sum_list) (auto simp: owed_def)

context exclusive_lock
begin

lemma incr_inv_update:
  assumes inv: "incr_inv free held tot (g, l) ps" and i: "i < length ps"
    and ow: "h + owed p = g + owed (ps ! i)" and ok: "thread_ok h p" and gh: "g = h \<or> holds (ps ! i)"
    and lk: "holds (ps ! i) = holds p \<and> m = l \<or> free l \<and> held m \<and> \<not> holds (ps ! i) \<and> holds p
      \<or> held l \<and> free m \<and> holds (ps ! i) \<and> \<not> holds p"
  shows "incr_inv free held tot (h, m) (ps[i := p])"
proof -
  have "sum_list (map owed (ps[i := p])) = sum_list (map owed ps) + owed p - owed (ps ! i)"
    by (rule sum_list_upd[OF i])
  then have 1: "h + sum_list (map owed (ps[i := p])) = tot"
    using inv ow by (simp add: incr_inv_def)
  have "thread_ok h (ps ! j)" if "j < length ps" "j \<noteq> i" for j
  proof (cases "g = h")
    case True
    then show ?thesis using inv that by (simp add: incr_inv_def list_all_length)
  next
    case False
    then have h: "holds (ps ! i)" using gh by simp
    have "tally holds ps \<noteq> 0" using h i by (auto simp: tally_zero list_all_length)
    then have "tally holds ps = 1" using inv by (auto simp: incr_inv_def)
    then show ?thesis using tally_one[of holds ps i j] i h that by (auto intro: not_holding_ok)
  qed
  then have 2: "list_all (thread_ok h) (ps[i := p])"
    using ok i by (simp add: list_all_length nth_list_update)
  have 3: "free m \<and> tally holds (ps[i := p]) = 0 \<or> held m \<and> tally holds (ps[i := p]) = 1"
    using lk inv tally_upd[OF i, of holds p] not_both[of l] by (auto simp: incr_inv_def)
  show ?thesis using 1 2 3 inv by (simp add: incr_inv_def)
qed

lemma incr_step:
  assumes inv: "incr_inv free held tot s ps" and i: "i < length ps" and n: "locked_next acq rel (ps ! i) s = Some (p, t)"
  shows "incr_inv free held tot t (ps[i := p]) \<and> incr_rank (ps[i := p]) < incr_rank ps"
proof -
  obtain pc k where q: "ps ! i = (pc, k)" by (cases "ps ! i")
  obtain g l where s: "s = (g, l)" by (cases s)
  have ok: "thread_ok g (pc, k)" using inv i q s by (auto simp: incr_inv_def list_all_length)
  have hd: "held l" if "pc \<noteq> Lock"
    using that inv i q s by (auto simp: incr_inv_def tally_zero list_all_length holds_def)
  have lt: "g < INT_MAX" if "pc = Incr g"
    using that inv owed_le[OF i] q s ok by (auto simp: incr_inv_def owed_def)
  obtain h m where t: "t = (h, m)" by (cases t)
  have fr: "free l" if "pc = Lock"
  proof (rule ccontr)
    assume "\<not> free l"
    then have "held l" using inv s by (auto simp: incr_inv_def)
    then show False using n that q s acq_held by (cases k) auto
  qed
  have "h + owed p = g + owed (ps ! i)" "thread_ok h p" "g = h \<or> holds (ps ! i)"
    "5 * snd p - place (fst p) < 5 * k - place pc"
    using n ok lt q s t by (cases pc; cases k; auto simp: owed_def holds_def split: option.splits)+
  moreover have "holds (ps ! i) = holds p \<and> m = l \<or> free l \<and> held m \<and> \<not> holds (ps ! i) \<and> holds p
      \<or> held l \<and> free m \<and> holds (ps ! i) \<and> \<not> holds p"
    using n ok q s t hd fr acq_free[of l] rel_held[of l]
    by (cases pc; cases k) (auto simp: holds_def split: option.splits if_splits)
  ultimately show ?thesis
    using incr_inv_update[OF inv[unfolded s] i] q t sum_list_upd_nat[OF i, of "\<lambda>p. 5 * snd p - place (fst p)" p]
    by (simp add: incr_rank_def)
qed

sublocale counting: ending_protocol "locked_next acq rel" "incr_inv free held tot" "\<lambda>_. incr_rank" for tot
  by unfold_locales (use incr_step in blast)+

lemma incr_final:
  assumes inv: "incr_inv free held tot (g, l) ps" and st: "stuck (locked_next acq rel) ((g, l), ps)"
  shows "g = tot \<and> list_all (\<lambda>p. p = (Lock, 0)) ps"
proof -
  have no: "locked_next acq rel p (g, l) = None" "thread_ok g p" if "p \<in> set ps" for p
    using that st inv by (auto simp: stuck_def incr_inv_def list_all_iff)
  have lk: "fst p = Lock" if "p \<in> set ps" for p
    using no[OF that] by (cases p; cases "fst p") auto
  then have "tally holds ps = 0" by (simp add: tally_zero holds_def list_all_iff)
  then have "free l" using inv by (auto simp: incr_inv_def)
  then have "snd p = 0" if "p \<in> set ps" for p
    using no(1)[OF that] lk[OF that] acq_free by (cases p; cases "snd p") fastforce+
  then have all: "list_all (\<lambda>p. p = (Lock, 0)) ps" using lk by (auto simp: list_all_iff prod_eq_iff)
  then have "map owed ps = replicate (length ps) 0"
    by (intro replicate_eqI) (auto simp: list_all_iff owed_def)
  then show ?thesis using inv all by (simp add: incr_inv_def sum_list_replicate)
qed

lemma incr_start:
  assumes "free l" "0 \<le> n" "2 * n \<le> INT_MAX"
  shows "incr_inv free held (2 * n) (0, l) (replicate 2 (Lock, nat n))"
  using assms by (simp add: incr_inv_def owed_def tally_zero holds_def numeral_2_eq_2)

theorem incr_always_ends:
  assumes "free l" "0 \<le> n" "2 * n \<le> INT_MAX"
  shows "always_ends (locked_next acq rel) ((0, l), replicate 2 (Lock, nat n))
    (\<lambda>(s, ps). fst s = 2 * n \<and> list_all (\<lambda>p. p = (Lock, 0)) ps)"
  by (rule counting.always_endsI[OF incr_start[OF assms]]) (use incr_final in \<open>auto split: prod.splits\<close>)

end

text \<open>What a program may print, whatever the scheduling.\<close>

definition prints_only :: "(nat list \<Rightarrow> string list \<Rightarrow> string + string option) \<Rightarrow> string list \<Rightarrow> int \<Rightarrow> bool" where
  "prints_only main args n \<longleftrightarrow>
     (\<forall>sched. main sched args = Inr None \<or> main sched args = Inr (Some (''glob = '' @ show_int n @ [CHR 0x0A])))"

lemma always_ends_prints:
  assumes ends: "always_ends nxt (s0, replicate 2 (pc, nat n)) (\<lambda>(s, ps). glob s = m \<and> R ps)"
    and last: "\<And>s. nxt (pc, 0) s = None" and loops: "incr_loops args = Inr n"
  shows "prints_only (incr_main nxt pc s0 glob) args m"
proof -
  have "glob s = m" if "run_schedule nxt sched (s0, replicate 2 (pc, nat n)) = Some (s, ps)" "list_all (\<lambda>p. p = (pc, 0)) ps" for sched s ps
  proof -
    have "stuck nxt (s, ps)" using that(2) last by (auto simp: stuck_def list_all_iff)
    then show ?thesis using ends run_schedule_reachable[OF that(1)] by (fastforce simp: always_ends_def)
  qed
  then show ?thesis by (auto simp: prints_only_def incr_main_def loops split: option.splits)
qed

section \<open>The four locks\<close>

interpretation mutex: exclusive_lock pthread_mutex_lock pthread_mutex_unlock Not id
  by unfold_locales (auto simp: pthread_mutex_lock_def pthread_mutex_unlock_def)

interpretation spin: exclusive_lock pthread_spin_lock pthread_spin_unlock Not id
  by unfold_locales (auto simp: pthread_spin_lock_def pthread_spin_unlock_def)

interpretation rw: exclusive_lock pthread_rwlock_wrlock pthread_rwlock_unlock "\<lambda>l. l = Readers 0" "\<lambda>l. l = Writer"
  by unfold_locales (auto simp: pthread_rwlock_wrlock_def pthread_rwlock_unlock_def)

interpretation sem: exclusive_lock sem_wait sem_post "\<lambda>n. n = 1" "\<lambda>n. n = 0"
  by unfold_locales (auto simp: sem_wait_def sem_post_def)

section \<open>Without a lock\<close>

text \<open>
  What is stored is at most one more than the number of stores so far, and never less than one.
\<close>

fun race_ok :: "int \<Rightarrow> ithread \<Rightarrow> bool" where
  "race_ok b (Load, k) = True"
| "race_ok b (Incr v, k) = (0 < k \<and> 0 \<le> v \<and> v \<le> b)"
| "race_ok b (Store v, k) = (0 < k \<and> 1 \<le> v \<and> v \<le> b + 1)"
| "race_ok b (_, k) = False"

definition left :: "ithread list \<Rightarrow> int" where
  "left ps = sum_list (map (\<lambda>p. int (snd p)) ps)"

definition race_inv :: "int \<Rightarrow> int \<Rightarrow> ithread list \<Rightarrow> bool" where
  "race_inv tot g ps \<longleftrightarrow> tot \<le> INT_MAX \<and> 0 \<le> g \<and> g + left ps \<le> tot \<and> (1 \<le> g \<or> left ps = tot) \<and>
     list_all (race_ok (tot - left ps)) ps"

lemma left_upd: "i < length ps \<Longrightarrow> left (ps[i := p]) = left ps + int (snd p) - int (snd (ps ! i))"
  unfolding left_def by (rule sum_list_upd)

lemma left_ge: "i < length ps \<Longrightarrow> int (snd (ps ! i)) \<le> left ps"
  unfolding left_def by (rule member_le_sum_list) auto

lemma race_ok_mono: "race_ok b p \<Longrightarrow> b \<le> c \<Longrightarrow> race_ok c p"
  by (induction b p rule: race_ok.induct) auto

lemma race_step:
  assumes inv: "race_inv tot g ps" and i: "i < length ps" and n: "incr_threadFunc (ps ! i) g = Some (p, h)"
  shows "race_inv tot h (ps[i := p]) \<and> incr_rank (ps[i := p]) < incr_rank ps"
proof -
  obtain pc k where q: "ps ! i = (pc, k)" by (cases "ps ! i")
  have ok: "race_ok (tot - left ps) (pc, k)" using inv i q by (auto simp: race_inv_def list_all_length)
  have lf: "left (ps[i := p]) = left ps + int (snd p) - int k" using left_upd[OF i] q by simp
  have ge: "int k \<le> left ps" using left_ge[OF i] q by simp
  have st: "0 \<le> h \<and> h + left (ps[i := p]) \<le> tot \<and> (1 \<le> h \<or> left (ps[i := p]) = tot) \<and>
      left (ps[i := p]) \<le> left ps \<and> race_ok (tot - left (ps[i := p])) p \<and>
      5 * snd p - place (fst p) < 5 * k - place pc"
    using n ok q ge inv unfolding lf by (cases pc; cases k) (auto simp: race_inv_def split: if_splits)
  then have "list_all (race_ok (tot - left (ps[i := p]))) (ps[i := p])"
    using inv i by (auto simp: race_inv_def list_all_length nth_list_update elim!: race_ok_mono)
  then show ?thesis
    using st inv q sum_list_upd_nat[OF i, of "\<lambda>p. 5 * snd p - place (fst p)" p]
    by (simp add: race_inv_def incr_rank_def)
qed

interpretation race: ending_protocol incr_threadFunc "race_inv tot" "\<lambda>_. incr_rank" for tot
  by unfold_locales (use race_step in blast)+

lemma race_final:
  assumes inv: "race_inv tot g ps" and "stuck incr_threadFunc (g, ps)"
  shows "g \<le> tot \<and> (1 \<le> g \<or> tot = 0) \<and> list_all (\<lambda>p. p = (Load, 0)) ps"
proof -
  have z: "p = (Load, 0)" if "p \<in> set ps" for p
  proof -
    have "incr_threadFunc p g = None" "race_ok (tot - left ps) p" using that assms by (auto simp: stuck_def race_inv_def list_all_iff)
    then show ?thesis by (cases p; cases "fst p"; cases "snd p") auto
  qed
  then have "map (\<lambda>p. int (snd p)) ps = replicate (length ps) 0" by (intro replicate_eqI) auto
  then have "left ps = 0" by (simp add: left_def sum_list_replicate)
  then show ?thesis using inv z by (auto simp: race_inv_def list_all_iff)
qed

lemma race_always_ends:
  assumes "1 \<le> n" "2 * n \<le> INT_MAX"
  shows "always_ends incr_threadFunc (0, replicate 2 (Load, nat n)) (\<lambda>(g, ps). 1 \<le> g \<and> g \<le> 2 * n \<and> list_all (\<lambda>p. p = (Load, 0)) ps)"
proof (rule race.always_endsI)
  show "race_inv (2 * n) 0 (replicate 2 (Load, nat n))" using assms by (simp add: race_inv_def left_def numeral_2_eq_2)
qed (use race_final assms in fastforce)

text \<open>Both threads in step: every increment is made twice and counts once.\<close>

lemma race_lockstep:
  "g + int n \<le> INT_MAX \<Longrightarrow>
   run_schedule incr_threadFunc (concat (replicate n [0, 1, 0, 1, 0, 1])) (g, [(Load, n), (Load, n)]) =
   Some (g + int n, [(Load, 0), (Load, 0)])"
  by (induction n arbitrary: g) (simp_all add: algebra_simps)

section \<open>Properties\<close>

text \<open>
  C26: The two threads of thread_incr_mutex.c, thread_incr_spinlock.c, thread_incr_rwlock.c and
  thread_incr_psem.c end under every scheduling, never deadlock, and leave twice the number of loops in
  the shared variable, which is what the programs print, as long as that fits an int.
\<close>

theorem locked_increments_complete:
  assumes "incr_loops args = Inr n" "0 \<le> n" "2 * n \<le> INT_MAX"
  shows "always_ends mutex_threadFunc ((0, False), replicate 2 (Lock, nat n)) (\<lambda>(s, ps). fst s = 2 * n \<and> list_all (\<lambda>p. p = (Lock, 0)) ps)
    \<and> always_ends spin_threadFunc ((0, False), replicate 2 (Lock, nat n)) (\<lambda>(s, ps). fst s = 2 * n \<and> list_all (\<lambda>p. p = (Lock, 0)) ps)
    \<and> always_ends rwlock_threadFunc ((0, Readers 0), replicate 2 (Lock, nat n)) (\<lambda>(s, ps). fst s = 2 * n \<and> list_all (\<lambda>p. p = (Lock, 0)) ps)
    \<and> always_ends sem_threadFunc ((0, 1), replicate 2 (Lock, nat n)) (\<lambda>(s, ps). fst s = 2 * n \<and> list_all (\<lambda>p. p = (Lock, 0)) ps)
    \<and> prints_only thread_incr_mutex_main args (2 * n) \<and> prints_only thread_incr_spinlock_main args (2 * n)
    \<and> prints_only thread_incr_rwlock_main args (2 * n) \<and> prints_only thread_incr_psem_main args (2 * n)"
proof -
  note ends = mutex.incr_always_ends[of False n] spin.incr_always_ends[of False n] rw.incr_always_ends[of "Readers 0" n] sem.incr_always_ends[of 1 n]
  have "locked_next acq rel (Lock, 0) gl = None" for acq :: "'l \<Rightarrow> 'l option" and rel gl by simp
  then show ?thesis
    unfolding mutex_threadFunc_def spin_threadFunc_def rwlock_threadFunc_def sem_threadFunc_def
      thread_incr_mutex_main_def thread_incr_spinlock_main_def thread_incr_rwlock_main_def thread_incr_psem_main_def
    by (intro conjI ends always_ends_prints[where R = "list_all (\<lambda>p. p = (Lock, 0))", OF _ _ assms(1)]) (simp_all add: assms)
qed

theorem locked_increments_complete_witness:
  "always_ends mutex_threadFunc ((0, False), replicate 2 (Lock, nat 10000000)) (\<lambda>(s, ps). fst s = 2 * 10000000 \<and> list_all (\<lambda>p. p = (Lock, 0)) ps)
    \<and> prints_only thread_incr_mutex_main [] (2 * 10000000)"
  using locked_increments_complete[of "[]" 10000000] by (simp add: INT_MAX_def incr_loops_def)

text \<open>
  C34: Without a lock the threads of thread_incr.c still end, with some value from one to twice the number
  of loops, and for every number of loops there is a scheduling that loses half of the increments.
\<close>

theorem unlocked_increments_race:
  assumes "1 \<le> n" "2 * n \<le> INT_MAX"
  shows "always_ends incr_threadFunc (0, replicate 2 (Load, nat n)) (\<lambda>(g, ps). 1 \<le> g \<and> g \<le> 2 * n \<and> list_all (\<lambda>p. p = (Load, 0)) ps)
    \<and> run_schedule incr_threadFunc (concat (replicate (nat n) [0, 1, 0, 1, 0, 1])) (0, replicate 2 (Load, nat n)) =
      Some (n, [(Load, 0), (Load, 0)])"
  using race_always_ends[OF assms] race_lockstep[of 0 "nat n"] assms by (simp add: numeral_2_eq_2)

theorem unlocked_increments_race_witness:
  "thread_incr_main (concat (replicate 3 [0, 1, 0, 1, 0, 1])) [''3''] = Inr (Some (''glob = 3'' @ [CHR 0x0A]))"
proof -
  have l: "incr_loops [''3''] = Inr 3" and three: "show_int 3 = ''3''" by code_simp+
  have "run_schedule incr_threadFunc (concat (replicate (nat 3) [0, 1, 0, 1, 0, 1])) (0, replicate 2 (Load, nat 3)) =
      Some (3, [(Load, 0), (Load, 0)])"
    using unlocked_increments_race[of 3] unfolding INT_MAX_def by simp
  then show ?thesis unfolding thread_incr_main_def incr_main_def l by (simp add: three)
qed

end
