(* ===== verification/Thread_Condvar.thy ===== *)
theory Thread_Condvar
  imports Num_Args Interleave
begin

text \<open>
  The producer-consumer programs \<^verbatim>\<open>prod_condvar.c\<close> and \<^verbatim>\<open>prod_no_condvar.c\<close> (\<^verbatim>\<open>tlpi-dist/threads\<close>).  Every access to
  the shared variables and every call is one step.  A wait on the condition variable releases the
  mutex and sleeps in one step; a signal wakes the consumer when it sleeps and is lost otherwise; a
  further process gives a number of spurious wakeups, at any time.  A call that POSIX lets fail only
  on misuse does not fail.
\<close>

section \<open>The programs\<close>

datatype ppc = P_lock | P_incr | P_unlock | P_signal

datatype cpc = C_lock | C_test | C_asleep | C_consume | C_unlock | C_check

text \<open>A producer has a number of units still to produce.\<close>

datatype pthread = Producer ppc nat | Consumer cpc | Wakeups nat

text \<open>
  The global variables, whether the mutex is locked, whether the consumer is in the wait set of the
  condition variable, the local variables of \<^verbatim>\<open>main\<close>, and whether the process has exited.
\<close>

record units =
  avail :: int
  locked :: bool
  waiting :: bool
  totRequired :: int
  numConsumed :: int
  finished :: bool
  exited :: bool

fun producer :: "ppc \<Rightarrow> nat \<Rightarrow> units \<Rightarrow> (pthread \<times> units) option" where
  "producer pc 0 s = None"
| "producer P_lock (Suc n) s = (if locked s then None else Some (Producer P_incr (Suc n), s\<lparr>locked := True\<rparr>))"
| "producer P_incr (Suc n) s = Some (Producer P_unlock (Suc n), s\<lparr>avail := avail s + 1\<rparr>)"
| "producer P_unlock (Suc n) s = Some (Producer P_signal (Suc n), s\<lparr>locked := False\<rparr>)"
| "producer P_signal (Suc n) s = Some (Producer P_lock n, s\<lparr>waiting := False\<rparr>)"

fun consumer :: "cpc \<Rightarrow> units \<Rightarrow> (pthread \<times> units) option" where
  "consumer C_lock s = (if locked s then None else Some (Consumer C_test, s\<lparr>locked := True\<rparr>))"
| "consumer C_test s =
     (if avail s = 0 then Some (Consumer C_asleep, s\<lparr>locked := False, waiting := True\<rparr>) else Some (Consumer C_consume, s))"
| "consumer C_asleep s = (if waiting s \<or> locked s then None else Some (Consumer C_test, s\<lparr>locked := True\<rparr>))"
| "consumer C_consume s =
     (if 0 < avail s then
        Some (Consumer C_consume, s\<lparr>numConsumed := numConsumed s + 1, avail := avail s - 1,
          finished := totRequired s \<le> numConsumed s + 1\<rparr>)
      else Some (Consumer C_unlock, s))"
| "consumer C_unlock s = Some (Consumer C_check, s\<lparr>locked := False\<rparr>)"
| "consumer C_check s = Some (if finished s then (Consumer C_check, s\<lparr>exited := True\<rparr>) else (Consumer C_lock, s))"

fun wakeups :: "nat \<Rightarrow> units \<Rightarrow> (pthread \<times> units) option" where
  "wakeups 0 s = None"
| "wakeups (Suc k) s = Some (Wakeups k, s\<lparr>waiting := False\<rparr>)"

definition prod_next :: "pthread \<Rightarrow> units \<Rightarrow> (pthread \<times> units) option" where
  "prod_next p s =
     (if exited s then None
      else case p of Producer pc n \<Rightarrow> producer pc n s | Consumer pc \<Rightarrow> consumer pc s | Wakeups k \<Rightarrow> wakeups k s)"

text \<open>\<^verbatim>\<open>main\<close> creates a thread for each argument and becomes the consumer.\<close>

definition prod_main :: "string list \<Rightarrow> nat \<Rightarrow> units \<times> pthread list" where
  "prod_main args k =
     (\<lparr>avail = 0, locked = False, waiting = False, totRequired = sum_list (map atoi args), numConsumed = 0,
        finished = False, exited = False\<rparr>,
      Consumer C_lock # Wakeups k # map (\<lambda>a. Producer P_lock (nat (atoi a))) args)"

text \<open>The polling variant: no condition variable, and the consumer never waits.\<close>

fun poll_producer :: "ppc \<Rightarrow> nat \<Rightarrow> units \<Rightarrow> (pthread \<times> units) option" where
  "poll_producer pc 0 s = None"
| "poll_producer P_lock (Suc n) s = (if locked s then None else Some (Producer P_incr (Suc n), s\<lparr>locked := True\<rparr>))"
| "poll_producer P_incr (Suc n) s = Some (Producer P_unlock (Suc n), s\<lparr>avail := avail s + 1\<rparr>)"
| "poll_producer P_unlock (Suc n) s = Some (Producer P_lock n, s\<lparr>locked := False\<rparr>)"
| "poll_producer P_signal (Suc n) s = None"

fun poll_consumer :: "cpc \<Rightarrow> units \<Rightarrow> (pthread \<times> units) option" where
  "poll_consumer C_lock s = (if locked s then None else Some (Consumer C_consume, s\<lparr>locked := True\<rparr>))"
| "poll_consumer C_consume s =
     (if 0 < avail s then
        Some (Consumer C_consume, s\<lparr>numConsumed := numConsumed s + 1, avail := avail s - 1,
          finished := totRequired s \<le> numConsumed s + 1\<rparr>)
      else Some (Consumer C_unlock, s))"
| "poll_consumer C_unlock s = Some (Consumer C_check, s\<lparr>locked := False\<rparr>)"
| "poll_consumer C_check s = Some (if finished s then (Consumer C_check, s\<lparr>exited := True\<rparr>) else (Consumer C_lock, s))"
| "poll_consumer pc s = None"

definition poll_next :: "pthread \<Rightarrow> units \<Rightarrow> (pthread \<times> units) option" where
  "poll_next p s =
     (if exited s then None
      else case p of Producer pc n \<Rightarrow> poll_producer pc n s | Consumer pc \<Rightarrow> poll_consumer pc s | Wakeups k \<Rightarrow> None)"

definition poll_main :: "string list \<Rightarrow> units \<times> pthread list" where
  "poll_main args =
     (\<lparr>avail = 0, locked = False, waiting = False, totRequired = sum_list (map atoi args), numConsumed = 0,
        finished = False, exited = False\<rparr>,
      Consumer C_lock # map (\<lambda>a. Producer P_lock (nat (atoi a))) args)"

section \<open>The invariant\<close>

text \<open>Units a producer has not yet made available, whether it holds the mutex, and how far it is.\<close>

fun to_come :: "pthread \<Rightarrow> int" where
  "to_come (Producer pc n) = (if pc = P_lock \<or> pc = P_incr then int n else int n - 1)"
| "to_come _ = 0"

fun in_section :: "pthread \<Rightarrow> int" where
  "in_section (Producer pc n) = (if pc = P_incr \<or> pc = P_unlock then 1 else 0)"
| "in_section (Consumer pc) = (if pc = C_test \<or> pc = C_consume \<or> pc = C_unlock then 1 else 0)"
| "in_section _ = 0"

fun prod_ok :: "pthread \<Rightarrow> bool" where
  "prod_ok (Producer pc n) = (pc = P_lock \<or> 0 < n)"
| "prod_ok _ = False"

definition will_signal :: "pthread \<Rightarrow> bool" where
  "will_signal p \<longleftrightarrow> (case p of Producer pc n \<Rightarrow> pc = P_unlock \<or> pc = P_signal | _ \<Rightarrow> False)"

definition cons_ok :: "cpc \<Rightarrow> units \<Rightarrow> bool" where
  "cons_ok pc s \<longleftrightarrow> ((finished s \<longleftrightarrow> totRequired s \<le> numConsumed s) \<and>
     (pc = C_lock \<or> pc = C_test \<or> pc = C_asleep \<longrightarrow> \<not> finished s) \<and>
     (waiting s \<longrightarrow> pc = C_asleep) \<and> (exited s \<longrightarrow> finished s))"

fun prod_inv :: "int \<Rightarrow> units \<Rightarrow> pthread list \<Rightarrow> bool" where
  "prod_inv tot s (Consumer pc # Wakeups k # qs) =
     (list_all prod_ok qs \<and> cons_ok pc s \<and> totRequired s = tot \<and> 0 \<le> avail s \<and>
      numConsumed s + avail s + sum_list (map to_come qs) = tot \<and>
      (if locked s then 1 else 0) = in_section (Consumer pc) + sum_list (map in_section qs) \<and>
      (waiting s \<and> 0 < avail s \<longrightarrow> list_ex will_signal qs))"
| "prod_inv tot s _ = False"

fun thread_rank :: "pthread \<Rightarrow> nat" where
  "thread_rank (Producer pc n) =
     40 * n - (case pc of P_lock \<Rightarrow> 0 | P_incr \<Rightarrow> 1 | P_unlock \<Rightarrow> 12 | P_signal \<Rightarrow> 13)"
| "thread_rank (Wakeups k) = 10 * k"
| "thread_rank (Consumer pc) = 0"

definition cons_rank :: "units \<Rightarrow> pthread \<Rightarrow> nat" where
  "cons_rank s p = (if exited s then 0 else Suc (case p of Consumer pc \<Rightarrow>
     (case pc of C_asleep \<Rightarrow> if waiting s then 0 else 5 | C_test \<Rightarrow> 4 | C_lock \<Rightarrow> 5 | C_check \<Rightarrow> 6 | C_unlock \<Rightarrow> 7
      | C_consume \<Rightarrow> if 0 < avail s then 3 else 8) | _ \<Rightarrow> 0))"

definition prod_rank :: "units \<Rightarrow> pthread list \<Rightarrow> nat" where
  "prod_rank s ps = sum_list (map thread_rank ps) + 10 * nat (avail s) + cons_rank s (hd ps)"

lemma in_section_nonneg: "0 \<le> in_section p"
  by (induction p rule: in_section.induct) auto

lemma sections_nonneg: "0 \<le> sum_list (map in_section qs)"
  by (intro sum_list_nonneg) (auto simp: in_section_nonneg)

lemma consumer_step:
  assumes "prod_inv tot s (Consumer pc # Wakeups k # qs)" "\<not> exited s" "consumer pc s = Some (p, t)"
  shows "prod_inv tot t (p # Wakeups k # qs)"
  using assms sections_nonneg[of qs]
  by (cases pc; simp add: cons_ok_def split: if_splits; (elim conjE; hypsubst)?; simp add: cons_ok_def)

lemma cons_ok_frame:
  assumes "cons_ok pc s" "finished t = finished s" "totRequired t = totRequired s" "numConsumed t = numConsumed s"
    "exited t = exited s" "waiting t \<longrightarrow> waiting s"
  shows "cons_ok pc t"
  using assms unfolding cons_ok_def by (elim conjE) simp

lemma consumer_rank:
  assumes "\<not> exited s" "consumer pc s = Some (p, t)" "0 \<le> avail s"
  shows "prod_rank t (p # ws) < prod_rank s (Consumer pc # ws)"
proof (cases "pc = C_consume \<and> 0 < avail s")
  case True
  then have "nat (avail s) = Suc (nat (avail s - 1))" by linarith
  then show ?thesis using assms(1,2) True by (auto simp: prod_rank_def cons_rank_def)
next
  case False
  then show ?thesis using assms
    by (cases pc; simp split: if_splits; (elim conjE; hypsubst)?; simp add: prod_rank_def cons_rank_def)
qed

lemma cons_rank_wake: "cons_rank (s\<lparr>waiting := False\<rparr>) p \<le> cons_rank s p + 5"
  by (cases p) (simp_all add: cons_rank_def split: cpc.split)

lemma wakeups_step:
  assumes "prod_inv tot s (Consumer pc # Wakeups k # qs)" "\<not> exited s" "wakeups k s = Some (p, t)"
  shows "prod_inv tot t (Consumer pc # p # qs) \<and> prod_rank t (Consumer pc # p # qs) < prod_rank s (Consumer pc # Wakeups k # qs)"
proof (cases k)
  case (Suc j)
  then have "p = Wakeups j" "t = s\<lparr>waiting := False\<rparr>" using assms(3) by simp_all
  then show ?thesis using assms(1) Suc cons_rank_wake[of s "Consumer pc"] by (simp add: prod_rank_def cons_ok_frame[of pc s])
qed (use assms(3) in simp)

fun_cases producerE: "producer pc n s = Some (p, t)"

lemma producer_frame:
  assumes "producer pc n s = Some (p, t)"
  shows "prod_ok p" "totRequired t = totRequired s" "numConsumed t = numConsumed s" "finished t = finished s"
    "exited t = exited s" "avail t + to_come p = avail s + to_come (Producer pc n)" "avail s \<le> avail t" "waiting t \<longrightarrow> waiting s"
  by (rule producerE[OF assms]; simp split: if_splits; fail)+

lemma producer_lock:
  assumes "producer pc n s = Some (p, t)" "(if locked s then 1 else 0) = in_section (Producer pc n) + m" "0 \<le> m"
  shows "(if locked t then 1 else 0) = in_section p + m"
  using assms(2,3) by (rule_tac producerE[OF assms(1)]; simp split: if_splits; fail)

lemma producer_signals:
  assumes "producer pc n s = Some (p, t)" "waiting t" "0 < avail t"
  shows "will_signal p \<or> avail s = avail t \<and> \<not> will_signal (Producer pc n)"
  using assms(2,3) by (rule_tac producerE[OF assms(1)]; simp add: will_signal_def split: if_splits; fail)

lemma producer_rank:
  assumes "producer pc n s = Some (p, t)" "0 \<le> avail s"
  shows "thread_rank p + 10 * nat (avail t) + cons_rank t c < thread_rank (Producer pc n) + 10 * nat (avail s) + cons_rank s c"
proof -
  have a: "cons_rank (s\<lparr>locked := b\<rparr>) c = cons_rank s c" "cons_rank (s\<lparr>avail := avail s + 1\<rparr>) c \<le> cons_rank s c" for b
    using assms(2) by (cases c; simp add: cons_rank_def split: cpc.split)+
  have n: "nat (avail s + 1) = Suc (nat (avail s))" using assms(2) by simp
  show ?thesis
    by (rule producerE[OF assms(1)]; use a n cons_rank_wake[of s c] in \<open>simp split: if_splits\<close>)
qed

lemma producer_step:
  assumes inv: "prod_inv tot s (Consumer c # Wakeups k # qs)" and j: "j < length qs" and q: "qs ! j = Producer pc n"
    and nx: "producer pc n s = Some (p, t)"
  shows "prod_inv tot t (Consumer c # Wakeups k # qs[j := p])"
proof -
  note fr = producer_frame[OF nx]
  have "list_all prod_ok (qs[j := p])" using inv fr(1) j by (simp add: list_all_length nth_list_update)
  moreover have "cons_ok c t" using inv fr by (auto intro: cons_ok_frame)
  moreover have "numConsumed t + avail t + sum_list (map to_come (qs[j := p])) = tot"
    using inv fr sum_list_upd[OF j, of to_come p] q by simp
  moreover have "(if locked t then 1 else 0) = in_section (Consumer c) + sum_list (map in_section (qs[j := p]))"
  proof -
    let ?m = "in_section (Consumer c) + sum_list (map in_section (qs[j := Wakeups 0]))"
    have "0 \<le> ?m" using sections_nonneg[of "qs[j := Wakeups 0]"] in_section_nonneg[of "Consumer c"] by linarith
    moreover have "(if locked s then 1 else 0) = in_section (Producer pc n) + ?m"
      using inv sum_list_upd[OF j, of in_section "Wakeups 0"] q by simp
    ultimately have "(if locked t then 1 else 0) = in_section p + ?m" using producer_lock[OF nx] by blast
    then show ?thesis using sum_list_upd[OF j, of in_section "Wakeups 0"] sum_list_upd[OF j, of in_section p] by simp
  qed
  moreover have "list_ex will_signal (qs[j := p])" if w: "waiting t" "0 < avail t"
  proof (cases "will_signal p")
    case True
    then show ?thesis using j by (auto simp: list_ex_iff intro!: bexI[of _ p] set_update_memI)
  next
    case False
    then have a: "avail s = avail t" "\<not> will_signal (qs ! j)" using producer_signals[OF nx w] q by auto
    then obtain i where "i < length qs" "will_signal (qs ! i)" using inv w fr(8) by (auto simp: list_ex_length)
    then show ?thesis using a(2) by (cases "i = j") (auto simp: list_ex_length intro!: exI[of _ i])
  qed
  ultimately show ?thesis using inv fr by simp
qed

lemma prod_step:
  assumes inv: "prod_inv tot s ps" and i: "i < length ps" and nx: "prod_next (ps ! i) s = Some (p, t)"
  shows "prod_inv tot t (ps[i := p]) \<and> prod_rank t (ps[i := p]) < prod_rank s ps"
proof -
  obtain c k qs where ps: "ps = Consumer c # Wakeups k # qs" using inv by (cases "(tot, s, ps)" rule: prod_inv.cases) auto
  have ex: "\<not> exited s" using nx by (auto simp: prod_next_def)
  have av: "0 \<le> avail s" using inv ps by simp
  consider "i = 0" | "i = 1" | j where "i = Suc (Suc j)" by (metis One_nat_def not0_implies_Suc)
  then show ?thesis
  proof cases
    case 1
    then show ?thesis using consumer_step[of tot s c k qs p t] consumer_rank[of s c p t] inv nx ex av ps by (simp add: prod_next_def)
  next
    case 2
    then show ?thesis using wakeups_step[of tot s c k qs p t] inv nx ex ps by (simp add: prod_next_def)
  next
    case (3 j)
    have j: "j < length qs" using i 3 ps by simp
    have "prod_ok (qs ! j)" using inv ps j by (simp add: list_all_length)
    then obtain pc n where q: "qs ! j = Producer pc n" by (cases "qs ! j") auto
    have nx': "producer pc n s = Some (p, t)" using nx 3 ps q ex by (simp add: prod_next_def)
    have "prod_rank t (ps[i := p]) < prod_rank s ps"
      using producer_rank[OF nx' av, of "Consumer c"] sum_list_upd_nat[OF j, of thread_rank p] q 3 ps
      by (simp add: prod_rank_def)
    then show ?thesis using producer_step[OF inv[unfolded ps] j q nx'] 3 ps by simp
  qed
qed

interpretation condvar: ending_protocol prod_next "prod_inv tot" prod_rank for tot
  by unfold_locales (use prod_step in blast)+

lemma to_come_nonneg: "list_all prod_ok qs \<Longrightarrow> 0 \<le> sum_list (map to_come qs)"
proof (induction qs)
  case (Cons q qs)
  then show ?case by (cases q) (auto split: if_splits)
qed simp

lemma producer_enabled: "prod_ok (Producer pc n) \<Longrightarrow> producer pc n s = None \<Longrightarrow> n = 0 \<and> pc = P_lock \<or> locked s \<and> pc = P_lock"
  by (cases pc; cases n) (auto split: if_splits)

lemma consumer_enabled: "consumer pc s = None \<Longrightarrow> pc = C_lock \<and> locked s \<or> pc = C_asleep \<and> (waiting s \<or> locked s)"
  by (cases pc) (auto split: if_splits)

lemma prod_final:
  assumes inv: "prod_inv tot s ps" and st: "stuck prod_next (s, ps)"
  shows "exited s \<and> numConsumed s = tot \<and> avail s = 0"
proof -
  obtain c k qs where ps: "ps = Consumer c # Wakeups k # qs" using inv by (cases "(tot, s, ps)" rule: prod_inv.cases) auto
  have qs: "list_all prod_ok qs" using inv ps by simp
  have "exited s"
  proof (rule ccontr)
    assume ex: "\<not> exited s"
    have c: "c = C_lock \<and> locked s \<or> c = C_asleep \<and> (waiting s \<or> locked s)"
      using st ps ex consumer_enabled by (auto simp: stuck_def prod_next_def)
    have q: "\<exists>n. q = Producer P_lock n \<and> (n = 0 \<or> locked s)" if "q \<in> set qs" for q
    proof -
      have "prod_ok q" using qs that by (simp add: list_all_iff)
      then obtain pc n where "q = Producer pc n" by (cases q) auto
      moreover have "prod_next q s = None" using st ps that by (auto simp: stuck_def list_all_iff)
      ultimately show ?thesis using producer_enabled[of pc n s] \<open>prod_ok q\<close> ex by (auto simp: prod_next_def)
    qed
    have "map in_section qs = replicate (length qs) 0" by (intro replicate_eqI) (auto dest: q)
    then have "\<not> locked s" using inv ps c by (auto simp: sum_list_replicate)
    then have z: "q = Producer P_lock 0" if "q \<in> set qs" for q using q[OF that] by auto
    then have "map to_come qs = replicate (length qs) 0" "\<not> list_ex will_signal qs"
      by (intro replicate_eqI) (auto simp: list_ex_iff will_signal_def dest: z)
    then have "tot \<le> numConsumed s" using inv ps c \<open>\<not> locked s\<close> by (auto simp: sum_list_replicate)
    then show False using inv ps c by (auto simp: cons_ok_def)
  qed
  moreover have "tot \<le> numConsumed s" using inv ps calculation by (auto simp: cons_ok_def)
  ultimately show ?thesis using inv ps to_come_nonneg[OF qs] by simp
qed

lemma sum_nat_atoi: "list_all (\<lambda>a. 0 \<le> atoi a) args \<Longrightarrow> sum_list (map (\<lambda>a. int (nat (atoi a))) args) = sum_list (map atoi args)"
  by (induction args) auto

lemma prod_always_ends:
  assumes "list_all (\<lambda>a. 0 \<le> atoi a) args" "0 < sum_list (map atoi args)"
  shows "always_ends prod_next (prod_main args k) (\<lambda>(s, ps). exited s \<and> numConsumed s = sum_list (map atoi args) \<and> avail s = 0)"
proof -
  have "map in_section (map (\<lambda>a. Producer P_lock (nat (atoi a))) args) = replicate (length args) 0"
    by (intro replicate_eqI) auto
  then have "prod_inv (sum_list (map atoi args)) (fst (prod_main args k)) (snd (prod_main args k))"
    using assms sum_nat_atoi[OF assms(1)] by (simp add: prod_main_def cons_ok_def comp_def sum_list_replicate list_all_iff)
  from condvar.always_endsI[OF this] show ?thesis using prod_final by (simp add: prod_main_def)
qed

text \<open>Without a unit to produce the consumer waits for ever.\<close>

fun no_units_inv :: "units \<Rightarrow> pthread list \<Rightarrow> bool" where
  "no_units_inv s [Consumer pc, Wakeups k] =
     (avail s = 0 \<and> \<not> finished s \<and> \<not> exited s \<and> (pc = C_lock \<or> pc = C_test \<or> pc = C_asleep))"
| "no_units_inv s ps = False"

interpretation no_units: interleaved prod_next no_units_inv
proof
  fix s ps i p t assume inv: "no_units_inv s ps" and i: "i < length ps" and nx: "prod_next (ps ! i) s = Some (p, t)"
  obtain pc k where ps: "ps = [Consumer pc, Wakeups k]" using inv by (cases "(s, ps)" rule: no_units_inv.cases) auto
  have "i = 0 \<or> i = 1" using i ps by auto
  then show "no_units_inv t (ps[i := p])"
    using inv nx ps by (cases pc; cases k) (auto simp: prod_next_def split: if_splits)
qed

lemma no_units_wait: "(interleave prod_next)\<^sup>*\<^sup>* (prod_main [] k) (t, qs) \<Longrightarrow> \<not> exited t"
proof -
  assume r: "(interleave prod_next)\<^sup>*\<^sup>* (prod_main [] k) (t, qs)"
  have "no_units_inv t qs" using no_units.inv_reachable[OF r[unfolded prod_main_def]] by simp
  then show ?thesis by (cases "(t, qs)" rule: no_units_inv.cases) auto
qed

section \<open>Polling\<close>

fun poll_inv :: "int \<Rightarrow> units \<Rightarrow> pthread list \<Rightarrow> bool" where
  "poll_inv tot s (Consumer pc # qs) =
     (list_all (\<lambda>q. prod_ok q \<and> (\<forall>n. q \<noteq> Producer P_signal n)) qs \<and> (finished s \<longleftrightarrow> tot \<le> numConsumed s) \<and>
      (pc = C_lock \<longrightarrow> \<not> finished s) \<and> pc \<noteq> C_test \<and> pc \<noteq> C_asleep \<and> (exited s \<longrightarrow> finished s) \<and>
      totRequired s = tot \<and> 0 \<le> avail s \<and> numConsumed s + avail s + sum_list (map to_come qs) = tot \<and>
      (if locked s then 1 else 0) = in_section (Consumer pc) + sum_list (map in_section qs))"
| "poll_inv tot s _ = False"

fun_cases poll_producerE: "poll_producer pc n s = Some (p, t)"

lemma poll_consumer_step:
  assumes "poll_inv tot s (Consumer pc # qs)" "poll_consumer pc s = Some (p, t)" "\<not> exited s"
  shows "poll_inv tot t (p # qs)"
  using assms sections_nonneg[of qs]
  by (cases pc; simp split: if_splits; (elim conjE; hypsubst)?; simp)

lemma poll_producer_frame:
  assumes "poll_producer pc n s = Some (p, t)"
  shows "prod_ok p" "p \<noteq> Producer P_signal m" "totRequired t = totRequired s" "numConsumed t = numConsumed s" "finished t = finished s"
    "exited t = exited s" "avail t + to_come p = avail s + to_come (Producer pc n)" "avail s \<le> avail t"
  by (rule poll_producerE[OF assms]; simp split: if_splits; fail)+

lemma poll_producer_lock:
  assumes "poll_producer pc n s = Some (p, t)" "(if locked s then 1 else 0) = in_section (Producer pc n) + m" "0 \<le> m"
  shows "(if locked t then 1 else 0) = in_section p + m"
  using assms(2,3) by (rule_tac poll_producerE[OF assms(1)]; simp split: if_splits; fail)

lemma poll_producer_step:
  assumes inv: "poll_inv tot s (Consumer c # qs)" and j: "j < length qs" and q: "qs ! j = Producer pc n"
    and nx: "poll_producer pc n s = Some (p, t)"
  shows "poll_inv tot t (Consumer c # qs[j := p])"
proof -
  note fr = poll_producer_frame[OF nx]
  have 1: "list_all (\<lambda>q. prod_ok q \<and> (\<forall>n. q \<noteq> Producer P_signal n)) (qs[j := p])"
    using inv fr(1,2) j by (simp add: list_all_length nth_list_update)
  have 2: "numConsumed t + avail t + sum_list (map to_come (qs[j := p])) = tot"
    using inv fr sum_list_upd[OF j, of to_come p] q by simp
  let ?m = "in_section (Consumer c) + sum_list (map in_section (qs[j := Wakeups 0]))"
  have "0 \<le> ?m" using sections_nonneg[of "qs[j := Wakeups 0]"] in_section_nonneg[of "Consumer c"] by linarith
  moreover have "(if locked s then 1 else 0) = in_section (Producer pc n) + ?m"
    using inv sum_list_upd[OF j, of in_section "Wakeups 0"] q by simp
  ultimately have "(if locked t then 1 else 0) = in_section p + ?m" using poll_producer_lock[OF nx] by blast
  then have "(if locked t then 1 else 0) = in_section (Consumer c) + sum_list (map in_section (qs[j := p]))"
    using sum_list_upd[OF j, of in_section "Wakeups 0"] sum_list_upd[OF j, of in_section p] by simp
  with 1 2 show ?thesis using inv fr by auto
qed

interpretation polling: interleaved poll_next "poll_inv tot" for tot
proof
  fix s ps i p t assume inv: "poll_inv tot s ps" and i: "i < length ps" and nx: "poll_next (ps ! i) s = Some (p, t)"
  obtain c qs where ps: "ps = Consumer c # qs" using inv by (cases "(tot, s, ps)" rule: poll_inv.cases) auto
  have ex: "\<not> exited s" using nx by (auto simp: poll_next_def)
  show "poll_inv tot t (ps[i := p])"
  proof (cases i)
    case 0
    then show ?thesis using poll_consumer_step[OF inv[unfolded ps]] nx ex ps by (simp add: poll_next_def)
  next
    case (Suc j)
    then have j: "j < length qs" using i ps by simp
    then have "prod_ok (qs ! j)" using inv ps by (auto simp: list_all_length)
    then obtain pc n where q: "qs ! j = Producer pc n" by (cases "qs ! j") auto
    have "poll_producer pc n s = Some (p, t)" using nx ex Suc ps q by (simp add: poll_next_def)
    moreover have "ps[i := p] = Consumer c # qs[j := p]" using Suc ps by simp
    ultimately show ?thesis using poll_producer_step[OF inv[unfolded ps] j q] by metis
  qed
qed

lemma poll_exit: "poll_inv tot s ps \<Longrightarrow> exited s \<Longrightarrow> numConsumed s = tot \<and> avail s = 0"
proof -
  assume inv: "poll_inv tot s ps" and ex: "exited s"
  obtain c qs where ps: "ps = Consumer c # qs" using inv by (cases "(tot, s, ps)" rule: poll_inv.cases) auto
  have "list_all prod_ok qs" using inv ps by (simp add: list_all_iff)
  then show ?thesis using inv ps ex to_come_nonneg by fastforce
qed

lemma poll_never_stuck:
  assumes inv: "poll_inv tot s ps" and "\<not> exited s"
  shows "\<not> stuck poll_next (s, ps)"
proof
  assume st: "stuck poll_next (s, ps)"
  obtain c qs where ps: "ps = Consumer c # qs" using inv by (cases "(tot, s, ps)" rule: poll_inv.cases) auto
  have c: "c = C_lock \<and> locked s"
    using st ps assms by (cases c) (auto simp: stuck_def poll_next_def split: if_splits)
  have "in_section q = 0" if "q \<in> set qs" for q
  proof -
    have "prod_ok q" "\<forall>n. q \<noteq> Producer P_signal n" "poll_next q s = None"
      using that inv st ps by (auto simp: stuck_def list_all_iff)
    then obtain pc n where "q = Producer pc n" "pc = P_lock \<or> 0 < n" "pc \<noteq> P_signal" by (cases q) auto
    then show ?thesis using \<open>poll_next q s = None\<close> assms(2) by (cases pc; cases n) (auto simp: poll_next_def)
  qed
  then have "map in_section qs = replicate (length qs) 0" by (intro replicate_eqI) auto
  then show False using inv ps c by (simp add: sum_list_replicate)
qed

lemma poll_start:
  assumes "list_all (\<lambda>a. 0 \<le> atoi a) args" "0 < sum_list (map atoi args)"
  shows "poll_inv (sum_list (map atoi args)) (fst (poll_main args)) (snd (poll_main args))"
proof -
  have "map in_section (map (\<lambda>a. Producer P_lock (nat (atoi a))) args) = replicate (length args) 0"
    by (intro replicate_eqI) auto
  then show ?thesis
    using assms sum_nat_atoi[OF assms(1)] by (simp add: poll_main_def comp_def sum_list_replicate list_all_iff)
qed

section \<open>Properties\<close>



text \<open>
  The polling variant prod_no_condvar.c never deadlocks, and it exits only when it has consumed
  exactly the units of all producers.
\<close>

theorem polling_consumes_all:
  assumes "list_all (\<lambda>a. 0 \<le> atoi a) args" "0 < sum_list (map atoi args)"
    and "(interleave poll_next)\<^sup>*\<^sup>* (poll_main args) (s, ps)"
  shows "if exited s then numConsumed s = sum_list (map atoi args) \<and> avail s = 0 else \<not> stuck poll_next (s, ps)"
proof -
  have "poll_inv (sum_list (map atoi args)) s ps"
    using polling.inv_reachable poll_start[OF assms(1,2)] assms(3) by (metis prod.collapse)
  then show ?thesis using poll_exit poll_never_stuck by simp
qed

theorem polling_consumes_all_witness:
  "\<exists>s ps. run_schedule poll_next [0, 0, 0, 0, 1, 1, 1, 0, 0, 0, 0, 0] (poll_main [''1'']) = Some (s, ps) \<and> exited s \<and> numConsumed s = 1"
proof -
  have a: "atoi ''1'' = 1" by code_simp
  obtain s ps where r: "run_schedule poll_next [0, 0, 0, 0, 1, 1, 1, 0, 0, 0, 0, 0] (poll_main [''1'']) = Some (s, ps)" "exited s"
    by (simp add: poll_main_def poll_next_def a)
  show ?thesis
    using polling_consumes_all[OF _ _ run_schedule_reachable[OF r(1)]] r by (auto simp: a)
qed

end
