(* ===== verification/Thread_Once.thy ===== *)
theory Thread_Once
  imports Interleave
begin

text \<open>
  One-time initialisation, \<^verbatim>\<open>tlpi-dist/threads/one_time_init.c\<close>: threads that call \<^verbatim>\<open>one_time_init\<close> any
  number of times.  Every access to the control structure and every call is one step.
\<close>

datatype opc = O_lock | O_test | O_init | O_set | O_unlock

text \<open>The mutex and the flag of \<^verbatim>\<open>once_struct\<close>, and how often \<^verbatim>\<open>init_func\<close> has printed its line.\<close>

record once_struct =
  once_mtx :: bool
  called :: bool
  inits :: nat

text \<open>A thread with the calls it still has to make, the current one included.\<close>

fun one_time_init :: "opc \<times> nat \<Rightarrow> once_struct \<Rightarrow> ((opc \<times> nat) \<times> once_struct) option" where
  "one_time_init (pc, 0) s = None"
| "one_time_init (O_lock, Suc n) s = (if once_mtx s then None else Some ((O_test, Suc n), s\<lparr>once_mtx := True\<rparr>))"
| "one_time_init (O_test, Suc n) s = Some (if called s then (O_unlock, Suc n) else (O_init, Suc n), s)"
| "one_time_init (O_init, Suc n) s = Some ((O_set, Suc n), s\<lparr>inits := Suc (inits s)\<rparr>)"
| "one_time_init (O_set, Suc n) s = Some ((O_unlock, Suc n), s\<lparr>called := True\<rparr>)"
| "one_time_init (O_unlock, Suc n) s = Some ((O_lock, n), s\<lparr>once_mtx := False\<rparr>)"

definition ONCE_INITIALIZER :: once_struct where
  "ONCE_INITIALIZER = \<lparr>once_mtx = False, called = False, inits = 0\<rparr>"

text \<open>Each thread of the test program makes two calls; \<^verbatim>\<open>main\<close> starts two threads.\<close>

definition once_threadFunc :: "opc \<times> nat" where
  "once_threadFunc = (O_lock, 2)"

definition once_main :: "once_struct \<times> (opc \<times> nat) list" where
  "once_main = (ONCE_INITIALIZER, [once_threadFunc, once_threadFunc])"

section \<open>The invariant\<close>

definition inside :: "opc \<times> nat \<Rightarrow> bool" where
  "inside p \<longleftrightarrow> fst p \<noteq> O_lock"

fun once_ok :: "nat \<Rightarrow> bool \<Rightarrow> opc \<times> nat \<Rightarrow> bool" where
  "once_ok m c (pc, n) = (n \<le> m \<and> (n < m \<longrightarrow> c) \<and> (pc \<noteq> O_lock \<longrightarrow> 0 < n) \<and> (pc = O_unlock \<longrightarrow> c) \<and>
     (pc = O_init \<or> pc = O_set \<longrightarrow> \<not> c))"

definition once_inv :: "nat \<Rightarrow> once_struct \<Rightarrow> (opc \<times> nat) list \<Rightarrow> bool" where
  "once_inv m s ps \<longleftrightarrow> ps \<noteq> [] \<and> list_all (once_ok m (called s)) ps \<and> tally inside ps = (if once_mtx s then 1 else 0) \<and>
     inits s = (if called s then 1 else tally (\<lambda>p. fst p = O_set) ps)"

fun once_place :: "opc \<Rightarrow> nat" where
  "once_place O_lock = 0"
| "once_place O_test = 1"
| "once_place O_init = 2"
| "once_place O_set = 3"
| "once_place O_unlock = 4"

definition once_rank :: "(opc \<times> nat) list \<Rightarrow> nat" where
  "once_rank ps = sum_list (map (\<lambda>p. 5 * snd p - once_place (fst p)) ps)"

fun_cases one_time_initE: "one_time_init (pc, n) s = Some (p, t)"

lemma once_step:
  assumes inv: "once_inv m s ps" and i: "i < length ps" and nx: "one_time_init (ps ! i) s = Some (p, t)"
  shows "once_inv m t (ps[i := p])"
proof -
  obtain pc n where q: "ps ! i = (pc, n)" by (cases "ps ! i")
  have ok: "once_ok m (called s) (pc, n)" using inv i q by (auto simp: once_inv_def list_all_length)
  have mx: "once_mtx s" if "pc \<noteq> O_lock"
    using that inv tally_pos[OF i, of inside] q by (auto simp: once_inv_def inside_def split: if_splits)
  have others: "fst (ps ! j) = O_lock" if "pc \<noteq> O_lock" "j < length ps" "j \<noteq> i" for j
    using tally_one[of inside ps i j] that inv i q mx by (auto simp: once_inv_def inside_def)
  have set0: "tally (\<lambda>p. fst p = O_set) ps = (if pc = O_set then 1 else 0)" if "pc \<noteq> O_lock"
  proof -
    have "list_all (\<lambda>p. fst p \<noteq> O_set) (ps[i := (O_lock, 0)])" using others[OF that] by (auto simp: list_all_length nth_list_update i)
    then have "tally (\<lambda>p. fst p = O_set) (ps[i := (O_lock, 0)]) = 0" by (simp add: tally_zero)
    then show ?thesis using tally_upd[OF i, of "\<lambda>p. fst p = O_set" "(O_lock, 0)"] q by auto
  qed
  note nq = nx[unfolded q]
  have p: "once_ok m (called t) p" using ok by (rule_tac one_time_initE[OF nq]; simp split: if_splits)
  have "once_ok m (called t) (ps ! j)" if "j < length ps" "j \<noteq> i" for j
  proof (cases "called t = called s")
    case True
    then show ?thesis using inv that by (simp add: once_inv_def list_all_length)
  next
    case False
    then have "pc \<noteq> O_lock \<and> called t" by (rule_tac one_time_initE[OF nq]; simp split: if_splits)
    moreover have "once_ok m (called s) (ps ! j)" using inv that by (simp add: once_inv_def list_all_length)
    ultimately show ?thesis using others[OF _ that] by (cases "ps ! j") auto
  qed
  then have 1: "list_all (once_ok m (called t)) (ps[i := p])" using p i by (simp add: list_all_length nth_list_update)
  have 2: "tally inside (ps[i := p]) = (if once_mtx t then 1 else 0)"
    using tally_upd[OF i, of inside p] inv q mx
    by (rule_tac one_time_initE[OF nq]; simp add: once_inv_def inside_def split: if_splits)
  have 3: "inits t = (if called t then 1 else tally (\<lambda>p. fst p = O_set) (ps[i := p]))"
    using tally_upd[OF i, of "\<lambda>p. fst p = O_set" p] inv q set0 ok
    by (rule_tac one_time_initE[OF nq]; simp add: once_inv_def split: if_splits)
  show ?thesis using 1 2 3 inv by (simp add: once_inv_def)
qed

lemma once_decreases:
  "i < length ps \<Longrightarrow> one_time_init (ps ! i) s = Some (p, t) \<Longrightarrow> once_rank (ps[i := p]) < once_rank ps"
  using sum_list_upd_nat[of i ps "\<lambda>p. 5 * snd p - once_place (fst p)" p]
  by (cases "(ps ! i, s)" rule: one_time_init.cases) (auto simp: once_rank_def split: if_splits)

interpretation once: ending_protocol one_time_init "once_inv m" "\<lambda>_. once_rank" for m
  by unfold_locales (blast intro: once_step once_decreases)+

lemma once_final:
  assumes inv: "once_inv m s ps" and st: "stuck one_time_init (s, ps)" and "0 < m"
  shows "called s \<and> inits s = 1 \<and> list_all (\<lambda>p. p = (O_lock, 0)) ps"
proof -
  have no: "one_time_init p s = None" "once_ok m (called s) p" if "p \<in> set ps" for p
    using that st inv by (auto simp: stuck_def once_inv_def list_all_iff)
  have lk: "fst p = O_lock" if "p \<in> set ps" for p
    using no[OF that] by (cases p; cases "fst p"; cases "snd p") auto
  then have "tally inside ps = 0" by (simp add: tally_zero inside_def list_all_iff)
  then have "\<not> once_mtx s" using inv by (auto simp: once_inv_def split: if_splits)
  then have z: "p = (O_lock, 0)" if "p \<in> set ps" for p
    using no(1)[OF that] lk[OF that] by (cases p; cases "snd p") auto
  obtain p where "p \<in> set ps" using inv by (cases ps) (auto simp: once_inv_def)
  then have "called s" using no(2)[of p] z[of p] assms(3) by auto
  then show ?thesis using inv z by (auto simp: once_inv_def list_all_iff)
qed

lemma once_always_ends:
  assumes "0 < m" "ps \<noteq> []" "list_all (\<lambda>p. p = (O_lock, m)) ps"
  shows "always_ends one_time_init (ONCE_INITIALIZER, ps) (\<lambda>(s, qs). inits s = 1 \<and> list_all (\<lambda>p. p = (O_lock, 0)) qs)"
proof (rule once.always_endsI)
  show "once_inv m ONCE_INITIALIZER ps"
    using assms(2,3) by (auto simp: once_inv_def ONCE_INITIALIZER_def list_all_iff tally_zero inside_def)
qed (use once_final[OF _ _ assms(1)] in simp)

text \<open>Once any call has returned, the initialisation has been made exactly once.\<close>

lemma once_returned:
  assumes "(interleave one_time_init)\<^sup>*\<^sup>* (ONCE_INITIALIZER, ps) (s, qs)" "ps \<noteq> []" "list_all (\<lambda>p. p = (O_lock, m)) ps"
    and "q \<in> set qs" "snd q < m"
  shows "inits s = 1"
proof -
  have "once_inv m ONCE_INITIALIZER ps"
    using assms(2,3) by (auto simp: once_inv_def ONCE_INITIALIZER_def list_all_iff tally_zero inside_def)
  then have inv: "once_inv m s qs" using once.inv_reachable assms(1) by blast
  then have "once_ok m (called s) q" using assms(4) by (simp add: once_inv_def list_all_iff)
  then have "called s" using assms(5) by (cases q) simp
  then show ?thesis using inv by (simp add: once_inv_def)
qed

section \<open>Property\<close>

text \<open>
  Any number of threads that each call one_time_init any positive number of times end under every
  scheduling; the initialisation function has run exactly once at the end, and already when the first
  call of any thread returns.
\<close>

theorem initialised_exactly_once:
  assumes "0 < m" "ps \<noteq> []" "list_all (\<lambda>p. p = (O_lock, m)) ps"
  shows "always_ends one_time_init (ONCE_INITIALIZER, ps) (\<lambda>(s, qs). inits s = 1 \<and> list_all (\<lambda>p. p = (O_lock, 0)) qs)
    \<and> ((interleave one_time_init)\<^sup>*\<^sup>* (ONCE_INITIALIZER, ps) (s, qs) \<and> q \<in> set qs \<and> snd q < m \<longrightarrow> inits s = 1)"
  using once_always_ends[OF assms] once_returned[OF _ assms(2,3)] by blast

theorem initialised_exactly_once_witness:
  "always_ends one_time_init once_main (\<lambda>(s, qs). inits s = 1 \<and> list_all (\<lambda>p. p = (O_lock, 0)) qs)"
  using initialised_exactly_once[of 2 "[once_threadFunc, once_threadFunc]"] by (simp add: once_main_def once_threadFunc_def)

end
