(* ===== verification/Shm_Transfer.thy ===== *)
theory Shm_Transfer
  imports C_Strings Interleave
begin

text \<open>
  System V semaphores and the transfer of a stream through shared memory: the binary semaphore
  protocol \<^verbatim>\<open>tlpi-dist/svsem/binary_sems.c\<close>, the event flags \<^verbatim>\<open>tlpi-dist/svsem/event_flags.c\<close>, and the
  programs \<^verbatim>\<open>svshm_xfr_writer.c\<close> and \<^verbatim>\<open>svshm_xfr_reader.c\<close> of \<^verbatim>\<open>tlpi-dist/svshm\<close> that use the former.  The writer
  and the reader interleave at their semaphore calls and at their accesses to the shared segment.
\<close>

section \<open>Semaphores\<close>

type_synonym semset = "nat \<Rightarrow> nat"

definition SEMVMX :: nat where
  "SEMVMX = 32767"

text \<open>
  One semaphore operation: no value when it blocks, an error when the value would grow too large.
\<close>

definition semop :: "semset \<Rightarrow> nat \<Rightarrow> int \<Rightarrow> ((errno + unit) \<times> semset) option" where
  "semop s n oper =
     (if oper < 0 then (if nat (- oper) \<le> s n then Some (Inr (), s(n := s n - nat (- oper))) else None)
      else if oper = 0 then (if s n = 0 then Some (Inr (), s) else None)
      else if SEMVMX < s n + nat oper then Some (Inl ERANGE, s)
      else Some (Inr (), s(n := s n + nat oper)))"

definition initSemAvailable :: "semset \<Rightarrow> nat \<Rightarrow> semset" where
  "initSemAvailable s n = s(n := 1)"

definition initSemInUse :: "semset \<Rightarrow> nat \<Rightarrow> semset" where
  "initSemInUse s n = s(n := 0)"

text \<open>The errors are those that calls of \<^verbatim>\<open>semop\<close> return before one proceeds or blocks.\<close>

fun reserveSem :: "bool \<Rightarrow> errno list \<Rightarrow> semset \<Rightarrow> nat \<Rightarrow> ((errno + unit) \<times> semset) option" where
  "reserveSem bsRetryOnEintr [] s n = semop s n (-1)"
| "reserveSem bsRetryOnEintr (e # es) s n =
     (if e \<noteq> EINTR \<or> \<not> bsRetryOnEintr then Some (Inl e, s) else reserveSem bsRetryOnEintr es s n)"

definition releaseSem :: "semset \<Rightarrow> nat \<Rightarrow> ((errno + unit) \<times> semset) option" where
  "releaseSem s n = semop s n 1"

text \<open>Event flags: a flag is set when its semaphore is zero.\<close>

fun waitForEventFlag :: "errno list \<Rightarrow> semset \<Rightarrow> nat \<Rightarrow> ((errno + unit) \<times> semset) option" where
  "waitForEventFlag [] s n = semop s n 0"
| "waitForEventFlag (e # es) s n = (if e \<noteq> EINTR then Some (Inl e, s) else waitForEventFlag es s n)"

definition clearEventFlag :: "semset \<Rightarrow> nat \<Rightarrow> semset" where
  "clearEventFlag s n = s(n := 1)"

definition setEventFlag :: "semset \<Rightarrow> nat \<Rightarrow> semset" where
  "setEventFlag s n = s(n := 0)"

definition getFlagState :: "semset \<Rightarrow> nat \<Rightarrow> bool" where
  "getFlagState s n \<longleftrightarrow> s n = 0"

section \<open>The transfer programs\<close>

definition WRITE_SEM :: nat where
  "WRITE_SEM = 0"

definition READ_SEM :: nat where
  "READ_SEM = 1"

definition XFR_BUF_SIZE :: nat where
  "XFR_BUF_SIZE = 1024"

text \<open>
  The semaphore set and the segment, the blocks that the writer's reads of standard input still
  return and whether an error or the end of file follows them, what the reader has written and how much
  it can write, and the messages at the end; the objects may have been removed.
\<close>

record xfr =
  sems :: semset
  cnt :: nat
  buf :: string
  input :: "string list"
  read_error :: bool
  outp :: string
  out_space :: nat
  removed :: bool
  sent_msg :: "string option"
  received_msg :: "string option"

datatype wpc = W_reserve | W_read | W_release | W_test | W_count | W_last | W_remove | W_end | W_failed

datatype rpc = R_reserve | R_test | R_write | R_release | R_detach | R_last | R_print | R_end | R_failed

text \<open>Each process has its program counter, \<^verbatim>\<open>xfrs\<close> and \<^verbatim>\<open>bytes\<close>.\<close>

datatype xproc = Writer wpc nat nat | Reader rpc nat nat

text \<open>A semaphore call of a process: it blocks, fails, or goes on.\<close>

definition sem_call :: "((errno + unit) \<times> semset) option \<Rightarrow> xproc \<Rightarrow> xproc \<Rightarrow> xfr \<Rightarrow> (xproc \<times> xfr) option" where
  "sem_call r failed next_p s =
     (if removed s then Some (failed, s)
      else case r of None \<Rightarrow> None | Some (Inl e, m) \<Rightarrow> Some (failed, s) | Some (Inr u, m) \<Rightarrow> Some (next_p, s\<lparr>sems := m\<rparr>))"

definition xfr_text :: "string \<Rightarrow> nat \<Rightarrow> nat \<Rightarrow> string" where
  "xfr_text w b x = w @ show_nat b @ '' bytes ('' @ show_nat x @ '' xfrs)'' @ [CHR 0x0A]"

fun writer_next :: "errno list \<Rightarrow> wpc \<Rightarrow> nat \<Rightarrow> nat \<Rightarrow> xfr \<Rightarrow> (xproc \<times> xfr) option" where
  "writer_next es W_reserve x b s = sem_call (reserveSem True es (sems s) WRITE_SEM) (Writer W_failed x b) (Writer W_read x b) s"
| "writer_next es W_read x b s =
     (case input s of
        [] \<Rightarrow> Some (if read_error s then (Writer W_failed x b, s) else (Writer W_release x b, s\<lparr>cnt := 0\<rparr>))
      | c # cs \<Rightarrow> Some (Writer W_release x b, s\<lparr>cnt := length c, buf := c @ drop (length c) (buf s), input := cs\<rparr>))"
| "writer_next es W_release x b s = sem_call (releaseSem (sems s) READ_SEM) (Writer W_failed x b) (Writer W_test x b) s"
| "writer_next es W_test x b s = Some (Writer (if cnt s = 0 then W_last else W_count) x b, s)"
| "writer_next es W_count x b s = Some (Writer W_reserve (Suc x) (b + cnt s), s)"
| "writer_next es W_last x b s = sem_call (reserveSem True es (sems s) WRITE_SEM) (Writer W_failed x b) (Writer W_remove x b) s"
| "writer_next es W_remove x b s = Some (Writer W_end x b, s\<lparr>removed := True, sent_msg := Some (xfr_text ''Sent '' b x)\<rparr>)"
| "writer_next es W_end x b s = None"
| "writer_next es W_failed x b s = None"

fun reader_next :: "errno list \<Rightarrow> rpc \<Rightarrow> nat \<Rightarrow> nat \<Rightarrow> xfr \<Rightarrow> (xproc \<times> xfr) option" where
  "reader_next es R_reserve x b s = sem_call (reserveSem True es (sems s) READ_SEM) (Reader R_failed x b) (Reader R_test x b) s"
| "reader_next es R_test x b s = Some (if cnt s = 0 then Reader R_detach x b else Reader R_write x (b + cnt s), s)"
| "reader_next es R_write x b s =
     (let out = outp s @ take (cnt s) (buf s)
      in Some (if length out \<le> out_space s then (Reader R_release x b, s\<lparr>outp := out\<rparr>)
               else (Reader R_failed x b, s\<lparr>outp := take (out_space s) out\<rparr>)))"
| "reader_next es R_release x b s = sem_call (releaseSem (sems s) WRITE_SEM) (Reader R_failed x b) (Reader R_reserve (Suc x) b) s"
| "reader_next es R_detach x b s = Some (Reader R_last x b, s)"
| "reader_next es R_last x b s = sem_call (releaseSem (sems s) WRITE_SEM) (Reader R_failed x b) (Reader R_print x b) s"
| "reader_next es R_print x b s = Some (Reader R_end x b, s\<lparr>received_msg := Some (xfr_text ''Received '' b x)\<rparr>)"
| "reader_next es R_end x b s = None"
| "reader_next es R_failed x b s = None"

text \<open>The signals that interrupt a reservation are given by the number of transfers so far.\<close>

definition xfr_next :: "(nat \<Rightarrow> errno list) \<Rightarrow> xproc \<Rightarrow> xfr \<Rightarrow> (xproc \<times> xfr) option" where
  "xfr_next ints p s =
     (case p of Writer pc x b \<Rightarrow> writer_next (ints x) pc x b s | Reader pc x b \<Rightarrow> reader_next (ints x) pc x b s)"

text \<open>The start: the writer creates and initialises the objects, then the reader starts.\<close>

definition xfr_main :: "string list \<Rightarrow> bool \<Rightarrow> nat \<Rightarrow> xfr \<times> xproc list" where
  "xfr_main blocks err space =
     (\<lparr>sems = initSemInUse (initSemAvailable (\<lambda>_. 0) WRITE_SEM) READ_SEM, cnt = 0, buf = replicate XFR_BUF_SIZE (CHR 0x00),
        input = blocks, read_error = err, outp = [], out_space = space, removed = False, sent_msg = None, received_msg = None\<rparr>,
      [Writer W_reserve 0 0, Reader R_reserve 0 0])"

section \<open>The invariant\<close>

text \<open>
  Exactly one of the processes has the turn, or one of the semaphores offers it.
\<close>

definition w_turn :: "wpc \<Rightarrow> nat" where
  "w_turn w = (if w = W_read \<or> w = W_release \<or> w = W_remove \<or> w = W_end then 1 else 0)"

definition r_turn :: "rpc \<Rightarrow> nat" where
  "r_turn r = (if r = R_test \<or> r = R_write \<or> r = R_release \<or> r = R_detach \<or> r = R_last then 1 else 0)"

text \<open>The reader has seen the end; a block is in the segment; the writer has not yet counted its block.\<close>

definition r_past :: "rpc \<Rightarrow> bool" where
  "r_past r \<longleftrightarrow> r = R_detach \<or> r = R_last \<or> r = R_print \<or> r = R_end"

definition w_past :: "wpc \<Rightarrow> bool" where
  "w_past w \<longleftrightarrow> w = W_last \<or> w = W_remove \<or> w = W_end"

definition full :: "xfr \<Rightarrow> wpc \<Rightarrow> rpc \<Rightarrow> bool" where
  "full s w r \<longleftrightarrow> 0 < sems s READ_SEM \<or> r = R_test \<or> r = R_write \<or> w = W_release"

definition uncounted :: "wpc \<Rightarrow> bool" where
  "uncounted w \<longleftrightarrow> w = W_release \<or> w = W_test \<or> w = W_count"

text \<open>Turns, data, and what is known at the places of the two programs.\<close>

definition turns_ok :: "xfr \<Rightarrow> wpc \<Rightarrow> rpc \<Rightarrow> bool" where
  "turns_ok s w r \<longleftrightarrow> sems s WRITE_SEM + sems s READ_SEM + w_turn w + r_turn r = 1 \<and>
     w \<noteq> W_failed \<and> r \<noteq> R_failed \<and> (removed s \<longleftrightarrow> w = W_end)"

definition data_ok :: "string list \<Rightarrow> xfr \<Rightarrow> wpc \<Rightarrow> rpc \<Rightarrow> bool" where
  "data_ok blocks s w r \<longleftrightarrow>
     outp s @ (if full s w r then take (cnt s) (buf s) else []) @ concat (input s) = concat blocks \<and>
     cnt s \<le> length (buf s) \<and> list_all (\<lambda>c. c \<noteq> []) (input s) \<and>
     \<not> read_error s \<and> length (concat blocks) \<le> out_space s"

definition places_ok :: "xfr \<Rightarrow> wpc \<Rightarrow> rpc \<Rightarrow> bool" where
  "places_ok s w r \<longleftrightarrow>
     (w_past w \<or> r_past r \<or> full s w r \<and> cnt s = 0 \<longrightarrow> cnt s = 0 \<and> input s = []) \<and>
     (r_past r \<longrightarrow> (w = W_test \<or> w_past w) \<and> sems s READ_SEM = 0) \<and>
     (full s w r \<and> cnt s = 0 \<longrightarrow> w = W_release \<or> w = W_test \<or> w = W_last) \<and>
     ((w = W_test \<and> cnt s = 0) \<or> w = W_last \<longrightarrow> full s w r \<or> r_past r) \<and>
     (w = W_remove \<or> w = W_end \<longrightarrow> r = R_print \<or> r = R_end) \<and>
     (w = W_count \<or> r = R_write \<or> r = R_release \<longrightarrow> 0 < cnt s)"

definition counts_ok :: "string list \<Rightarrow> xfr \<Rightarrow> wpc \<Rightarrow> rpc \<Rightarrow> nat \<Rightarrow> nat \<Rightarrow> nat \<Rightarrow> nat \<Rightarrow> bool" where
  "counts_ok blocks s w r wx wb rx rb \<longleftrightarrow>
     wb + (if uncounted w then cnt s else 0) + length (concat (input s)) = length (concat blocks) \<and>
     wx + (if uncounted w \<and> 0 < cnt s then 1 else 0) + length (input s) = length blocks \<and>
     rb = length (outp s) + (if r = R_write then cnt s else 0) \<and>
     rx + (if r = R_release then 1 else 0) + (if full s w r \<and> 0 < cnt s then 1 else 0) + length (input s) = length blocks \<and>
     sent_msg s = (if w = W_end then Some (xfr_text ''Sent '' wb wx) else None) \<and>
     received_msg s = (if r = R_end then Some (xfr_text ''Received '' rb rx) else None)"

fun xfr_inv :: "string list \<Rightarrow> xfr \<Rightarrow> xproc list \<Rightarrow> bool" where
  "xfr_inv blocks s [Writer w wx wb, Reader r rx rb] =
     (turns_ok s w r \<and> data_ok blocks s w r \<and> places_ok s w r \<and> counts_ok blocks s w r wx wb rx rb)"
| "xfr_inv blocks s ps = False"

definition w_rank :: "wpc \<Rightarrow> nat \<Rightarrow> nat" where
  "w_rank w c = (case w of W_reserve \<Rightarrow> 10 | W_read \<Rightarrow> 10 | W_release \<Rightarrow> if c = 0 then 9 else 19 | W_test \<Rightarrow> if c = 0 then 3 else 13
     | W_count \<Rightarrow> 12 | W_last \<Rightarrow> 2 | W_remove \<Rightarrow> 1 | W_end \<Rightarrow> 0 | W_failed \<Rightarrow> 0)"

definition r_rank :: "rpc \<Rightarrow> nat" where
  "r_rank r = (case r of R_reserve \<Rightarrow> 4 | R_test \<Rightarrow> 8 | R_write \<Rightarrow> 7 | R_release \<Rightarrow> 6 | R_detach \<Rightarrow> 4 | R_last \<Rightarrow> 3 | R_print \<Rightarrow> 1
     | R_end \<Rightarrow> 0 | R_failed \<Rightarrow> 0)"

fun xfr_rank :: "xfr \<Rightarrow> xproc list \<Rightarrow> nat" where
  "xfr_rank s [Writer w wx wb, Reader r rx rb] =
     10 * length (input s) + w_rank w (cnt s) + r_rank r + sems s WRITE_SEM + 5 * sems s READ_SEM"
| "xfr_rank s ps = 0"

text \<open>Interruptions are retried; the calls then do what the protocol expects.\<close>

lemma reserve_retry: "list_all (\<lambda>e. e = EINTR) es \<Longrightarrow> reserveSem True es s n = semop s n (-1)"
  by (induction es) auto

lemma sem_numbers [simp]: "WRITE_SEM \<noteq> READ_SEM" "READ_SEM \<noteq> WRITE_SEM"
  by (simp_all add: WRITE_SEM_def READ_SEM_def)

lemma sem_call_reserve:
  assumes "sem_call (semop (sems s) n (-1)) f g s = Some (p, t)" "\<not> removed s"
  shows "0 < sems s n \<and> p = g \<and> t = s\<lparr>sems := (sems s)(n := sems s n - 1)\<rparr>"
  using assms by (auto simp: sem_call_def semop_def split: if_splits)

lemma sem_call_release:
  assumes "sem_call (releaseSem (sems s) n) f g s = Some (p, t)" "\<not> removed s" "sems s n < SEMVMX"
  shows "p = g \<and> t = s\<lparr>sems := (sems s)(n := Suc (sems s n))\<rparr>"
  using assms by (auto simp: sem_call_def semop_def releaseSem_def split: if_splits)

lemmas place_defs = w_turn_def r_turn_def r_past_def w_past_def full_def uncounted_def

lemma writer_stepE:
  assumes nx: "writer_next es w x b s = Some (p, t)" and t: "turns_ok s w r" and es: "list_all (\<lambda>e. e = EINTR) es"
    and da: "data_ok blocks s w r"
  obtains (reserve) "w = W_reserve" "0 < sems s WRITE_SEM" "p = Writer W_read x b" "t = s\<lparr>sems := (sems s)(WRITE_SEM := sems s WRITE_SEM - 1)\<rparr>"
  | (at_end) "w = W_read" "input s = []" "p = Writer W_release x b" "t = s\<lparr>cnt := 0\<rparr>"
  | (block) c cs where "w = W_read" "input s = c # cs" "p = Writer W_release x b"
      "t = s\<lparr>cnt := length c, buf := c @ drop (length c) (buf s), input := cs\<rparr>"
  | (release) "w = W_release" "p = Writer W_test x b" "t = s\<lparr>sems := (sems s)(READ_SEM := Suc (sems s READ_SEM))\<rparr>"
  | (test) "w = W_test" "p = Writer (if cnt s = 0 then W_last else W_count) x b" "t = s"
  | (count) "w = W_count" "p = Writer W_reserve (Suc x) (b + cnt s)" "t = s"
  | (last) "w = W_last" "0 < sems s WRITE_SEM" "p = Writer W_remove x b" "t = s\<lparr>sems := (sems s)(WRITE_SEM := sems s WRITE_SEM - 1)\<rparr>"
  | (remove) "w = W_remove" "p = Writer W_end x b" "t = s\<lparr>removed := True, sent_msg := Some (xfr_text ''Sent '' b x)\<rparr>"
proof -
  have rm: "\<not> removed s" if "w \<noteq> W_end" using t that by (simp add: turns_ok_def)
  have small: "sems s READ_SEM < SEMVMX" using t by (simp add: turns_ok_def SEMVMX_def)
  show ?thesis
  proof (cases w)
    case W_reserve
    then show ?thesis using nx sem_call_reserve[OF _ rm] reserve_retry[OF es] by (intro reserve) auto
  next
    case W_read
    show ?thesis
    proof (cases "input s")
      case Nil
      then show ?thesis using nx W_read da by (intro at_end) (auto simp: data_ok_def)
    next
      case (Cons c cs)
      then show ?thesis using nx W_read by (intro block[of c cs]) auto
    qed
  next
    case W_release
    then show ?thesis using nx sem_call_release[OF _ rm small] by (intro release) auto
  next
    case W_last
    then show ?thesis using nx sem_call_reserve[OF _ rm] reserve_retry[OF es] by (intro last) auto
  next
    case W_test
    then show ?thesis using nx by (intro test) auto
  next
    case W_count
    then show ?thesis using nx by (intro count) auto
  next
    case W_remove
    then show ?thesis using nx by (intro remove) auto
  qed (use nx in simp_all)
qed

lemma reader_stepE:
  assumes nx: "reader_next es r x b s = Some (p, t)" and t: "turns_ok s w r" and es: "list_all (\<lambda>e. e = EINTR) es"
    and pl: "places_ok s w r" and da: "data_ok blocks s w r"
  obtains (reserve) "r = R_reserve" "0 < sems s READ_SEM" "p = Reader R_test x b" "t = s\<lparr>sems := (sems s)(READ_SEM := sems s READ_SEM - 1)\<rparr>"
  | (at_end) "r = R_test" "cnt s = 0" "p = Reader R_detach x b" "t = s"
  | (block) "r = R_test" "0 < cnt s" "p = Reader R_write x (b + cnt s)" "t = s"
  | (copy) "r = R_write" "p = Reader R_release x b" "t = s\<lparr>outp := outp s @ take (cnt s) (buf s)\<rparr>"
  | (release) "r = R_release" "p = Reader R_reserve (Suc x) b" "t = s\<lparr>sems := (sems s)(WRITE_SEM := Suc (sems s WRITE_SEM))\<rparr>"
  | (detach) "r = R_detach" "p = Reader R_last x b" "t = s"
  | (last) "r = R_last" "p = Reader R_print x b" "t = s\<lparr>sems := (sems s)(WRITE_SEM := Suc (sems s WRITE_SEM))\<rparr>"
  | (message) "r = R_print" "p = Reader R_end x b" "t = s\<lparr>received_msg := Some (xfr_text ''Received '' b x)\<rparr>"
proof -
  have rm: "\<not> removed s" if "r \<noteq> R_print" "r \<noteq> R_end" using t pl that by (auto simp: turns_ok_def places_ok_def)
  have small: "sems s WRITE_SEM < SEMVMX" using t by (simp add: turns_ok_def SEMVMX_def)
  show ?thesis
  proof (cases r)
    case R_reserve
    then show ?thesis using nx sem_call_reserve[OF _ rm] reserve_retry[OF es] by (intro reserve) auto
  next
    case R_release
    then show ?thesis using nx sem_call_release[OF _ rm small] by (intro release) auto
  next
    case R_last
    then show ?thesis using nx sem_call_release[OF _ rm small] by (intro last) auto
  next
    case R_test
    show ?thesis
    proof (cases "cnt s = 0")
      case True
      then show ?thesis using nx R_test by (intro at_end) auto
    next
      case False
      then show ?thesis using nx R_test by (intro block) auto
    qed
  next
    case R_write
    have "concat blocks = outp s @ take (cnt s) (buf s) @ concat (input s)"
      using da R_write by (simp add: data_ok_def full_def)
    then have "length (outp s @ take (cnt s) (buf s)) \<le> out_space s" using da by (auto simp: data_ok_def)
    then show ?thesis using nx R_write by (intro copy) auto
  next
    case R_detach
    then show ?thesis using nx by (intro detach) auto
  next
    case R_print
    then show ?thesis using nx by (intro message) auto
  qed (use nx in simp_all)
qed

lemmas inv_defs = turns_ok_def data_ok_def places_ok_def counts_ok_def

lemma writer_keeps:
  assumes nx: "writer_next es w x b s = Some (p, t)" and es: "list_all (\<lambda>e. e = EINTR) es"
    and inv: "turns_ok s w r" "data_ok blocks s w r" "places_ok s w r" "counts_ok blocks s w r x b rx rb"
  shows "xfr_inv blocks t [p, Reader r rx rb]"
  using nx inv(1) es inv(2)
  by (cases rule: writer_stepE; cases r; use inv in \<open>simp add: inv_defs place_defs split: if_splits\<close>)

lemma reader_keeps:
  assumes nx: "reader_next es r x b s = Some (p, t)" and es: "list_all (\<lambda>e. e = EINTR) es"
    and inv: "turns_ok s w r" "data_ok blocks s w r" "places_ok s w r" "counts_ok blocks s w r wx wb x b"
  shows "xfr_inv blocks t [Writer w wx wb, p]"
  using nx inv(1) es inv(3,2)
  by (cases rule: reader_stepE; cases w; use inv in \<open>simp add: inv_defs place_defs split: if_splits\<close>)

lemma writer_ranks:
  assumes nx: "writer_next es w x b s = Some (p, t)" and es: "list_all (\<lambda>e. e = EINTR) es"
    and inv: "turns_ok s w r" "data_ok blocks s w r"
  shows "xfr_rank t [p, Reader r rx rb] < xfr_rank s [Writer w x b, Reader r rx rb]"
  using nx inv(1) es inv(2) by (cases rule: writer_stepE; use inv(2) in \<open>simp add: w_rank_def data_ok_def\<close>)

lemma reader_ranks:
  assumes nx: "reader_next es r x b s = Some (p, t)" and es: "list_all (\<lambda>e. e = EINTR) es"
    and inv: "turns_ok s w r" "places_ok s w r" "data_ok blocks s w r"
  shows "xfr_rank t [Writer w wx wb, p] < xfr_rank s [Writer w wx wb, Reader r x b]"
  using nx inv(1) es inv(2,3) by (cases rule: reader_stepE) (simp_all add: r_rank_def)

lemma xfr_step:
  assumes inv: "xfr_inv blocks s ps" and i: "i < length ps" and nx: "xfr_next ints (ps ! i) s = Some (p, t)"
    and es: "\<And>n. list_all (\<lambda>e. e = EINTR) (ints n)"
  shows "xfr_inv blocks t (ps[i := p]) \<and> xfr_rank t (ps[i := p]) < xfr_rank s ps"
proof -
  obtain w wx wb r rx rb where ps: "ps = [Writer w wx wb, Reader r rx rb]"
    using inv by (cases "(blocks, s, ps)" rule: xfr_inv.cases) auto
  have "i = 0 \<or> i = 1" using i ps by auto
  then show ?thesis
  proof
    assume "i = 0"
    then show ?thesis using nx ps inv writer_keeps[OF _ es] writer_ranks[OF _ es] by (auto simp: xfr_next_def)
  next
    assume "i = 1"
    then show ?thesis using nx ps inv reader_keeps[OF _ es] reader_ranks[OF _ es] by (auto simp: xfr_next_def)
  qed
qed

interpretation transfer: ending_protocol "xfr_next ints" "\<lambda>s ps. (\<forall>n. list_all (\<lambda>e. e = EINTR) (ints n)) \<and> xfr_inv blocks s ps" xfr_rank
  for ints blocks
  by unfold_locales (use xfr_step in blast)+

lemma reserve_blocked:
  assumes "sem_call (reserveSem True es (sems s) n) f g s = None" "list_all (\<lambda>e. e = EINTR) es"
  shows "sems s n = 0"
  using assms by (auto simp: reserve_retry sem_call_def semop_def split: if_splits)

lemma release_not_blocked: "sem_call (releaseSem (sems s) n) f g s \<noteq> None"
  by (auto simp: sem_call_def releaseSem_def semop_def)

lemma writer_blocked:
  assumes "writer_next es w x b s = None" "list_all (\<lambda>e. e = EINTR) es" "w \<noteq> W_failed"
  shows "w = W_end \<or> (w = W_reserve \<or> w = W_last) \<and> sems s WRITE_SEM = 0"
  using assms reserve_blocked[OF _ assms(2)] by (cases w) (auto simp: release_not_blocked split: list.splits)

lemma reader_blocked:
  assumes "reader_next es r x b s = None" "list_all (\<lambda>e. e = EINTR) es" "r \<noteq> R_failed"
  shows "r = R_end \<or> r = R_reserve \<and> sems s READ_SEM = 0"
  using assms reserve_blocked[OF _ assms(2)] by (cases r) (auto simp: release_not_blocked Let_def)

lemma xfr_final:
  assumes es: "\<forall>n. list_all (\<lambda>e. e = EINTR) (ints n)" and inv: "xfr_inv blocks s ps" and st: "stuck (xfr_next ints) (s, ps)"
  shows "outp s = concat blocks \<and> removed s \<and> sent_msg s = Some (xfr_text ''Sent '' (length (concat blocks)) (length blocks)) \<and>
    received_msg s = Some (xfr_text ''Received '' (length (concat blocks)) (length blocks))"
proof -
  obtain w wx wb r rx rb where ps: "ps = [Writer w wx wb, Reader r rx rb]"
    using inv by (cases "(blocks, s, ps)" rule: xfr_inv.cases) auto
  note i = inv[unfolded ps xfr_inv.simps]
  have nf: "w \<noteq> W_failed" "r \<noteq> R_failed" using i by (auto simp: turns_ok_def)
  have w: "w = W_end \<or> (w = W_reserve \<or> w = W_last) \<and> sems s WRITE_SEM = 0"
    using st ps es writer_blocked[OF _ _ nf(1)] by (auto simp: stuck_def xfr_next_def)
  have r: "r = R_end \<or> r = R_reserve \<and> sems s READ_SEM = 0"
    using st ps es reader_blocked[OF _ _ nf(2)] by (auto simp: stuck_def xfr_next_def)
  have tu: "turns_ok s w r" and pl: "places_ok s w r" using i by blast+
  have re: "r = R_end"
  proof (rule ccontr)
    assume "r \<noteq> R_end"
    then have r': "r = R_reserve" "sems s READ_SEM = 0" using r by auto
    then have "w \<noteq> W_end" using pl by (auto simp: places_ok_def)
    then show False using w tu r' by (auto simp: turns_ok_def w_turn_def r_turn_def)
  qed
  have "w = W_end"
  proof (rule ccontr)
    assume "w \<noteq> W_end"
    then have w': "w = W_reserve \<or> w = W_last" "sems s WRITE_SEM = 0" using w by auto
    then have "w = W_last" using pl re by (auto simp: places_ok_def r_past_def w_past_def)
    then have "0 < sems s READ_SEM" using tu w'(2) re by (simp add: turns_ok_def w_turn_def r_turn_def)
    then show False using pl re by (simp add: places_ok_def r_past_def)
  qed
  moreover have "input s = []" using calculation pl by (auto simp: places_ok_def w_past_def)
  ultimately show ?thesis using re i by (auto simp: inv_defs full_def uncounted_def w_turn_def r_turn_def)
qed

lemma xfr_start:
  assumes "list_all (\<lambda>c. c \<noteq> []) blocks" "length (concat blocks) \<le> space"
  shows "xfr_inv blocks (fst (xfr_main blocks False space)) (snd (xfr_main blocks False space))"
  using assms
  by (simp add: xfr_main_def inv_defs place_defs initSemInUse_def initSemAvailable_def)

lemma xfr_always_ends:
  assumes "list_all (\<lambda>c. c \<noteq> []) blocks" "\<forall>n. list_all (\<lambda>e. e = EINTR) (ints n)"
    and "length (concat blocks) \<le> space"
  shows "always_ends (xfr_next ints) (xfr_main blocks False space) (\<lambda>(s, ps). outp s = concat blocks \<and> removed s \<and>
    sent_msg s = Some (xfr_text ''Sent '' (length (concat blocks)) (length blocks)) \<and>
    received_msg s = Some (xfr_text ''Received '' (length (concat blocks)) (length blocks)))"
proof -
  have "always_ends (xfr_next ints) (fst (xfr_main blocks False space), snd (xfr_main blocks False space)) (\<lambda>(s, ps). outp s = concat blocks \<and> removed s \<and>
    sent_msg s = Some (xfr_text ''Sent '' (length (concat blocks)) (length blocks)) \<and>
    received_msg s = Some (xfr_text ''Received '' (length (concat blocks)) (length blocks)))"
    by (rule transfer.always_endsI[of ints blocks]) (use assms xfr_start[OF assms(1,3)] xfr_final[of ints blocks] in auto)
  then show ?thesis by simp
qed

section \<open>Event flags\<close>

text \<open>A waiting process goes on exactly when the flag is set, whatever interrupts it, and does not change it.\<close>

lemma wait_for_flag:
  assumes "list_all (\<lambda>e. e = EINTR) es"
  shows "waitForEventFlag es s n = (if getFlagState s n then Some (Inr (), s) else None)"
    and "getFlagState (setEventFlag s n) m \<longleftrightarrow> m = n \<or> getFlagState s m"
    and "getFlagState (clearEventFlag s n) m \<longleftrightarrow> m \<noteq> n \<and> getFlagState s m"
proof -
  show "waitForEventFlag es s n = (if getFlagState s n then Some (Inr (), s) else None)"
    using assms by (induction es) (auto simp: getFlagState_def semop_def)
qed (auto simp: getFlagState_def setEventFlag_def clearEventFlag_def)

section \<open>Properties\<close>



end
