(* ===== verification/Seccomp_Filters.thy ===== *)
theory Seccomp_Filters
  imports C_Strings "HOL-Library.Word"
begin

text \<open>
  The seccomp programs of \<^verbatim>\<open>tlpi-dist/seccomp\<close>: their filters as BPF programs on x86-64, a model of the
  machine that runs them and of the verification the kernel makes before it accepts them, the choice
  between the results of several filters, and the loading and dumping of filters as files.  The
  constants are those of the Linux headers.
\<close>

unbundle bit_operations_syntax

section \<open>The machine\<close>

text \<open>An instruction of a filter, and what a filter sees of a system call.\<close>

record sock_filter =
  code :: "16 word"
  jt :: "8 word"
  jf :: "8 word"
  k_val :: "32 word"

record seccomp_data =
  nr :: "32 word"
  arch :: "32 word"
  instruction_pointer :: "64 word"
  args :: "nat \<Rightarrow> 64 word"

definition BPF_STMT :: "16 word \<Rightarrow> 32 word \<Rightarrow> sock_filter" where
  "BPF_STMT c v = \<lparr>code = c, jt = 0, jf = 0, k_val = v\<rparr>"

definition BPF_JUMP :: "16 word \<Rightarrow> 32 word \<Rightarrow> 8 word \<Rightarrow> 8 word \<Rightarrow> sock_filter" where
  "BPF_JUMP c v t f = \<lparr>code = c, jt = t, jf = f, k_val = v\<rparr>"

definition BPF_LD_W_ABS :: "16 word" where "BPF_LD_W_ABS = 0x00 OR 0x00 OR 0x20"
definition BPF_JMP_JA :: "16 word" where "BPF_JMP_JA = 0x05 OR 0x00"
definition BPF_JMP_JEQ_K :: "16 word" where "BPF_JMP_JEQ_K = 0x05 OR 0x10 OR 0x00"
definition BPF_JMP_JGT_K :: "16 word" where "BPF_JMP_JGT_K = 0x05 OR 0x20 OR 0x00"
definition BPF_JMP_JGE_K :: "16 word" where "BPF_JMP_JGE_K = 0x05 OR 0x30 OR 0x00"
definition BPF_JMP_JSET_K :: "16 word" where "BPF_JMP_JSET_K = 0x05 OR 0x40 OR 0x00"
definition BPF_ALU_ADD_K :: "16 word" where "BPF_ALU_ADD_K = 0x04 OR 0x00 OR 0x00"
definition BPF_RET_K :: "16 word" where "BPF_RET_K = 0x06 OR 0x00"

lemmas bpf_codes = BPF_LD_W_ABS_def BPF_JMP_JA_def BPF_JMP_JEQ_K_def BPF_JMP_JGT_K_def BPF_JMP_JGE_K_def
  BPF_JMP_JSET_K_def BPF_ALU_ADD_K_def BPF_RET_K_def

text \<open>The 32-bit words of the data, little-endian.\<close>

definition low32 :: "64 word \<Rightarrow> 32 word" where
  "low32 w = ucast w"

definition high32 :: "64 word \<Rightarrow> 32 word" where
  "high32 w = ucast (drop_bit 32 w)"

definition data_word :: "seccomp_data \<Rightarrow> nat \<Rightarrow> 32 word option" where
  "data_word d off =
     (if off mod 4 \<noteq> 0 \<or> 64 \<le> off then None
      else if off = 0 then Some (nr d)
      else if off = 4 then Some (arch d)
      else if off = 8 then Some (low32 (instruction_pointer d))
      else if off = 12 then Some (high32 (instruction_pointer d))
      else if off mod 8 = 0 then Some (low32 (args d (off div 8 - 2)))
      else Some (high32 (args d (off div 8 - 2))))"

definition jump :: "sock_filter \<Rightarrow> bool \<Rightarrow> nat" where
  "jump i b = unat (if b then jt i else jf i)"

text \<open>
  Running the rest of a program, with the value of the accumulator; all jumps go forward.  No value when
  it leaves the program, loads from outside of the data or has an unknown instruction.
\<close>

function bpf_run :: "sock_filter list \<Rightarrow> seccomp_data \<Rightarrow> 32 word \<Rightarrow> 32 word option" where
  "bpf_run [] d a = None"
| "bpf_run (i # prog) d a =
     (if code i = BPF_RET_K then Some (k_val i)
      else if code i = BPF_LD_W_ABS then
        (case data_word d (unat (k_val i)) of None \<Rightarrow> None | Some v \<Rightarrow> bpf_run prog d v)
      else if code i = BPF_ALU_ADD_K then bpf_run prog d (a + k_val i)
      else if code i = BPF_JMP_JA then bpf_run (drop (unat (k_val i)) prog) d a
      else if code i = BPF_JMP_JEQ_K then bpf_run (drop (jump i (a = k_val i)) prog) d a
      else if code i = BPF_JMP_JGT_K then bpf_run (drop (jump i (k_val i < a)) prog) d a
      else if code i = BPF_JMP_JGE_K then bpf_run (drop (jump i (k_val i \<le> a)) prog) d a
      else if code i = BPF_JMP_JSET_K then bpf_run (drop (jump i (a AND k_val i \<noteq> 0)) prog) d a
      else None)"
  by pat_completeness auto

termination
  by (relation "measure (\<lambda>(prog, d, a). length prog)") auto

declare bpf_run.simps(2) [simp del]

text \<open>
  What the kernel checks: the length, known instructions, loads inside of the data, jumps inside of the
  program, and a return at the end.
\<close>

definition BPF_MAXINSNS :: nat where
  "BPF_MAXINSNS = 4096"

definition instr_ok :: "sock_filter \<Rightarrow> nat \<Rightarrow> bool" where
  "instr_ok i left \<longleftrightarrow>
     (if code i = BPF_RET_K \<or> code i = BPF_ALU_ADD_K then True
      else if code i = BPF_LD_W_ABS then unat (k_val i) mod 4 = 0 \<and> unat (k_val i) < 64
      else if code i = BPF_JMP_JA then unat (k_val i) < left
      else if code i = BPF_JMP_JEQ_K \<or> code i = BPF_JMP_JGT_K \<or> code i = BPF_JMP_JGE_K \<or> code i = BPF_JMP_JSET_K then
        unat (jt i) < left \<and> unat (jf i) < left
      else False)"

fun instrs_ok :: "sock_filter list \<Rightarrow> bool" where
  "instrs_ok [] = True"
| "instrs_ok (i # prog) = (instr_ok i (length prog) \<and> instrs_ok prog)"

definition bpf_check :: "sock_filter list \<Rightarrow> bool" where
  "bpf_check prog \<longleftrightarrow> prog \<noteq> [] \<and> length prog \<le> BPF_MAXINSNS \<and> code (last prog) = BPF_RET_K \<and> instrs_ok prog"

text \<open>Results, and the choice among several filters, the most recently installed first.\<close>

definition SECCOMP_RET_KILL_PROCESS :: "32 word" where "SECCOMP_RET_KILL_PROCESS = 0x80000000"
definition SECCOMP_RET_KILL :: "32 word" where "SECCOMP_RET_KILL = 0x00000000"
definition SECCOMP_RET_TRAP :: "32 word" where "SECCOMP_RET_TRAP = 0x00030000"
definition SECCOMP_RET_ERRNO :: "32 word" where "SECCOMP_RET_ERRNO = 0x00050000"
definition SECCOMP_RET_USER_NOTIF :: "32 word" where "SECCOMP_RET_USER_NOTIF = 0x7fc00000"
definition SECCOMP_RET_TRACE :: "32 word" where "SECCOMP_RET_TRACE = 0x7ff00000"
definition SECCOMP_RET_LOG :: "32 word" where "SECCOMP_RET_LOG = 0x7ffc0000"
definition SECCOMP_RET_ALLOW :: "32 word" where "SECCOMP_RET_ALLOW = 0x7fff0000"

lemmas seccomp_rets = SECCOMP_RET_KILL_PROCESS_def SECCOMP_RET_KILL_def SECCOMP_RET_TRAP_def SECCOMP_RET_ERRNO_def
  SECCOMP_RET_USER_NOTIF_def SECCOMP_RET_TRACE_def SECCOMP_RET_LOG_def SECCOMP_RET_ALLOW_def

definition action_only :: "32 word \<Rightarrow> int" where
  "action_only r = sint (r AND 0xffff0000)"

fun run_filters :: "sock_filter list list \<Rightarrow> seccomp_data \<Rightarrow> 32 word \<Rightarrow> 32 word option" where
  "run_filters [] d r = Some r"
| "run_filters (f # fs) d r =
     (case bpf_run f d 0 of
        None \<Rightarrow> None
      | Some c \<Rightarrow> run_filters fs d (if action_only c < action_only r then c else r))"

section \<open>The filters\<close>

definition AUDIT_ARCH_X86_64 :: "32 word" where "AUDIT_ARCH_X86_64 = 0xC000003E"
definition AUDIT_ARCH_I386 :: "32 word" where "AUDIT_ARCH_I386 = 0x40000003"
definition X32_SYSCALL_BIT :: "32 word" where "X32_SYSCALL_BIT = 0x40000000"
definition NR_open :: "32 word" where "NR_open = 2"
definition NR_openat :: "32 word" where "NR_openat = 257"
definition NR_lseek :: "32 word" where "NR_lseek = 8"
definition NR_getppid :: "32 word" where "NR_getppid = 110"
definition NR_mkdir :: "32 word" where "NR_mkdir = 83"
definition O_CREAT :: "32 word" where "O_CREAT = 0x40"
definition O_WRONLY :: "32 word" where "O_WRONLY = 1"
definition O_RDWR :: "32 word" where "O_RDWR = 2"
definition ENOTSUP_NR :: "32 word" where "ENOTSUP_NR = 95"
definition NR_mq_notify_x86_64 :: "32 word" where "NR_mq_notify_x86_64 = 244"
definition NR_mq_notify_i386 :: "32 word" where "NR_mq_notify_i386 = 281"
definition NR_mq_notify_x32 :: "32 word" where "NR_mq_notify_x32 = 527"

text \<open>The offsets of the fields of \<^verbatim>\<open>struct seccomp_data\<close>.\<close>

definition off_nr :: "32 word" where "off_nr = 0"
definition off_arch :: "32 word" where "off_arch = 4"
definition off_args :: "32 word \<Rightarrow> 32 word" where "off_args i = 16 + 8 * i"

lemmas seccomp_consts = AUDIT_ARCH_X86_64_def AUDIT_ARCH_I386_def X32_SYSCALL_BIT_def NR_open_def NR_openat_def NR_lseek_def
  NR_getppid_def NR_mkdir_def O_CREAT_def O_WRONLY_def O_RDWR_def ENOTSUP_NR_def NR_mq_notify_x86_64_def
  NR_mq_notify_i386_def NR_mq_notify_x32_def off_nr_def off_arch_def off_args_def

text \<open>The beginning that several filters share: the architecture, the number of the call, and its range.\<close>

definition X86_64_CHECK_ARCH_AND_LOAD_SYSCALL_NR :: "sock_filter list" where
  "X86_64_CHECK_ARCH_AND_LOAD_SYSCALL_NR =
     [BPF_STMT BPF_LD_W_ABS off_arch,
      BPF_JUMP BPF_JMP_JEQ_K AUDIT_ARCH_X86_64 0 2,
      BPF_STMT BPF_LD_W_ABS off_nr,
      BPF_JUMP BPF_JMP_JGE_K X32_SYSCALL_BIT 0 1,
      BPF_STMT BPF_RET_K SECCOMP_RET_KILL_PROCESS]"

definition arg64_filter :: "sock_filter list" where
  "arg64_filter =
     [BPF_STMT BPF_LD_W_ABS off_arch,
      BPF_JUMP BPF_JMP_JEQ_K AUDIT_ARCH_X86_64 0 2,
      BPF_STMT BPF_LD_W_ABS off_nr,
      BPF_JUMP BPF_JMP_JGE_K X32_SYSCALL_BIT 0 1,
      BPF_STMT BPF_RET_K SECCOMP_RET_KILL_PROCESS,
      BPF_JUMP BPF_JMP_JEQ_K NR_lseek 1 0,
      BPF_STMT BPF_RET_K SECCOMP_RET_ALLOW,
      BPF_STMT BPF_LD_W_ABS (off_args 1 + 4),
      BPF_JUMP BPF_JMP_JEQ_K 0 1 0,
      BPF_STMT BPF_RET_K (SECCOMP_RET_ERRNO OR 2),
      BPF_STMT BPF_LD_W_ABS (off_args 1),
      BPF_JUMP BPF_JMP_JGT_K 1000 0 1,
      BPF_STMT BPF_RET_K (SECCOMP_RET_ERRNO OR 1),
      BPF_STMT BPF_RET_K SECCOMP_RET_ALLOW]"

definition control_open_filter :: "sock_filter list" where
  "control_open_filter =
     [BPF_STMT BPF_LD_W_ABS off_arch,
      BPF_JUMP BPF_JMP_JEQ_K AUDIT_ARCH_X86_64 1 0,
      BPF_STMT BPF_RET_K SECCOMP_RET_KILL_PROCESS,
      BPF_STMT BPF_LD_W_ABS off_nr,
      BPF_JUMP BPF_JMP_JGE_K X32_SYSCALL_BIT 0 1,
      BPF_STMT BPF_RET_K SECCOMP_RET_KILL_PROCESS,
      BPF_JUMP BPF_JMP_JEQ_K NR_open 0 2,
      BPF_STMT BPF_LD_W_ABS (off_args 1),
      BPF_JUMP BPF_JMP_JA 3 0 0,
      BPF_JUMP BPF_JMP_JEQ_K NR_openat 1 0,
      BPF_STMT BPF_RET_K SECCOMP_RET_ALLOW,
      BPF_STMT BPF_LD_W_ABS (off_args 2),
      BPF_JUMP BPF_JMP_JSET_K O_CREAT 0 1,
      BPF_STMT BPF_RET_K SECCOMP_RET_KILL_PROCESS,
      BPF_JUMP BPF_JMP_JSET_K (O_WRONLY OR O_RDWR) 0 1,
      BPF_STMT BPF_RET_K (SECCOMP_RET_ERRNO OR ENOTSUP_NR),
      BPF_STMT BPF_RET_K SECCOMP_RET_ALLOW]"

definition deny_open_filter :: "sock_filter list" where
  "deny_open_filter =
     [BPF_STMT BPF_LD_W_ABS off_arch,
      BPF_JUMP BPF_JMP_JEQ_K AUDIT_ARCH_X86_64 1 0,
      BPF_STMT BPF_RET_K SECCOMP_RET_KILL_PROCESS,
      BPF_STMT BPF_LD_W_ABS off_nr,
      BPF_JUMP BPF_JMP_JGE_K X32_SYSCALL_BIT 0 1,
      BPF_STMT BPF_RET_K SECCOMP_RET_KILL_PROCESS,
      BPF_JUMP BPF_JMP_JEQ_K NR_open 2 0,
      BPF_JUMP BPF_JMP_JEQ_K NR_openat 1 0,
      BPF_STMT BPF_RET_K SECCOMP_RET_ALLOW,
      BPF_STMT BPF_RET_K SECCOMP_RET_KILL_PROCESS]"

definition deny_syscall_filter :: "int \<Rightarrow> sock_filter list" where
  "deny_syscall_filter syscallNum =
     [BPF_STMT BPF_LD_W_ABS off_nr,
      BPF_JUMP BPF_JMP_JEQ_K (word_of_int syscallNum) 1 0,
      BPF_STMT BPF_RET_K SECCOMP_RET_ALLOW,
      BPF_STMT BPF_RET_K SECCOMP_RET_KILL_PROCESS]"

definition perf_filter :: "sock_filter list" where
  "perf_filter =
     [BPF_STMT BPF_LD_W_ABS off_arch,
      BPF_JUMP BPF_JMP_JEQ_K AUDIT_ARCH_X86_64 0 2,
      BPF_STMT BPF_LD_W_ABS off_nr,
      BPF_JUMP BPF_JMP_JGE_K X32_SYSCALL_BIT 0 1,
      BPF_STMT BPF_RET_K SECCOMP_RET_KILL_PROCESS,
      BPF_JUMP BPF_JMP_JEQ_K NR_openat 1 0,
      BPF_STMT BPF_RET_K SECCOMP_RET_ALLOW,
      BPF_STMT BPF_RET_K SECCOMP_RET_KILL_PROCESS]"

definition logging_filter :: "sock_filter list" where
  "logging_filter =
     [BPF_STMT BPF_LD_W_ABS off_arch,
      BPF_JUMP BPF_JMP_JEQ_K AUDIT_ARCH_X86_64 0 2,
      BPF_STMT BPF_LD_W_ABS off_nr,
      BPF_JUMP BPF_JMP_JGE_K X32_SYSCALL_BIT 0 1,
      BPF_STMT BPF_RET_K SECCOMP_RET_KILL_PROCESS,
      BPF_STMT BPF_RET_K SECCOMP_RET_LOG]"

definition trap_sigsys_filter :: "sock_filter list" where
  "trap_sigsys_filter =
     [BPF_STMT BPF_LD_W_ABS off_arch,
      BPF_JUMP BPF_JMP_JEQ_K AUDIT_ARCH_X86_64 1 0,
      BPF_STMT BPF_RET_K SECCOMP_RET_KILL,
      BPF_STMT BPF_LD_W_ABS off_nr,
      BPF_JUMP BPF_JMP_JGE_K X32_SYSCALL_BIT 0 1,
      BPF_STMT BPF_RET_K SECCOMP_RET_KILL_PROCESS,
      BPF_JUMP BPF_JMP_JEQ_K NR_getppid 0 1,
      BPF_STMT BPF_RET_K SECCOMP_RET_TRAP,
      BPF_STMT BPF_RET_K SECCOMP_RET_ALLOW]"

definition multiarch_filter :: "sock_filter list" where
  "multiarch_filter =
     [BPF_STMT BPF_LD_W_ABS off_arch,
      BPF_JUMP BPF_JMP_JEQ_K AUDIT_ARCH_X86_64 0 5,
      BPF_STMT BPF_LD_W_ABS off_nr,
      BPF_JUMP BPF_JMP_JEQ_K NR_mq_notify_x86_64 0 1,
      BPF_STMT BPF_RET_K (SECCOMP_RET_ERRNO OR NR_mq_notify_x86_64),
      BPF_JUMP BPF_JMP_JEQ_K (NR_mq_notify_x32 + X32_SYSCALL_BIT) 0 5,
      BPF_STMT BPF_RET_K (SECCOMP_RET_ERRNO OR NR_mq_notify_x32),
      BPF_JUMP BPF_JMP_JEQ_K AUDIT_ARCH_I386 0 4,
      BPF_STMT BPF_LD_W_ABS off_nr,
      BPF_JUMP BPF_JMP_JEQ_K NR_mq_notify_i386 0 1,
      BPF_STMT BPF_RET_K (SECCOMP_RET_ERRNO OR NR_mq_notify_i386),
      BPF_STMT BPF_RET_K SECCOMP_RET_ALLOW,
      BPF_STMT BPF_RET_K SECCOMP_RET_KILL_PROCESS]"

definition notify_mkdir_filter :: "sock_filter list" where
  "notify_mkdir_filter = X86_64_CHECK_ARCH_AND_LOAD_SYSCALL_NR @
     [BPF_JUMP BPF_JMP_JEQ_K NR_mkdir 0 1,
      BPF_STMT BPF_RET_K SECCOMP_RET_USER_NOTIF,
      BPF_STMT BPF_RET_K SECCOMP_RET_ALLOW]"

definition second_filter :: "32 word \<Rightarrow> sock_filter list" where
  "second_filter secondFilter =
     (let filter = X86_64_CHECK_ARCH_AND_LOAD_SYSCALL_NR @
            [BPF_JUMP BPF_JMP_JEQ_K NR_mkdir 1 0,
             BPF_STMT BPF_RET_K SECCOMP_RET_ALLOW,
             \<lparr>code = 0, jt = 0, jf = 0, k_val = 0\<rparr>];
          retTrace = BPF_STMT BPF_RET_K SECCOMP_RET_TRACE;
          retErrno = BPF_STMT BPF_RET_K (SECCOMP_RET_ERRNO OR ENOTSUP_NR)
      in filter[length filter - 1 := (if secondFilter = SECCOMP_RET_ERRNO then retErrno else retTrace)])"

definition notify_openat_filter :: "sock_filter list" where
  "notify_openat_filter = X86_64_CHECK_ARCH_AND_LOAD_SYSCALL_NR @
     [BPF_JUMP BPF_JMP_JEQ_K NR_openat 0 1,
      BPF_STMT BPF_RET_K SECCOMP_RET_USER_NOTIF,
      BPF_STMT BPF_RET_K SECCOMP_RET_ALLOW]"

text \<open>
  The benchmark's filter, as the kernel sees it: the array cut to a length that is an unsigned short; no
  value for an unknown instruction letter.
\<close>

definition create_filter :: "char \<Rightarrow> nat \<Rightarrow> sock_filter list option" where
  "create_filter instr icnt =
     (let ld = BPF_STMT BPF_LD_W_ABS 0;
          jmp = BPF_JUMP BPF_JMP_JEQ_K 0 0 0;
          add = BPF_STMT BPF_ALU_ADD_K 1;
          ret = BPF_STMT BPF_RET_K SECCOMP_RET_ALLOW
      in map_option (\<lambda>i. take ((icnt + 1) mod 65536) (replicate icnt i @ [ret]))
           (if instr = CHR ''a'' then Some add
            else if instr = CHR ''j'' then Some jmp
            else if instr = CHR ''l'' then Some ld
            else None))"

section \<open>Filters in files\<close>

text \<open>The eight bytes of an instruction in memory, little-endian.\<close>

definition instr_bytes :: "sock_filter \<Rightarrow> 8 word list" where
  "instr_bytes i =
     [ucast (code i), ucast (drop_bit 8 (code i)), jt i, jf i,
      ucast (k_val i), ucast (drop_bit 8 (k_val i)), ucast (drop_bit 16 (k_val i)), ucast (drop_bit 24 (k_val i))]"

fun bytes_instrs :: "8 word list \<Rightarrow> sock_filter list" where
  "bytes_instrs (c0 # c1 # t # f # k0 # k1 # k2 # k3 # bs) =
     \<lparr>code = ucast c0 OR push_bit 8 (ucast c1), jt = t, jf = f,
      k_val = ucast k0 OR push_bit 8 (ucast k1) OR push_bit 16 (ucast k2) OR push_bit 24 (ucast k3)\<rparr> # bytes_instrs bs"
| "bytes_instrs _ = []"

text \<open>
  \<^verbatim>\<open>dump_seccomp_filter\<close>: fetching the filter with an index from a process, the most recent one first, and the
  content of the file it writes.  The target is given by whether the program can attach to it and by its
  filters, the program by whether it has CAP_SYS_ADMIN; the index goes to \<^verbatim>\<open>ptrace\<close> as an unsigned long.
\<close>

datatype fetch_result = No_attach | No_capability | No_filters | No_index | Fetched "sock_filter list"

definition fetchFilter :: "bool \<Rightarrow> bool \<Rightarrow> sock_filter list list \<Rightarrow> int \<Rightarrow> fetch_result" where
  "fetchFilter attached sys_admin installed filterIndex =
     (if \<not> attached then No_attach
      else if \<not> sys_admin then No_capability
      else if installed = [] then No_filters
      else let index = nat (filterIndex mod 2 ^ 64) in
        if length installed \<le> index then No_index else Fetched (installed ! index))"

definition dumpFilter :: "sock_filter list \<Rightarrow> 8 word list" where
  "dumpFilter prog = concat (map instr_bytes prog)"

text \<open>
  \<^verbatim>\<open>seccomp_launch\<close>: installing the filter in a file, as given by the content of the file or that it cannot be
  opened; no value when the program ends with an error.  The size is an \<^verbatim>\<open>int\<close>, one call of \<^verbatim>\<open>read\<close> transfers at
  most 0x7ffff000 bytes, and the number of instructions goes into an unsigned short.  What the kernel
  accepts is a parameter.
\<close>

definition loadFilter ::
  "(sock_filter list \<Rightarrow> bool) \<Rightarrow> 8 word list option \<Rightarrow> sock_filter list list \<Rightarrow> sock_filter list list option" where
  "loadFilter accepts content installed =
     (case content of
        None \<Rightarrow> None
      | Some bs \<Rightarrow>
          let filterSize = to_int32 (int (length bs)) in
          if length bs mod 8 \<noteq> 0 then None
          else if filterSize < 0 \<or> 0x7ffff000 < filterSize then None
          else let prog = take (nat filterSize div 8 mod 65536) (bytes_instrs bs) in
            if accepts prog then Some (prog # installed) else None)"

section \<open>Accepted programs always return\<close>

lemma instrs_ok_drop: "instrs_ok prog \<Longrightarrow> instrs_ok (drop n prog)"
  by (induction prog arbitrary: n) (auto simp: drop_Cons split: nat.splits)

lemma data_word_defined: "off mod 4 = 0 \<Longrightarrow> off < 64 \<Longrightarrow> data_word d off \<noteq> None"
  by (simp add: data_word_def)

lemma bpf_run_returns:
  "instrs_ok prog \<Longrightarrow> prog \<noteq> [] \<Longrightarrow> code (last prog) = BPF_RET_K \<Longrightarrow> \<exists>r. bpf_run prog d a = Some r"
proof (induction "length prog" arbitrary: prog a rule: less_induct)
  case less
  obtain i rest where p: "prog = i # rest" using less.prems(2) by (cases prog) auto
  have ok: "instrs_ok rest" "instr_ok i (length rest)" using less.prems(1) p by simp_all
  have go: "\<exists>r. bpf_run (drop n rest) d b = Some r" if "n < length rest" for n b
  proof (rule less.hyps)
    show "code (last (drop n rest)) = BPF_RET_K" using less.prems(3) that p by (cases rest) (auto simp: last_drop)
  qed (use that p ok(1) instrs_ok_drop in auto)
  have nx: "\<exists>r. bpf_run rest d b = Some r" if "code i \<noteq> BPF_RET_K" for b
    using go[of 0 b] that less.prems(3) p by (cases rest) auto
  show ?case
  proof (cases "code i = BPF_LD_W_ABS")
    case True
    then have "\<exists>v. data_word d (unat (k_val i)) = Some v"
      using ok(2) data_word_defined[of "unat (k_val i)" d] by (simp add: instr_ok_def bpf_codes)
    then show ?thesis using True nx p by (auto simp: bpf_run.simps(2) bpf_codes)
  next
    case False
    have "unat (k_val i) < length rest" if "code i = BPF_JMP_JA" using ok(2) that by (simp add: instr_ok_def bpf_codes)
    moreover have "jump i b < length rest"
      if "code i = BPF_JMP_JEQ_K \<or> code i = BPF_JMP_JGT_K \<or> code i = BPF_JMP_JGE_K \<or> code i = BPF_JMP_JSET_K" for b
      using ok(2) that by (auto simp: instr_ok_def jump_def bpf_codes)
    moreover have "code i \<in> {BPF_RET_K, BPF_ALU_ADD_K, BPF_JMP_JA, BPF_JMP_JEQ_K, BPF_JMP_JGT_K, BPF_JMP_JGE_K, BPF_JMP_JSET_K}"
      using ok(2) False by (auto simp: instr_ok_def split: if_splits)
    ultimately show ?thesis using False nx go unfolding p bpf_run.simps(2) by simp blast
  qed
qed

lemma bpf_check_returns: "bpf_check prog \<Longrightarrow> \<exists>r. bpf_run prog d a = Some r"
  using bpf_run_returns by (auto simp: bpf_check_def)

section \<open>Running the filters\<close>

lemma bpf_run_instrs:
  "bpf_run (BPF_STMT BPF_RET_K v # prog) d a = Some v"
  "bpf_run (BPF_STMT BPF_LD_W_ABS v # prog) d a = (case data_word d (unat v) of None \<Rightarrow> None | Some w \<Rightarrow> bpf_run prog d w)"
  "bpf_run (BPF_STMT BPF_ALU_ADD_K v # prog) d a = bpf_run prog d (a + v)"
  "bpf_run (BPF_JUMP BPF_JMP_JA v t f # prog) d a = bpf_run (drop (unat v) prog) d a"
  "bpf_run (BPF_JUMP BPF_JMP_JEQ_K v t f # prog) d a = (if a = v then bpf_run (drop (unat t) prog) d a else bpf_run (drop (unat f) prog) d a)"
  "bpf_run (BPF_JUMP BPF_JMP_JGT_K v t f # prog) d a = (if v < a then bpf_run (drop (unat t) prog) d a else bpf_run (drop (unat f) prog) d a)"
  "bpf_run (BPF_JUMP BPF_JMP_JGE_K v t f # prog) d a = (if v \<le> a then bpf_run (drop (unat t) prog) d a else bpf_run (drop (unat f) prog) d a)"
  "bpf_run (BPF_JUMP BPF_JMP_JSET_K v t f # prog) d a = (if a AND v \<noteq> 0 then bpf_run (drop (unat t) prog) d a else bpf_run (drop (unat f) prog) d a)"
  by (simp_all add: bpf_run.simps(2) BPF_STMT_def BPF_JUMP_def bpf_codes jump_def)

lemma data_words:
  "data_word d (unat off_nr) = Some (nr d)" "data_word d (unat off_arch) = Some (arch d)"
  "data_word d (unat (off_args 1)) = Some (low32 (args d 1))" "data_word d (unat (off_args 1 + 4)) = Some (high32 (args d 1))"
  "data_word d (unat (off_args 2)) = Some (low32 (args d 2))" "data_word d 0 = Some (nr d)"
  by (simp_all add: data_word_def off_nr_def off_arch_def off_args_def)

lemma deny_open_decides:
  "bpf_run deny_open_filter d 0 =
     Some (if arch d \<noteq> AUDIT_ARCH_X86_64 \<or> X32_SYSCALL_BIT \<le> nr d \<or> nr d = NR_open \<or> nr d = NR_openat
           then SECCOMP_RET_KILL_PROCESS else SECCOMP_RET_ALLOW)"
  by (simp add: deny_open_filter_def bpf_run_instrs data_words)

lemma control_open_decides:
  "bpf_run control_open_filter d 0 =
     Some (if arch d \<noteq> AUDIT_ARCH_X86_64 \<or> X32_SYSCALL_BIT \<le> nr d then SECCOMP_RET_KILL_PROCESS
           else if nr d \<noteq> NR_open \<and> nr d \<noteq> NR_openat then SECCOMP_RET_ALLOW
           else let flags = low32 (args d (if nr d = NR_open then 1 else 2)) in
             if flags AND O_CREAT \<noteq> 0 then SECCOMP_RET_KILL_PROCESS
             else if flags AND (O_WRONLY OR O_RDWR) \<noteq> 0 then SECCOMP_RET_ERRNO OR ENOTSUP_NR
             else SECCOMP_RET_ALLOW)"
  by (simp add: control_open_filter_def bpf_run_instrs data_words Let_def)

text \<open>The two halves of a 64-bit argument.\<close>

lemma high32_zero: "high32 w = 0 \<longleftrightarrow> w < 0x100000000"
proof -
  have lt: "unat w < 2 ^ 64" using unsigned_less[of w] by simp
  have "unat (high32 w) = take_bit 32 (drop_bit 32 (take_bit 64 (unat w)))"
    by (simp add: high32_def unsigned_ucast_eq unsigned_drop_bit_eq)
  also have "\<dots> = unat w div 2 ^ 32"
    using lt by (simp add: take_bit_nat_eq_self drop_bit_eq_div less_mult_imp_div_less)
  finally have "unat (high32 w) = unat w div 2 ^ 32" .
  moreover have "high32 w = 0 \<longleftrightarrow> unat (high32 w) = 0" by (simp add: unsigned_eq_0_iff)
  ultimately show ?thesis by (simp add: word_less_nat_alt div_eq_0_iff)
qed

lemma low32_greater: "w < 0x100000000 \<Longrightarrow> 1000 < low32 w \<longleftrightarrow> 1000 < w"
proof -
  assume "w < 0x100000000"
  then have "unat w < 2 ^ 32" by (simp add: word_less_nat_alt)
  then have "unat (low32 w) = unat w" by (simp add: low32_def unsigned_ucast_eq take_bit_nat_eq_self)
  then show ?thesis by (simp add: word_less_nat_alt)
qed

lemma arg64_decides:
  "bpf_run arg64_filter d 0 =
     Some (if arch d \<noteq> AUDIT_ARCH_X86_64 \<or> X32_SYSCALL_BIT \<le> nr d then SECCOMP_RET_KILL_PROCESS
           else if nr d \<noteq> NR_lseek \<or> args d 1 \<le> 1000 then SECCOMP_RET_ALLOW
           else if args d 1 < 0x100000000 then SECCOMP_RET_ERRNO OR 1 else SECCOMP_RET_ERRNO OR 2)"
proof -
  have run: "bpf_run arg64_filter d 0 =
     Some (if arch d \<noteq> AUDIT_ARCH_X86_64 \<or> X32_SYSCALL_BIT \<le> nr d then SECCOMP_RET_KILL_PROCESS
           else if nr d \<noteq> NR_lseek then SECCOMP_RET_ALLOW
           else if high32 (args d 1) \<noteq> 0 then SECCOMP_RET_ERRNO OR 2
           else if 1000 < low32 (args d 1) then SECCOMP_RET_ERRNO OR 1 else SECCOMP_RET_ALLOW)"
    by (simp add: arg64_filter_def bpf_run_instrs data_words)
  show ?thesis
  proof (cases "args d 1 < 0x100000000")
    case True
    then have "high32 (args d 1) = 0" "(1000 < low32 (args d 1)) = (\<not> args d 1 \<le> 1000)"
      using high32_zero low32_greater by (simp_all add: not_le)
    then show ?thesis unfolding run using True by simp
  next
    case False
    then have "high32 (args d 1) \<noteq> 0" "\<not> args d 1 \<le> 1000"
      using high32_zero by (simp_all add: word_less_nat_alt word_le_nat_alt)
    then show ?thesis unfolding run using False by simp
  qed
qed

lemma deny_syscall_decides:
  "bpf_run (deny_syscall_filter n) d 0 =
     Some (if nr d = word_of_int n then SECCOMP_RET_KILL_PROCESS else SECCOMP_RET_ALLOW)"
  by (simp add: deny_syscall_filter_def bpf_run_instrs data_words)

lemma perf_decides:
  "bpf_run perf_filter d 0 =
     Some (if arch d \<noteq> AUDIT_ARCH_X86_64 \<or> X32_SYSCALL_BIT \<le> nr d \<or> nr d = NR_openat
           then SECCOMP_RET_KILL_PROCESS else SECCOMP_RET_ALLOW)"
  by (simp add: perf_filter_def bpf_run_instrs data_words)

lemma trap_sigsys_decides:
  "bpf_run trap_sigsys_filter d 0 =
     Some (if arch d \<noteq> AUDIT_ARCH_X86_64 then SECCOMP_RET_KILL
           else if X32_SYSCALL_BIT \<le> nr d then SECCOMP_RET_KILL_PROCESS
           else if nr d = NR_getppid then SECCOMP_RET_TRAP else SECCOMP_RET_ALLOW)"
  by (simp add: trap_sigsys_filter_def bpf_run_instrs data_words)

lemma notify_filters_decide:
  assumes "arch d = AUDIT_ARCH_X86_64" "\<not> X32_SYSCALL_BIT \<le> nr d"
  shows "bpf_run notify_mkdir_filter d 0 = Some (if nr d = NR_mkdir then SECCOMP_RET_USER_NOTIF else SECCOMP_RET_ALLOW)"
    "bpf_run notify_openat_filter d 0 = Some (if nr d = NR_openat then SECCOMP_RET_USER_NOTIF else SECCOMP_RET_ALLOW)"
    "bpf_run (second_filter f) d 0 = Some (if nr d \<noteq> NR_mkdir then SECCOMP_RET_ALLOW
       else if f = SECCOMP_RET_ERRNO then SECCOMP_RET_ERRNO OR ENOTSUP_NR else SECCOMP_RET_TRACE)"
  using assms
  by (simp_all add: notify_mkdir_filter_def notify_openat_filter_def second_filter_def
      X86_64_CHECK_ARCH_AND_LOAD_SYSCALL_NR_def bpf_run_instrs data_words Let_def)

lemma multiarch_decides:
  "bpf_run multiarch_filter d 0 =
     Some (if arch d = AUDIT_ARCH_X86_64 then
             (if nr d = NR_mq_notify_x86_64 then SECCOMP_RET_ERRNO OR NR_mq_notify_x86_64
              else if nr d = NR_mq_notify_x32 OR X32_SYSCALL_BIT then SECCOMP_RET_ERRNO OR NR_mq_notify_x32
              else SECCOMP_RET_ALLOW)
           else if arch d = AUDIT_ARCH_I386 then
             (if nr d = NR_mq_notify_i386 then SECCOMP_RET_ERRNO OR NR_mq_notify_i386 else SECCOMP_RET_ALLOW)
           else SECCOMP_RET_KILL_PROCESS)"
proof -
  have "NR_mq_notify_x32 + X32_SYSCALL_BIT = NR_mq_notify_x32 OR X32_SYSCALL_BIT"
    by (simp add: NR_mq_notify_x32_def X32_SYSCALL_BIT_def)
  then show ?thesis by (auto simp: multiarch_filter_def bpf_run_instrs data_words)
qed

lemma create_filter_form:
  assumes "create_filter c n = Some prog" "n < 65535"
  obtains i where "i \<in> {BPF_STMT BPF_LD_W_ABS 0, BPF_JUMP BPF_JMP_JEQ_K 0 0 0, BPF_STMT BPF_ALU_ADD_K 1}"
    "prog = replicate n i @ [BPF_STMT BPF_RET_K SECCOMP_RET_ALLOW]"
  using assms by (auto simp: create_filter_def Let_def split: if_splits)

lemma create_filter_allows:
  assumes "create_filter c n = Some prog" "n < 65535"
  shows "bpf_run prog d a = Some SECCOMP_RET_ALLOW"
proof -
  have "bpf_run (replicate n i @ [BPF_STMT BPF_RET_K SECCOMP_RET_ALLOW]) d b = Some SECCOMP_RET_ALLOW"
    if "i \<in> {BPF_STMT BPF_LD_W_ABS 0, BPF_JUMP BPF_JMP_JEQ_K 0 0 0, BPF_STMT BPF_ALU_ADD_K 1}" for i b
    using that by (induction n arbitrary: b) (auto simp: bpf_run_instrs data_words)
  then show ?thesis using create_filter_form[OF assms] by metis
qed

lemma create_filter_checked:
  assumes "create_filter c n = Some prog" "n < BPF_MAXINSNS"
  shows "bpf_check prog"
proof -
  have ret: "instr_ok (BPF_STMT BPF_RET_K SECCOMP_RET_ALLOW) 0" by (simp add: instr_ok_def BPF_STMT_def)
  have ok: "instrs_ok (replicate n i @ [BPF_STMT BPF_RET_K SECCOMP_RET_ALLOW])"
    if "\<And>m. instr_ok i (Suc m)" for i
    using that ret by (induction n) simp_all
  obtain i where i: "i \<in> {BPF_STMT BPF_LD_W_ABS 0, BPF_JUMP BPF_JMP_JEQ_K 0 0 0, BPF_STMT BPF_ALU_ADD_K 1}"
    and p: "prog = replicate n i @ [BPF_STMT BPF_RET_K SECCOMP_RET_ALLOW]"
    using create_filter_form[OF assms(1)] assms(2) by (auto simp: BPF_MAXINSNS_def)
  have "instr_ok i (Suc m)" for m using i by (auto simp: instr_ok_def BPF_STMT_def BPF_JUMP_def bpf_codes)
  then have "instrs_ok prog" unfolding p by (rule ok)
  then show ?thesis using assms(2) by (simp add: bpf_check_def p BPF_STMT_def)
qed

section \<open>Dumping and loading\<close>

lemma join16: "ucast (ucast w :: 8 word) OR push_bit 8 (ucast (ucast (drop_bit 8 w) :: 8 word)) = (w :: 16 word)"
  by (rule bit_word_eqI) (auto simp: bit_simps)

lemma join32:
  "ucast (ucast w :: 8 word) OR push_bit 8 (ucast (ucast (drop_bit 8 w) :: 8 word)) OR
   push_bit 16 (ucast (ucast (drop_bit 16 w) :: 8 word)) OR push_bit 24 (ucast (ucast (drop_bit 24 w) :: 8 word)) = (w :: 32 word)"
proof (rule bit_word_eqI)
  fix n assume "n < LENGTH(32)"
  then show "bit (ucast (ucast w :: 8 word) OR push_bit 8 (ucast (ucast (drop_bit 8 w) :: 8 word)) OR
      push_bit 16 (ucast (ucast (drop_bit 16 w) :: 8 word)) OR push_bit 24 (ucast (ucast (drop_bit 24 w) :: 8 word)) :: 32 word) n =
    bit w n"
    by (cases "24 \<le> n"; cases "16 \<le> n") (auto simp: bit_simps)
qed

lemma bytes_instrs_dump: "bytes_instrs (dumpFilter prog) = prog"
  by (induction prog) (simp_all add: dumpFilter_def instr_bytes_def join16 join32)

lemma length_dump: "length (dumpFilter prog) = 8 * length prog"
  by (induction prog) (simp_all add: dumpFilter_def instr_bytes_def)

lemma dump_load:
  assumes "fetchFilter att adm installed i = Fetched prog" "accepts prog" "length prog < 65536"
  shows "loadFilter accepts (Some (dumpFilter prog)) fs = Some (prog # fs)"
proof -
  have "to_int32 (8 * int (length prog)) = 8 * int (length prog)" using assms(3) by (simp add: to_int32_def)
  then show ?thesis using assms(2,3)
    by (simp add: loadFilter_def length_dump bytes_instrs_dump Let_def nat_mult_distrib)
qed

section \<open>All filters are accepted\<close>

lemma filters_checked:
  "bpf_check arg64_filter" "bpf_check control_open_filter" "bpf_check deny_open_filter" "bpf_check perf_filter"
  "bpf_check logging_filter" "bpf_check trap_sigsys_filter" "bpf_check multiarch_filter" "bpf_check notify_mkdir_filter"
  "bpf_check notify_openat_filter" "bpf_check (deny_syscall_filter n)" "bpf_check (second_filter f)"
  by (simp_all add: bpf_check_def instr_ok_def BPF_MAXINSNS_def BPF_STMT_def BPF_JUMP_def bpf_codes seccomp_consts
      arg64_filter_def control_open_filter_def deny_open_filter_def perf_filter_def logging_filter_def
      trap_sigsys_filter_def multiarch_filter_def notify_mkdir_filter_def notify_openat_filter_def
      deny_syscall_filter_def second_filter_def X86_64_CHECK_ARCH_AND_LOAD_SYSCALL_NR_def Let_def)

section \<open>The choice among several filters\<close>

lemma run_filters_least:
  assumes "list_all bpf_check fs"
  shows "\<exists>x. run_filters fs d r = Some x \<and>
     action_only x = Min (insert (action_only r) ((\<lambda>f. action_only (the (bpf_run f d 0))) ` set fs))"
  using assms
proof (induction fs arbitrary: r)
  case (Cons f fs)
  obtain c where c: "bpf_run f d 0 = Some c" using Cons.prems bpf_check_returns[of f d 0] by auto
  let ?r = "if action_only c < action_only r then c else r"
  have "action_only ?r = min (action_only c) (action_only r)" by simp
  moreover obtain x where "run_filters fs d ?r = Some x"
    "action_only x = Min (insert (action_only ?r) ((\<lambda>f. action_only (the (bpf_run f d 0))) ` set fs))"
    using Cons by auto
  ultimately show ?case using c by (cases "fs = []") (auto simp: min.assoc min.left_commute)
qed simp

lemma two_filters:
  assumes "arch d = AUDIT_ARCH_X86_64 \<and> nr d < X32_SYSCALL_BIT"
  shows "run_filters [second_filter f, notify_mkdir_filter] d SECCOMP_RET_ALLOW =
       Some (if nr d \<noteq> NR_mkdir then SECCOMP_RET_ALLOW
             else if f = SECCOMP_RET_ERRNO then SECCOMP_RET_ERRNO OR ENOTSUP_NR else SECCOMP_RET_USER_NOTIF)"
proof -
  have "arch d = AUDIT_ARCH_X86_64" "\<not> X32_SYSCALL_BIT \<le> nr d" using assms by auto
  note o = notify_filters_decide[OF this]
  have "action_only (SECCOMP_RET_ERRNO OR ENOTSUP_NR) < action_only SECCOMP_RET_USER_NOTIF"
    "action_only SECCOMP_RET_USER_NOTIF < action_only SECCOMP_RET_TRACE"
    "action_only SECCOMP_RET_TRACE < action_only SECCOMP_RET_ALLOW"
    by (simp_all add: action_only_def seccomp_rets seccomp_consts)
  then show ?thesis by (simp add: o)
qed

section \<open>Properties\<close>



text \<open>
  C28: The filter of \<^verbatim>\<open>seccomp_arg64\<close> compares the 64-bit offset of \<^verbatim>\<open>lseek\<close> with 1000 through its two halves: an
  offset of at most 1000 is allowed, a larger one fails with error 1, or with error 2 when it does not
  fit into 32 bits.  The filter of \<^verbatim>\<open>seccomp_control_open\<close> takes the flags from the right argument of \<^verbatim>\<open>open\<close>
  and \<^verbatim>\<open>openat\<close>, kills the process for O_CREAT and otherwise fails with ENOTSUP for writing.  Both kill
  for another architecture and for x32 calls and allow all other calls.
\<close>

theorem argument_filters_decide:
  "bpf_run arg64_filter d 0 =
     Some (if arch d \<noteq> AUDIT_ARCH_X86_64 \<or> X32_SYSCALL_BIT \<le> nr d then SECCOMP_RET_KILL_PROCESS
           else if nr d \<noteq> NR_lseek \<or> args d 1 \<le> 1000 then SECCOMP_RET_ALLOW
           else if args d 1 < 0x100000000 then SECCOMP_RET_ERRNO OR 1 else SECCOMP_RET_ERRNO OR 2) \<and>
   bpf_run control_open_filter d 0 =
     Some (if arch d \<noteq> AUDIT_ARCH_X86_64 \<or> X32_SYSCALL_BIT \<le> nr d then SECCOMP_RET_KILL_PROCESS
           else if nr d \<noteq> NR_open \<and> nr d \<noteq> NR_openat then SECCOMP_RET_ALLOW
           else let flags = low32 (args d (if nr d = NR_open then 1 else 2)) in
             if flags AND O_CREAT \<noteq> 0 then SECCOMP_RET_KILL_PROCESS
             else if flags AND (O_WRONLY OR O_RDWR) \<noteq> 0 then SECCOMP_RET_ERRNO OR ENOTSUP_NR
             else SECCOMP_RET_ALLOW)"
  by (intro conjI arg64_decides control_open_decides)

theorem argument_filters_decide_witness:
  "bpf_run arg64_filter \<lparr>nr = NR_lseek, arch = AUDIT_ARCH_X86_64, instruction_pointer = 0, args = (\<lambda>_. 5000)\<rparr> 0 =
     Some (SECCOMP_RET_ERRNO OR 1)"
  using argument_filters_decide[of "\<lparr>nr = NR_lseek, arch = AUDIT_ARCH_X86_64, instruction_pointer = 0, args = (\<lambda>_. 5000)\<rparr>"]
  by (simp add: seccomp_consts)

text \<open>
  The filters that decide by the number of the call.  \<^verbatim>\<open>seccomp_deny_open\<close> and \<^verbatim>\<open>seccomp_perf\<close> kill exactly for
  their calls, for another architecture and for x32 calls; \<^verbatim>\<open>seccomp_deny_syscall\<close> kills exactly for the given
  number, on any architecture; \<^verbatim>\<open>seccomp_trap_sigsys\<close> traps \<^verbatim>\<open>getppid\<close>, and \<^verbatim>\<open>seccomp_multiarch\<close> makes \<^verbatim>\<open>mq_notify\<close> fail
  with the number it has on each of the three interfaces.
\<close>

theorem number_filters_decide:
  "bpf_run deny_open_filter d 0 =
     Some (if arch d \<noteq> AUDIT_ARCH_X86_64 \<or> X32_SYSCALL_BIT \<le> nr d \<or> nr d = NR_open \<or> nr d = NR_openat
           then SECCOMP_RET_KILL_PROCESS else SECCOMP_RET_ALLOW) \<and>
   bpf_run perf_filter d 0 =
     Some (if arch d \<noteq> AUDIT_ARCH_X86_64 \<or> X32_SYSCALL_BIT \<le> nr d \<or> nr d = NR_openat
           then SECCOMP_RET_KILL_PROCESS else SECCOMP_RET_ALLOW) \<and>
   bpf_run (deny_syscall_filter n) d 0 =
     Some (if nr d = word_of_int n then SECCOMP_RET_KILL_PROCESS else SECCOMP_RET_ALLOW) \<and>
   bpf_run trap_sigsys_filter d 0 =
     Some (if arch d \<noteq> AUDIT_ARCH_X86_64 then SECCOMP_RET_KILL
           else if X32_SYSCALL_BIT \<le> nr d then SECCOMP_RET_KILL_PROCESS
           else if nr d = NR_getppid then SECCOMP_RET_TRAP else SECCOMP_RET_ALLOW) \<and>
   bpf_run multiarch_filter d 0 =
     Some (if arch d = AUDIT_ARCH_X86_64 then
             (if nr d = NR_mq_notify_x86_64 then SECCOMP_RET_ERRNO OR NR_mq_notify_x86_64
              else if nr d = NR_mq_notify_x32 OR X32_SYSCALL_BIT then SECCOMP_RET_ERRNO OR NR_mq_notify_x32
              else SECCOMP_RET_ALLOW)
           else if arch d = AUDIT_ARCH_I386 then
             (if nr d = NR_mq_notify_i386 then SECCOMP_RET_ERRNO OR NR_mq_notify_i386 else SECCOMP_RET_ALLOW)
           else SECCOMP_RET_KILL_PROCESS)"
  by (intro conjI deny_open_decides perf_decides deny_syscall_decides trap_sigsys_decides multiarch_decides)

text \<open>
  The result of several filters has the action of highest precedence among theirs, whatever the
  order in which they were installed.  So with the second filter of \<^verbatim>\<open>seccomp_unotify_mkdir\<close>, \<^verbatim>\<open>mkdir\<close> fails
  with ENOTSUP without a notification for -f e and still notifies the supervisor for -f t, and all other
  calls of the architecture are allowed.
\<close>

theorem filter_precedence:
  "(\<forall>fs d. list_all bpf_check fs \<longrightarrow>
     (\<exists>x. run_filters fs d SECCOMP_RET_ALLOW = Some x \<and>
        action_only x = Min (insert (action_only SECCOMP_RET_ALLOW) ((\<lambda>f. action_only (the (bpf_run f d 0))) ` set fs)))) \<and>
   (\<forall>d f. arch d = AUDIT_ARCH_X86_64 \<and> nr d < X32_SYSCALL_BIT \<longrightarrow>
     run_filters [second_filter f, notify_mkdir_filter] d SECCOMP_RET_ALLOW =
       Some (if nr d \<noteq> NR_mkdir then SECCOMP_RET_ALLOW
             else if f = SECCOMP_RET_ERRNO then SECCOMP_RET_ERRNO OR ENOTSUP_NR else SECCOMP_RET_USER_NOTIF))"
  using run_filters_least two_filters by blast

theorem filter_precedence_witness:
  "(let d = \<lparr>nr = NR_mkdir, arch = AUDIT_ARCH_X86_64, instruction_pointer = 0, args = (\<lambda>_. 0)\<rparr> in
     run_filters [second_filter SECCOMP_RET_TRACE, notify_mkdir_filter] d SECCOMP_RET_ALLOW = Some SECCOMP_RET_USER_NOTIF \<and>
     (\<exists>x. run_filters [deny_open_filter] d SECCOMP_RET_ALLOW = Some x))"
proof -
  have "NR_mkdir < X32_SYSCALL_BIT" "SECCOMP_RET_TRACE \<noteq> SECCOMP_RET_ERRNO" "list_all bpf_check [deny_open_filter]"
    using filters_checked by (simp_all add: seccomp_consts seccomp_rets)
  then show ?thesis using filter_precedence by (fastforce simp: Let_def)
qed



end
