(* ===== verification/Seccomp_Notify.thy ===== *)
theory Seccomp_Notify
  imports Seccomp_Filters
begin

text \<open>
  The two supervisors of \<^verbatim>\<open>tlpi-dist/seccomp\<close> that answer user-space notifications, \<^verbatim>\<open>seccomp_unotify_mkdir.c\<close> and
  \<^verbatim>\<open>seccomp_unotify_openat.c\<close>, with the fetching of a pathname from the memory of the target in
  \<^verbatim>\<open>seccomp_functions.c\<close>.  A run is over a sequence of what the system does for the supervisor, and its
  result is the sequence of what the supervisor does.
\<close>

section \<open>Notifications\<close>

record seccomp_notif =
  notif_id :: "64 word"
  notif_pid :: int
  notif_data :: seccomp_data

record seccomp_notif_resp =
  resp_id :: "64 word"
  resp_val :: int
  resp_error :: int
  resp_flags :: "32 word"

definition SECCOMP_USER_NOTIF_FLAG_CONTINUE :: "32 word" where
  "SECCOMP_USER_NOTIF_FLAG_CONTINUE = 1"

definition EINVAL_NR :: int where "EINVAL_NR = 22"
definition EOPNOTSUPP_NR :: int where "EOPNOTSUPP_NR = 95"
definition GTP_BAD_READ :: int where "GTP_BAD_READ = -1"
definition GTP_ID_NOT_VALID :: int where "GTP_ID_NOT_VALID = -2"
definition GTP_BAD_PATH :: int where "GTP_BAD_PATH = -3"
definition TARGET_PATH_MAX :: nat where "TARGET_PATH_MAX = 4096"

text \<open>
  The target as the supervisor finds it while it handles one notification: whether its memory can be
  opened, the bytes that can be read from an address on, and the answers of the successive checks of the
  notification's id.
\<close>

record target_state =
  mem_opens :: bool
  mem_bytes :: "64 word \<Rightarrow> string"
  valid_before_delay :: bool
  valid_after_delay :: bool
  valid_after_open :: bool
  valid_after_read :: bool

text \<open>The status and the new content of the buffer.\<close>

definition getTargetPathname :: "seccomp_notif \<Rightarrow> target_state \<Rightarrow> nat \<Rightarrow> string \<Rightarrow> nat \<Rightarrow> int \<times> string" where
  "getTargetPathname req t argNum path len =
     (if \<not> mem_opens t then (GTP_BAD_READ, path)
      else if \<not> valid_after_open t then (GTP_ID_NOT_VALID, path)
      else
        let bytes = take len (mem_bytes t (args (notif_data req) argNum));
            nread = length bytes
        in
          if nread = 0 then (GTP_BAD_READ, path)
          else
            let path = bytes @ drop nread path in
            if \<not> valid_after_read t then (GTP_ID_NOT_VALID, path)
            else if length (takeWhile (\<lambda>c. c \<noteq> CHR 0x00) (take nread path)) < nread then (0, path)
            else (GTP_BAD_PATH, path))"

section \<open>The supervisor for mkdir\<close>

text \<open>What \<^verbatim>\<open>SECCOMP_IOCTL_NOTIF_RECV\<close> gives, and how the loop ends.\<close>

datatype recv = Recv_eintr | Recv_error | Recv seccomp_notif

datatype loop_end = Waiting | Exit_failure

datatype mkdir_action = Mkdir string "32 word" | Send seccomp_notif_resp

text \<open>
  The answer to one notification: the calls made, and the new content of the buffer for the pathname.
  \<^verbatim>\<open>mkdir\<close> is given by the error number of each call, 0 for success.
\<close>

definition answer_mkdir ::
  "(string \<Rightarrow> 32 word \<Rightarrow> int) \<Rightarrow> seccomp_notif \<Rightarrow> target_state \<Rightarrow> string \<Rightarrow> mkdir_action list \<times> string" where
  "answer_mkdir mkdir req t path =
     (let (pathStatus, path) = getTargetPathname req t 0 path TARGET_PATH_MAX;
          resp = \<lparr>resp_id = notif_id req, resp_val = 0, resp_error = 0, resp_flags = 0\<rparr>;
          p = buf_string path;
          mode = ucast (args (notif_data req) 1)
      in
        if pathStatus \<noteq> 0 then ([Send (resp\<lparr>resp_error := - EINVAL_NR\<rparr>)], path)
        else if strncmp_eq p ''/tmp/'' (length ''/tmp/'') then
          (if mkdir p mode = 0 then ([Mkdir p mode, Send (resp\<lparr>resp_error := 0, resp_val := int (length p)\<rparr>)], path)
           else ([Mkdir p mode, Send (resp\<lparr>resp_error := - mkdir p mode\<rparr>)], path))
        else if strncmp_eq p ''./'' (length ''./'') then
          ([Send (resp\<lparr>resp_error := 0, resp_val := 0, resp_flags := SECCOMP_USER_NOTIF_FLAG_CONTINUE\<rparr>)], path)
        else ([Send (resp\<lparr>resp_error := - EOPNOTSUPP_NR\<rparr>)], path))"

text \<open>
  The loop; it waits in \<^verbatim>\<open>SECCOMP_IOCTL_NOTIF_RECV\<close> at the end of the sequence, and a failing
  \<^verbatim>\<open>SECCOMP_IOCTL_NOTIF_SEND\<close> only prints a message.
\<close>

fun mkdir_notifications ::
  "int \<Rightarrow> (string \<Rightarrow> 32 word \<Rightarrow> int) \<Rightarrow> (recv \<times> target_state) list \<Rightarrow> string \<Rightarrow> mkdir_action list \<times> loop_end" where
  "mkdir_notifications delaySecs mkdir [] path = ([], Waiting)"
| "mkdir_notifications delaySecs mkdir ((Recv_eintr, t) # evs) path = mkdir_notifications delaySecs mkdir evs path"
| "mkdir_notifications delaySecs mkdir ((Recv_error, t) # evs) path = ([], Exit_failure)"
| "mkdir_notifications delaySecs mkdir ((Recv req, t) # evs) path =
     (if nr (notif_data req) \<noteq> NR_mkdir then ([], Exit_failure)
      else if 0 < delaySecs \<and> \<not> (valid_before_delay t \<and> valid_after_delay t) then ([], Exit_failure)
      else
        let (acts, path) = answer_mkdir mkdir req t path in
        if buf_string path = ''/bye'' then (acts, Exit_failure)
        else
          let (rest, e) = mkdir_notifications delaySecs mkdir evs path in (acts @ rest, e))"

section \<open>The supervisor for openat\<close>

datatype openat_action =
    Openat int string int "32 word"
  | Add_fd "64 word" int int
  | Close_fd int
  | Send_resp seccomp_notif_resp

text \<open>
  \<^verbatim>\<open>openat\<close> gives a descriptor or a negated error number, \<^verbatim>\<open>SECCOMP_IOCTL_NOTIF_ADDFD\<close> a descriptor of the target
  or -1.  No buffer when the program ends with an error.
\<close>

definition answer_openat ::
  "(int \<Rightarrow> string \<Rightarrow> int \<Rightarrow> 32 word \<Rightarrow> int) \<Rightarrow> (int \<Rightarrow> int \<Rightarrow> int) \<Rightarrow> seccomp_notif \<Rightarrow> target_state \<Rightarrow> string
     \<Rightarrow> openat_action list \<times> string option" where
  "answer_openat openat addfd req t path =
     (let (pathStatus, path) = getTargetPathname req t 1 path TARGET_PATH_MAX;
          resp = \<lparr>resp_id = notif_id req, resp_val = 0, resp_error = 0, resp_flags = 0\<rparr>;
          a = args (notif_data req)
      in
        if pathStatus \<noteq> 0 then ([Send_resp (resp\<lparr>resp_error := - EINVAL_NR\<rparr>)], Some path)
        else
          let p = buf_string path;
              dirfd = to_int32 (uint (a 0));
              flags = to_int32 (uint (a 2));
              mode = ucast (a 3);
              fd = openat dirfd p flags mode
          in
            if 0 \<le> fd then
              (let newfd = 42 + fd; remoteFd = addfd fd newfd in
               if remoteFd = -1 then ([Openat dirfd p flags mode, Add_fd (notif_id req) fd newfd], None)
               else ([Openat dirfd p flags mode, Add_fd (notif_id req) fd newfd, Close_fd fd,
                      Send_resp (resp\<lparr>resp_error := 0, resp_val := remoteFd\<rparr>)], Some path))
            else ([Openat dirfd p flags mode, Send_resp (resp\<lparr>resp_error := fd\<rparr>)], Some path))"

fun openat_notifications ::
  "(int \<Rightarrow> string \<Rightarrow> int \<Rightarrow> 32 word \<Rightarrow> int) \<Rightarrow> (int \<Rightarrow> int \<Rightarrow> int) \<Rightarrow> (recv \<times> target_state) list \<Rightarrow> string
     \<Rightarrow> openat_action list \<times> loop_end" where
  "openat_notifications openat addfd [] path = ([], Waiting)"
| "openat_notifications openat addfd ((Recv_eintr, t) # evs) path = openat_notifications openat addfd evs path"
| "openat_notifications openat addfd ((Recv_error, t) # evs) path = ([], Exit_failure)"
| "openat_notifications openat addfd ((Recv req, t) # evs) path =
     (if nr (notif_data req) \<noteq> NR_openat then ([], Exit_failure)
      else
        (case answer_openat openat addfd req t path of
           (acts, None) \<Rightarrow> (acts, Exit_failure)
         | (acts, Some path) \<Rightarrow>
             let (rest, e) = openat_notifications openat addfd evs path in (acts @ rest, e)))"

section \<open>Fetched pathnames\<close>

text \<open>
  The pathname that the target passed: it is fetched exactly when the memory is readable, the id is valid
  before and after the reading, and a null byte comes within PATH_MAX bytes.
\<close>

definition genuine_path :: "seccomp_notif \<Rightarrow> target_state \<Rightarrow> nat \<Rightarrow> string \<Rightarrow> bool" where
  "genuine_path req t argNum p \<longleftrightarrow>
     mem_opens t \<and> valid_after_open t \<and> valid_after_read t \<and> CHR 0x00 \<notin> set p \<and> length p < TARGET_PATH_MAX \<and>
     take (Suc (length p)) (mem_bytes t (args (notif_data req) argNum)) = p @ [CHR 0x00]"

lemma takeWhile_shorter:
  "length (takeWhile P xs) < length xs \<Longrightarrow> \<exists>x ys. xs = takeWhile P xs @ x # ys \<and> \<not> P x"
  by (metis append_Nil2 dropWhile_eq_Nil_conv hd_dropWhile list.exhaust_sel nat_neq_iff takeWhile_dropWhile_id takeWhile_eq_all_conv)

lemma fetched_path_genuine:
  assumes "getTargetPathname req t argNum path TARGET_PATH_MAX = (0, path')"
  shows "genuine_path req t argNum (buf_string path')"
proof -
  define b where "b = take TARGET_PATH_MAX (mem_bytes t (args (notif_data req) argNum))"
  let ?P = "\<lambda>c. c \<noteq> CHR 0x00" and ?p = "takeWhile (\<lambda>c. c \<noteq> CHR 0x00) b"
  have a: "mem_opens t" "valid_after_open t" "valid_after_read t" "path' = b @ drop (length b) path" "length ?p < length b"
    using assms unfolding getTargetPathname_def Let_def b_def[symmetric]
    by (auto simp: GTP_BAD_READ_def GTP_ID_NOT_VALID_def GTP_BAD_PATH_def split: if_splits)
  obtain c ys where b: "b = ?p @ c # ys" "\<not> ?P c" using takeWhile_shorter[OF a(5)] by blast
  have "c \<in> set b" by (subst b(1)) simp
  then have s: "buf_string path' = ?p" using b(2) by (simp add: buf_string_def a(4) takeWhile_append1)
  have l: "length ?p < TARGET_PATH_MAX" using a(5) by (simp add: b_def)
  have "take (Suc (length ?p)) b = ?p @ [c]" using arg_cong[OF b(1), of "take (Suc (length ?p))"] by simp
  then have "take (Suc (length ?p)) (mem_bytes t (args (notif_data req) argNum)) = ?p @ [CHR 0x00]"
    using l b(2) by (simp add: b_def min_absorb1 Suc_le_eq)
  moreover have "CHR 0x00 \<notin> set ?p" using set_takeWhileD by metis
  ultimately show ?thesis using a(1-3) l unfolding genuine_path_def s by simp
qed

section \<open>What the supervisors do\<close>

fun sent :: "mkdir_action list \<Rightarrow> seccomp_notif_resp list" where
  "sent [] = []"
| "sent (Send r # acts) = r # sent acts"
| "sent (Mkdir p m # acts) = sent acts"

fun sent_ids :: "openat_action list \<Rightarrow> 64 word list" where
  "sent_ids [] = []"
| "sent_ids (Send_resp r # acts) = resp_id r # sent_ids acts"
| "sent_ids (_ # acts) = sent_ids acts"

fun received_ids :: "(recv \<times> target_state) list \<Rightarrow> 64 word list" where
  "received_ids [] = []"
| "received_ids ((Recv req, t) # evs) = notif_id req # received_ids evs"
| "received_ids (_ # evs) = received_ids evs"

lemma sent_append [simp]: "sent (xs @ ys) = sent xs @ sent ys"
  by (induction xs rule: sent.induct) simp_all

lemma sent_ids_append [simp]: "sent_ids (xs @ ys) = sent_ids xs @ sent_ids ys"
  by (induction xs rule: sent_ids.induct) simp_all

text \<open>The whole effect of one answer, by the pathname.\<close>

lemma answer_mkdir_cases:
  assumes "answer_mkdir mkdir req t path = (acts, path')"
  obtains r where "acts = [Send r]" "r = \<lparr>resp_id = notif_id req, resp_val = 0, resp_error = - EINVAL_NR, resp_flags = 0\<rparr>"
  | p r where "genuine_path req t 0 p" "take 5 p = ''/tmp/''" "acts = [Mkdir p (ucast (args (notif_data req) 1)), Send r]"
      "resp_id r = notif_id req" "resp_flags r = 0"
  | p r where "genuine_path req t 0 p" "take 2 p = ''./''" "acts = [Send r]" "resp_id r = notif_id req"
  | r where "acts = [Send r]" "r = \<lparr>resp_id = notif_id req, resp_val = 0, resp_error = - EOPNOTSUPP_NR, resp_flags = 0\<rparr>"
proof -
  obtain st buf where g: "getTargetPathname req t 0 path TARGET_PATH_MAX = (st, buf)" by fastforce
  note gen = fetched_path_genuine[of req t 0 path buf]
  have tmp: "strncmp_eq p ''/tmp/'' (length ''/tmp/'') \<longleftrightarrow> take 5 p = ''/tmp/''" for p
    by (simp add: strncmp_eq_take eval_nat_numeral)
  have dot: "strncmp_eq p ''./'' (length ''./'') \<longleftrightarrow> take 2 p = ''./''" for p
    by (simp add: strncmp_eq_take eval_nat_numeral)
  consider "st \<noteq> 0" | "st = 0" "take 5 (buf_string buf) = ''/tmp/''"
    | "st = 0" "take 5 (buf_string buf) \<noteq> ''/tmp/''" "take 2 (buf_string buf) = ''./''"
    | "st = 0" "take 5 (buf_string buf) \<noteq> ''/tmp/''" "take 2 (buf_string buf) \<noteq> ''./''" by blast
  then show thesis
  proof cases
    case 1
    then show ?thesis using assms that(1) unfolding answer_mkdir_def by (simp add: g)
  next
    case 2
    then have "\<exists>r. acts = [Mkdir (buf_string buf) (ucast (args (notif_data req) 1)), Send r] \<and> resp_id r = notif_id req \<and> resp_flags r = 0"
      using assms unfolding answer_mkdir_def tmp by (simp add: g Let_def split: if_splits) auto
    then show ?thesis using gen g 2 that(2)[of "buf_string buf"] by auto
  next
    case 3
    then have "\<exists>r. acts = [Send r] \<and> resp_id r = notif_id req"
      using assms unfolding answer_mkdir_def tmp dot by (simp add: g Let_def) auto
    then show ?thesis using gen g 3 that(3)[of "buf_string buf"] by auto
  next
    case 4
    then show ?thesis using assms that(4) unfolding answer_mkdir_def tmp dot by (simp add: g Let_def)
  qed
qed

definition handled :: "(recv \<times> target_state) list \<Rightarrow> 32 word \<Rightarrow> seccomp_notif \<Rightarrow> target_state \<Rightarrow> bool" where
  "handled evs n req t \<longleftrightarrow> (Recv req, t) \<in> set evs \<and> nr (notif_data req) = n"

lemma handled_Cons: "handled evs n req t \<Longrightarrow> handled (e # evs) n req t"
  by (simp add: handled_def)

lemma mkdir_only_in_tmp:
  assumes "Mkdir p m \<in> set (fst (mkdir_notifications del mkdir evs path))"
  shows "\<exists>req t. handled evs NR_mkdir req t \<and> genuine_path req t 0 p \<and> take 5 p = ''/tmp/'' \<and>
     m = ucast (args (notif_data req) 1)"
  using assms
proof (induction del mkdir evs path rule: mkdir_notifications.induct)
  case (4 del mkdir req t evs path)
  obtain acts path' where a: "answer_mkdir mkdir req t path = (acts, path')" by fastforce
  then consider "Mkdir p m \<in> set acts" "handled ((Recv req, t) # evs) NR_mkdir req t"
    | "Mkdir p m \<in> set (fst (mkdir_notifications del mkdir evs path'))" "\<not> buf_string path' = ''/bye''"
      "\<not> nr (notif_data req) \<noteq> NR_mkdir" "\<not> (0 < del \<and> \<not> (valid_before_delay t \<and> valid_after_delay t))"
    using 4(2) by (auto simp: handled_def split: if_splits prod.splits)
  then show ?case
  proof cases
    case 1
    from a show ?thesis by (rule answer_mkdir_cases) (use 1 in auto)
  next
    case 2
    then show ?thesis using 4(1)[of "(acts, path')" acts path'] a handled_Cons by fastforce
  qed
qed (auto intro: handled_Cons)

lemma continue_only_below:
  assumes "r \<in> set (sent (fst (mkdir_notifications del mkdir evs path)))" "resp_flags r = SECCOMP_USER_NOTIF_FLAG_CONTINUE"
  shows "\<exists>req t p. handled evs NR_mkdir req t \<and> genuine_path req t 0 p \<and> take 2 p = ''./'' \<and> resp_id r = notif_id req"
  using assms(1)
proof (induction del mkdir evs path rule: mkdir_notifications.induct)
  case (4 del mkdir req t evs path)
  obtain acts path' where a: "answer_mkdir mkdir req t path = (acts, path')" by fastforce
  then consider "r \<in> set (sent acts)" "handled ((Recv req, t) # evs) NR_mkdir req t"
    | "r \<in> set (sent (fst (mkdir_notifications del mkdir evs path')))" "\<not> buf_string path' = ''/bye''"
      "\<not> nr (notif_data req) \<noteq> NR_mkdir" "\<not> (0 < del \<and> \<not> (valid_before_delay t \<and> valid_after_delay t))"
    using 4(2) by (auto simp: handled_def split: if_splits prod.splits)
  then show ?case
  proof cases
    case 1
    from a show ?thesis
      by (rule answer_mkdir_cases) (use 1 assms(2) in \<open>auto simp: SECCOMP_USER_NOTIF_FLAG_CONTINUE_def\<close>)
  next
    case 2
    then show ?thesis using 4(1)[of "(acts, path')" acts path'] a handled_Cons by fastforce
  qed
qed (auto intro: handled_Cons)

lemma answer_mkdir_id: "answer_mkdir mkdir req t path = (acts, path') \<Longrightarrow> map resp_id (sent acts) = [notif_id req]"
  by (erule answer_mkdir_cases) simp_all

lemma mkdir_answers_in_order:
  "\<exists>n. map resp_id (sent (fst (mkdir_notifications del mkdir evs path))) = take n (received_ids evs) \<and>
     (snd (mkdir_notifications del mkdir evs path) = Waiting \<longrightarrow> length (received_ids evs) \<le> n)"
proof (induction del mkdir evs path rule: mkdir_notifications.induct)
  case (4 del mkdir req t evs path)
  obtain acts path' where a: "answer_mkdir mkdir req t path = (acts, path')" by fastforce
  note id = answer_mkdir_id[OF a]
  consider "nr (notif_data req) \<noteq> NR_mkdir \<or> 0 < del \<and> \<not> (valid_before_delay t \<and> valid_after_delay t)"
    | "\<not> (nr (notif_data req) \<noteq> NR_mkdir \<or> 0 < del \<and> \<not> (valid_before_delay t \<and> valid_after_delay t))" "buf_string path' = ''/bye''"
    | "\<not> (nr (notif_data req) \<noteq> NR_mkdir \<or> 0 < del \<and> \<not> (valid_before_delay t \<and> valid_after_delay t))" "\<not> buf_string path' = ''/bye''"
    by blast
  then show ?case
  proof cases
    case 1
    then show ?thesis by (intro exI[of _ 0]) auto
  next
    case 2
    then show ?thesis using a id by (intro exI[of _ 1]) simp
  next
    case 3
    then obtain n where n: "map resp_id (sent (fst (mkdir_notifications del mkdir evs path'))) = take n (received_ids evs)"
      "snd (mkdir_notifications del mkdir evs path') = Waiting \<longrightarrow> length (received_ids evs) \<le> n"
      using 4[of "(acts, path')" acts path'] a by auto
    then show ?thesis using 3 a id by (intro exI[of _ "Suc n"]) (simp add: case_prod_beta Let_def)
  qed
qed auto

fun passed_fds :: "openat_action list \<Rightarrow> int list" where
  "passed_fds [] = []"
| "passed_fds (Add_fd i fd newfd # acts) = fd # passed_fds acts"
| "passed_fds (_ # acts) = passed_fds acts"

fun closed_fds :: "openat_action list \<Rightarrow> int list" where
  "closed_fds [] = []"
| "closed_fds (Close_fd fd # acts) = fd # closed_fds acts"
| "closed_fds (_ # acts) = closed_fds acts"

lemma fds_append [simp]:
  "passed_fds (xs @ ys) = passed_fds xs @ passed_fds ys" "closed_fds (xs @ ys) = closed_fds xs @ closed_fds ys"
  by (induction xs rule: passed_fds.induct) simp_all

lemma answer_openat_effect:
  assumes "answer_openat openat addfd req t path = (acts, path')"
  shows "Openat d p fl m \<in> set acts \<Longrightarrow> genuine_path req t 1 p \<and> d = to_int32 (uint (args (notif_data req) 0)) \<and>
      fl = to_int32 (uint (args (notif_data req) 2)) \<and> m = ucast (args (notif_data req) 3)"
    and "path' \<noteq> None \<Longrightarrow> sent_ids acts = [notif_id req] \<and> passed_fds acts = closed_fds acts"
    and "path' = None \<Longrightarrow> sent_ids acts = []"
proof -
  obtain st buf where g: "getTargetPathname req t 1 path TARGET_PATH_MAX = (st, buf)" by fastforce
  note gen = fetched_path_genuine[of req t 1 path buf]
  show "Openat d p fl m \<in> set acts \<Longrightarrow> genuine_path req t 1 p \<and> d = to_int32 (uint (args (notif_data req) 0)) \<and>
      fl = to_int32 (uint (args (notif_data req) 2)) \<and> m = ucast (args (notif_data req) 3)"
    using assms gen[simplified] unfolding answer_openat_def by (auto simp: g[simplified] Let_def split: if_splits)
  show "path' \<noteq> None \<Longrightarrow> sent_ids acts = [notif_id req] \<and> passed_fds acts = closed_fds acts" "path' = None \<Longrightarrow> sent_ids acts = []"
    using assms unfolding answer_openat_def by (auto simp: g[simplified] Let_def split: if_splits)
qed

lemma openat_only_genuine:
  assumes "Openat d p fl m \<in> set (fst (openat_notifications openat addfd evs path))"
  shows "\<exists>req t. handled evs NR_openat req t \<and> genuine_path req t 1 p \<and> d = to_int32 (uint (args (notif_data req) 0)) \<and>
      fl = to_int32 (uint (args (notif_data req) 2)) \<and> m = ucast (args (notif_data req) 3)"
  using assms
proof (induction openat addfd evs path rule: openat_notifications.induct)
  case (4 openat addfd req t evs path)
  obtain acts res where a: "answer_openat openat addfd req t path = (acts, res)" by fastforce
  then consider "Openat d p fl m \<in> set acts" "handled ((Recv req, t) # evs) NR_openat req t"
    | path' where "res = Some path'" "Openat d p fl m \<in> set (fst (openat_notifications openat addfd evs path'))"
      "\<not> nr (notif_data req) \<noteq> NR_openat"
    using 4(2) by (auto simp: handled_def split: if_splits option.splits prod.splits)
  then show ?case
  proof cases
    case 1
    then show ?thesis using answer_openat_effect(1)[OF a] by blast
  next
    case 2
    then show ?thesis using 4(1)[of acts res path'] a handled_Cons by fastforce
  qed
qed (auto intro: handled_Cons)

lemma openat_answers_in_order:
  "\<exists>n. sent_ids (fst (openat_notifications openat addfd evs path)) = take n (received_ids evs) \<and>
     (snd (openat_notifications openat addfd evs path) = Waiting \<longrightarrow> length (received_ids evs) \<le> n \<and>
      passed_fds (fst (openat_notifications openat addfd evs path)) = closed_fds (fst (openat_notifications openat addfd evs path)))"
proof (induction openat addfd evs path rule: openat_notifications.induct)
  case (4 openat addfd req t evs path)
  obtain acts res where a: "answer_openat openat addfd req t path = (acts, res)" by fastforce
  consider "nr (notif_data req) \<noteq> NR_openat \<or> res = None" | path' where "nr (notif_data req) = NR_openat" "res = Some path'" by blast
  then show ?case
  proof cases
    case 1
    then show ?thesis using a answer_openat_effect(3)[OF a] by (intro exI[of _ 0]) auto
  next
    case 2
    then obtain n where "sent_ids (fst (openat_notifications openat addfd evs path')) = take n (received_ids evs)"
      "snd (openat_notifications openat addfd evs path') = Waiting \<longrightarrow> length (received_ids evs) \<le> n \<and>
        passed_fds (fst (openat_notifications openat addfd evs path')) = closed_fds (fst (openat_notifications openat addfd evs path'))"
      using 4[of acts res path'] a by auto
    then show ?thesis using 2 a answer_openat_effect(2)[OF a]
      by (intro exI[of _ "Suc n"]) (simp add: case_prod_beta Let_def)
  qed
qed auto

text \<open>Concrete notifications and targets for the witnesses.\<close>

definition sample_notif :: "32 word \<Rightarrow> 64 word \<Rightarrow> seccomp_notif" where
  "sample_notif n i =
     \<lparr>notif_id = i, notif_pid = 1,
      notif_data = \<lparr>nr = n, arch = AUDIT_ARCH_X86_64, instruction_pointer = 0, args = (\<lambda>_. i)\<rparr>\<rparr>"

definition sample_target :: "string \<Rightarrow> target_state" where
  "sample_target p =
     \<lparr>mem_opens = True, mem_bytes = (\<lambda>_. p @ [CHR 0x00]), valid_before_delay = True, valid_after_delay = True,
      valid_after_open = True, valid_after_read = True\<rparr>"

section \<open>Properties\<close>





end
