(* ===== verification/Socket_IO.thy ===== *)
theory Socket_IO
  imports C_Strings
begin

text \<open>
  Reading and writing on stream sockets: \<^verbatim>\<open>readn\<close> and \<^verbatim>\<open>writen\<close> of \<^verbatim>\<open>tlpi-dist/sockets/rdwrn.c\<close>, \<^verbatim>\<open>readLine\<close> of
  \<^verbatim>\<open>read_line.c\<close> and \<^verbatim>\<open>readLineBuf\<close> of \<^verbatim>\<open>read_line_buf.c\<close>.  A descriptor is given by what the successive calls
  on it deliver: bytes in portions of any size, interruptions by signals, and failures.
\<close>

section \<open>Descriptors\<close>

text \<open>What arrives for reading; after the last item comes the end of file.\<close>

datatype arrival = Bytes string | Interrupt | Failure errno

fun arrivals_size :: "arrival list \<Rightarrow> nat" where
  "arrivals_size [] = 0"
| "arrivals_size (Bytes bs # es) = Suc (length bs) + arrivals_size es"
| "arrivals_size (_ # es) = Suc (arrivals_size es)"

text \<open>
  \<^verbatim>\<open>read\<close> of at most a number of bytes gives the bytes, none at the end of file, or an error, and what arrives
  afterwards.
\<close>

fun sock_read :: "arrival list \<Rightarrow> nat \<Rightarrow> (errno + string) \<times> arrival list" where
  "sock_read [] n = (Inr [], [])"
| "sock_read (Interrupt # es) n = (Inl EINTR, es)"
| "sock_read (Failure e # es) n = (Inl e, es)"
| "sock_read (Bytes bs # es) n =
     (if bs = [] then sock_read es n
      else (Inr (take n bs), if drop n bs = [] then es else Bytes (drop n bs) # es))"

text \<open>How much the successive calls of \<^verbatim>\<open>write\<close> take; afterwards they take everything.\<close>

datatype acceptance = Takes nat | Write_interrupt | Write_failure errno

fun sock_write :: "acceptance list \<Rightarrow> string \<Rightarrow> (errno + nat) \<times> acceptance list" where
  "sock_write [] bs = (Inr (length bs), [])"
| "sock_write (Takes k # ws) bs = (Inr (min k (length bs)), ws)"
| "sock_write (Write_interrupt # ws) bs = (Inl EINTR, ws)"
| "sock_write (Write_failure e # ws) bs = (Inl e, ws)"

lemma sock_read_size: "(r, es') = sock_read es n \<Longrightarrow>
    arrivals_size es' + (case r of Inl e \<Rightarrow> 1 | Inr bs \<Rightarrow> length bs) \<le> arrivals_size es"
  by (induction es n arbitrary: r rule: sock_read.induct) (auto intro: le_SucI split: if_splits)

lemma sock_read_less:
  "(Inl e, es') = sock_read es n \<Longrightarrow> arrivals_size es' < arrivals_size es"
  "(Inr bs, es') = sock_read es n \<Longrightarrow> bs \<noteq> [] \<Longrightarrow> arrivals_size es' < arrivals_size es"
  by (drule sock_read_size; cases bs; simp)+

lemma sock_write_less:
  "(Inl e, ws') = sock_write ws bs \<Longrightarrow> length ws' < length ws"
  "(Inr k, ws') = sock_write ws bs \<Longrightarrow> bs \<noteq> [] \<Longrightarrow> 0 < k \<Longrightarrow> length ws' + (length bs - k) < length ws + length bs"
  by (cases "(ws, bs)" rule: sock_write.cases; auto)+

section \<open>readn and writen\<close>

text \<open>The loop of \<^verbatim>\<open>readn\<close>, with the bytes placed into the buffer so far: the value returned, the buffer, the rest.\<close>

function readn_loop :: "arrival list \<Rightarrow> nat \<Rightarrow> string \<Rightarrow> int \<times> string \<times> arrival list" where
  "readn_loop es n buf =
     (if length buf < n then
        (case sock_read es (n - length buf) of
           (Inl e, es') \<Rightarrow> if e = EINTR then readn_loop es' n buf else (-1, buf, es')
         | (Inr bs, es') \<Rightarrow>
             if bs = [] then (int (length buf), buf, es') else readn_loop es' n (buf @ bs))
      else (int (length buf), buf, es))"
  by pat_completeness auto
termination
  by (relation "measure (\<lambda>(es, n, buf). arrivals_size es)") (auto dest: sock_read_less)

declare readn_loop.simps [simp del]

definition readn :: "arrival list \<Rightarrow> nat \<Rightarrow> int \<times> string \<times> arrival list" where
  "readn es n = readn_loop es n []"

text \<open>The loop of \<^verbatim>\<open>writen\<close>, with what has been sent and what is left.\<close>

function writen_loop :: "acceptance list \<Rightarrow> string \<Rightarrow> string \<Rightarrow> int \<times> string \<times> acceptance list" where
  "writen_loop ws done rest =
     (if rest \<noteq> [] then
        (case sock_write ws rest of
           (Inl e, ws') \<Rightarrow> if e = EINTR then writen_loop ws' done rest else (-1, done, ws')
         | (Inr k, ws') \<Rightarrow> if k = 0 then (-1, done, ws') else writen_loop ws' (done @ take k rest) (drop k rest))
      else (int (length done), done, ws))"
  by pat_completeness auto
termination
  by (relation "measure (\<lambda>(ws, done, rest). length ws + length rest)") (auto dest: sock_write_less)

declare writen_loop.simps [simp del]

definition writen :: "acceptance list \<Rightarrow> string \<Rightarrow> int \<times> string \<times> acceptance list" where
  "writen ws buffer = writen_loop ws [] buffer"

section \<open>readLine\<close>

text \<open>The loop of \<^verbatim>\<open>readLine\<close>; the buffer without its terminating null byte.\<close>

function readLine_loop :: "arrival list \<Rightarrow> nat \<Rightarrow> string \<Rightarrow> int \<times> string \<times> arrival list" where
  "readLine_loop es n buf =
     (case sock_read es 1 of
        (Inl e, es') \<Rightarrow> if e = EINTR then readLine_loop es' n buf else (-1, buf, es')
      | (Inr bs, es') \<Rightarrow>
          if bs = [] then (int (length buf), buf, es')
          else
            let ch = hd bs; buf' = (if length buf < n - 1 then buf @ [ch] else buf) in
            if ch = CHR 0x0A then (int (length buf'), buf', es') else readLine_loop es' n buf')"
  by pat_completeness auto
termination
  by (relation "measure (\<lambda>(es, n, buf). arrivals_size es)") (auto dest: sock_read_less)

declare readLine_loop.simps [simp del]

definition readLine :: "arrival list \<Rightarrow> nat \<Rightarrow> int \<times> string \<times> arrival list" where
  "readLine es n = (if n = 0 then (-1, [], es) else readLine_loop es n [])"

section \<open>readLineBuf\<close>

definition RL_MAX_BUF :: nat where
  "RL_MAX_BUF = 10"

record ReadLineBuf =
  rl_buf :: string
  rl_next :: int
  rl_len :: int

definition readLineBufInit :: "ReadLineBuf \<Rightarrow> ReadLineBuf" where
  "readLineBufInit rlbuf = rlbuf\<lparr>rl_len := 0, rl_next := 0\<rparr>"

definition rl_left :: "ReadLineBuf \<Rightarrow> nat" where
  "rl_left rlbuf = nat (rl_len rlbuf - rl_next rlbuf)"

text \<open>One turn of the loop up to the next character: an error, the end of file, or a character.\<close>

definition rl_fill :: "ReadLineBuf \<Rightarrow> arrival list \<Rightarrow> (errno + char option) \<times> ReadLineBuf \<times> arrival list" where
  "rl_fill rlbuf es =
     (if rl_len rlbuf \<le> rl_next rlbuf then
        (case sock_read es RL_MAX_BUF of
           (Inl e, es') \<Rightarrow> (Inl e, rlbuf\<lparr>rl_len := -1\<rparr>, es')
         | (Inr bs, es') \<Rightarrow>
             if bs = [] then (Inr None, rlbuf\<lparr>rl_len := 0\<rparr>, es')
             else
               let buf = bs @ drop (length bs) (rl_buf rlbuf) in
               (Inr (Some (buf ! 0)), rlbuf\<lparr>rl_len := int (length bs), rl_buf := buf, rl_next := 1\<rparr>, es'))
      else (Inr (Some (rl_buf rlbuf ! nat (rl_next rlbuf))), rlbuf\<lparr>rl_next := rl_next rlbuf + 1\<rparr>, es))"

lemma rl_fill_size:
  "rl_fill rlbuf es = (Inr (Some c), rlbuf', es') \<Longrightarrow> arrivals_size es' + rl_left rlbuf' < arrivals_size es + rl_left rlbuf"
  using sock_read_size[of _ es' es RL_MAX_BUF]
  by (auto simp: rl_fill_def rl_left_def Let_def neq_Nil_conv split: if_splits prod.splits sum.splits)

text \<open>The loop of \<^verbatim>\<open>readLineBuf\<close>, with the bytes placed into the buffer so far.\<close>

function readLineBuf_loop :: "ReadLineBuf \<Rightarrow> arrival list \<Rightarrow> nat \<Rightarrow> string \<Rightarrow> int \<times> string \<times> ReadLineBuf \<times> arrival list" where
  "readLineBuf_loop rlbuf es n buffer =
     (case rl_fill rlbuf es of
        (Inl e, rlbuf', es') \<Rightarrow> (-1, buffer, rlbuf', es')
      | (Inr None, rlbuf', es') \<Rightarrow> (int (length buffer), buffer, rlbuf', es')
      | (Inr (Some c), rlbuf', es') \<Rightarrow>
          let buffer' = (if length buffer < n then buffer @ [c] else buffer) in
          if c = CHR 0x0A then (int (length buffer'), buffer', rlbuf', es')
          else readLineBuf_loop rlbuf' es' n buffer')"
  by pat_completeness auto
termination
  by (relation "measure (\<lambda>(rlbuf, es, n, buffer). arrivals_size es + rl_left rlbuf)") (auto dest: rl_fill_size[OF sym])

declare readLineBuf_loop.simps [simp del]

definition readLineBuf :: "ReadLineBuf \<Rightarrow> arrival list \<Rightarrow> nat \<Rightarrow> int \<times> string \<times> ReadLineBuf \<times> arrival list" where
  "readLineBuf rlbuf es n = (if n = 0 then (-1, [], rlbuf, es) else readLineBuf_loop rlbuf es n [])"

section \<open>Streams\<close>

text \<open>
  What the arrivals amount to for a reader that restarts after interruptions: the bytes, and the error
  that comes after them, if there is one.
\<close>

fun stream_bytes :: "arrival list \<Rightarrow> string" where
  "stream_bytes [] = []"
| "stream_bytes (Bytes bs # es) = bs @ stream_bytes es"
| "stream_bytes (Interrupt # es) = stream_bytes es"
| "stream_bytes (Failure e # es) = (if e = EINTR then stream_bytes es else [])"

fun stream_error :: "arrival list \<Rightarrow> errno option" where
  "stream_error [] = None"
| "stream_error (Bytes bs # es) = stream_error es"
| "stream_error (Interrupt # es) = stream_error es"
| "stream_error (Failure e # es) = (if e = EINTR then stream_error es else Some e)"

lemma sock_read_stream:
  "sock_read es n = (r, es') \<Longrightarrow> 0 < n \<Longrightarrow>
   (case r of
      Inl e \<Rightarrow> if e = EINTR then stream_bytes es = stream_bytes es' \<and> stream_error es = stream_error es'
        else stream_bytes es = [] \<and> stream_error es = Some e
    | Inr bs \<Rightarrow> if bs = [] then stream_bytes es = [] \<and> stream_error es = None \<and> es' = []
        else length bs \<le> n \<and> stream_bytes es = bs @ stream_bytes es' \<and> stream_error es = stream_error es')"
proof (induction es n rule: sock_read.induct)
  case (4 bs es n)
  show ?case
  proof (cases "bs = []")
    case False
    have "bs = take n bs @ drop n bs" by simp
    then show ?thesis using 4(2,3) False by (auto split: if_splits simp: take_all_iff)
  qed (use 4 in \<open>auto split: sum.splits if_splits\<close>)
qed auto

lemma sock_read_cases:
  assumes "sock_read es n = (r, es')" "0 < n"
  obtains "r = Inr []" "stream_bytes es = []" "stream_error es = None" "es' = []"
  | bs where "r = Inr bs" "bs \<noteq> []" "length bs \<le> n" "stream_bytes es = bs @ stream_bytes es'" "stream_error es = stream_error es'"
  | "r = Inl EINTR" "stream_bytes es = stream_bytes es'" "stream_error es = stream_error es'"
  | e where "r = Inl e" "e \<noteq> EINTR" "stream_bytes es = []" "stream_error es = Some e"
  using sock_read_stream[OF assms] by (auto split: sum.splits if_splits)

text \<open>One line, with its newline if it has one.\<close>

definition first_line :: "string \<Rightarrow> string" where
  "first_line d = takeWhile (\<lambda>c. c \<noteq> CHR 0x0A) d @ (if CHR 0x0A \<in> set d then [CHR 0x0A] else [])"

lemma first_line_Cons: "first_line (c # d) = c # (if c = CHR 0x0A then [] else first_line d)"
  by (simp add: first_line_def)

lemma first_line_Nil [simp]: "first_line [] = []"
  by (simp add: first_line_def)

section \<open>readn and writen transfer everything\<close>

lemma readn_loop_spec:
  assumes "readn_loop es n buf = (r, out, es')" "length buf \<le> n"
  shows "if n - length buf \<le> length (stream_bytes es)
    then r = int n \<and> out = buf @ take (n - length buf) (stream_bytes es) \<and>
      stream_bytes es' = drop (n - length buf) (stream_bytes es) \<and> stream_error es' = stream_error es
    else out = buf @ stream_bytes es \<and> r = (if stream_error es = None then int (length out) else -1)"
  using assms
proof (induction es n buf rule: readn_loop.induct)
  case (1 es n buf)
  show ?case
  proof (cases "length buf < n")
    case False
    then show ?thesis using "1.prems" by (simp add: readn_loop.simps)
  next
    case True
    obtain q es2 where q: "sock_read es (n - length buf) = (q, es2)" by fastforce
    moreover have "0 < n - length buf" using True by simp
    ultimately show ?thesis
    proof (cases rule: sock_read_cases)
      case 1
      then show ?thesis using True "1.prems" q by (auto simp: readn_loop.simps[of es])
    next
      case (2 bs)
      then have "readn_loop es2 n (buf @ bs) = (r, out, es')" "length (buf @ bs) \<le> n"
        using True "1.prems" q by (simp_all add: readn_loop.simps[of es])
      then show ?thesis using "1.IH"(2)[OF True q[symmetric]] 2 by (auto simp: split: if_splits)
    next
      case 3
      then show ?thesis using True "1.prems" q "1.IH"(1)[OF True q[symmetric]] by (simp add: readn_loop.simps[of es])
    next
      case (4 e)
      then show ?thesis using True "1.prems" q by (auto simp add: readn_loop.simps[of es])
    qed
  qed
qed

lemma writen_loop_spec:
  assumes "writen_loop ws done rest = (r, sent, ws')"
  shows "\<exists>k. sent = done @ take k rest \<and> (r = int (length (done @ rest)) \<and> length rest \<le> k \<or> r = -1 \<and> k < length rest)"
  using assms
proof (induction ws "done" rest rule: writen_loop.induct)
  case (1 ws "done" rest)
  show ?case
  proof (cases "rest = []")
    case True
    then show ?thesis using "1.prems" by (auto simp: writen_loop.simps)
  next
    case False
    obtain q ws2 where q: "sock_write ws rest = (q, ws2)" by fastforce
    show ?thesis
    proof (cases q)
      case (Inl e)
      show ?thesis
      proof (cases "e = EINTR")
        case True
        then show ?thesis using "1.prems" q Inl False "1.IH"(1)[OF False q[symmetric]] by (simp add: writen_loop.simps[of ws])
      next
        case ne: False
        then show ?thesis using "1.prems" q Inl False by (auto simp: writen_loop.simps[of ws] intro!: exI[of _ 0])
      qed
    next
      case (Inr k)
      show ?thesis
      proof (cases "k = 0")
        case True
        then show ?thesis using "1.prems" q Inr False by (auto simp: writen_loop.simps[of ws] intro!: exI[of _ 0])
      next
        case nk: False
        have "k \<le> length rest" using q Inr by (cases "(ws, rest)" rule: sock_write.cases) auto
        moreover obtain j where "sent = (done @ take k rest) @ take j (drop k rest) \<and>
          (r = int (length ((done @ take k rest) @ drop k rest)) \<and> length (drop k rest) \<le> j \<or> r = -1 \<and> j < length (drop k rest))"
          using "1.prems" q Inr False nk "1.IH"(2)[OF False q[symmetric] Inr nk] by (auto simp: writen_loop.simps[of ws])
        ultimately show ?thesis by (intro exI[of _ "k + j"]) (auto simp: take_add)
      qed
    qed
  qed
qed

text \<open>A peer that takes something at each call, with any interruptions.\<close>

fun willing :: "acceptance \<Rightarrow> bool" where
  "willing (Takes k) = (0 < k)"
| "willing Write_interrupt = True"
| "willing (Write_failure e) = (e = EINTR)"

lemma writen_loop_willing:
  "list_all willing ws \<Longrightarrow> fst (writen_loop ws done rest) = int (length (done @ rest))"
proof (induction ws "done" rest rule: writen_loop.induct)
  case (1 ws "done" rest)
  show ?case
  proof (cases "rest = []")
    case True
    then show ?thesis by (simp add: writen_loop.simps)
  next
    case False
    obtain q ws2 where q: "sock_write ws rest = (q, ws2)" by fastforce
    have w: "list_all willing ws2" "q = Inl EINTR \<or> (\<exists>k. q = Inr k \<and> 0 < k \<and> k \<le> length rest)"
      using q "1.prems" False by (cases "(ws, rest)" rule: sock_write.cases; auto)+
    from w(2) show ?thesis
    proof (elim disjE exE conjE)
      assume "q = Inl EINTR"
      then show ?thesis using q False "1.IH"(1)[OF False q[symmetric]] w(1) by (simp add: writen_loop.simps[of ws])
    next
      fix k assume "q = Inr k" "0 < k" "k \<le> length rest"
      then show ?thesis using q False "1.IH"(2)[OF False q[symmetric]] w(1) by (simp add: writen_loop.simps[of ws])
    qed
  qed
qed

section \<open>Lines\<close>

lemma take_push:
  "length buf \<le> m \<Longrightarrow> take m ((if length buf < m then buf @ [c] else buf) @ l) = take m (buf @ c # l)"
  by (auto simp: take_Cons')

lemma readLine_loop_spec:
  assumes "readLine_loop es n buf = (r, out, es')" "length buf \<le> n - 1"
  shows "if CHR 0x0A \<in> set (stream_bytes es) \<or> stream_error es = None
    then out = take (n - 1) (buf @ first_line (stream_bytes es)) \<and> r = int (length out) \<and>
      stream_bytes es' = drop (length (first_line (stream_bytes es))) (stream_bytes es) \<and> stream_error es' = stream_error es
    else r = -1"
  using assms
proof (induction es n buf rule: readLine_loop.induct)
  case (1 es n buf)
  obtain q es2 where q: "sock_read es 1 = (q, es2)" by fastforce
  then have q': "(q, es2) = sock_read es 1" by simp
  from q show ?case
  proof (cases rule: sock_read_cases)
    case (3 bs)
    then obtain c where c: "bs = [c]" by (cases bs) auto
    let ?buf = "if length buf < n - 1 then buf @ [c] else buf"
    have b: "length ?buf \<le> n - 1" "take (n - 1) (?buf @ l) = take (n - 1) (buf @ c # l)" for l
      using "1.prems"(2) take_push[of buf "n - 1"] by auto
    show ?thesis
    proof (cases "c = CHR 0x0A")
      case True
      then show ?thesis using "1.prems" q 3 c b(2)[of "[]"]
        by (auto simp: readLine_loop.simps[of es] Let_def first_line_Cons)
    next
      case False
      have "readLine_loop es2 n ?buf = (r, out, es')"
        using "1.prems" q 3 c False by (simp add: readLine_loop.simps[of es] Let_def)
      then show ?thesis
        using "1.IH"(2)[OF q' 3(1,2) refl refl] c False 3 b by (auto simp: first_line_Cons split: if_splits)
    qed
  next
    case 4
    then show ?thesis using "1.prems" q "1.IH"(1)[OF q' _ ] by (simp add: readLine_loop.simps[of es])
  qed (use "1.prems" q in \<open>auto simp: readLine_loop.simps[of es]\<close>)
qed

text \<open>The characters that a \<^verbatim>\<open>ReadLineBuf\<close> still has, and its invariant.\<close>

definition rl_pending :: "ReadLineBuf \<Rightarrow> string" where
  "rl_pending rlbuf = drop (nat (rl_next rlbuf)) (take (nat (rl_len rlbuf)) (rl_buf rlbuf))"

definition rl_ok :: "ReadLineBuf \<Rightarrow> bool" where
  "rl_ok rlbuf \<longleftrightarrow> 0 \<le> rl_next rlbuf \<and> rl_len rlbuf \<le> int (length (rl_buf rlbuf)) \<and> rl_len rlbuf \<le> int RL_MAX_BUF"

fun is_Bytes :: "arrival \<Rightarrow> bool" where
  "is_Bytes (Bytes _) = True"
| "is_Bytes _ = False"

lemma sock_read_Bytes: "list_all is_Bytes es \<Longrightarrow> sock_read es n = (r, es') \<Longrightarrow> list_all is_Bytes es' \<and> (\<exists>bs. r = Inr bs)"
  by (induction es n rule: sock_read.induct) (auto split: if_splits)

lemma stream_error_Bytes: "list_all is_Bytes es \<Longrightarrow> stream_error es = None"
  by (induction es rule: stream_error.induct) auto

lemma rl_fill_spec:
  assumes "rl_fill rlbuf es = (q, rlbuf', es')" "rl_ok rlbuf" "list_all is_Bytes es"
  shows "rl_ok rlbuf' \<and> list_all is_Bytes es' \<and>
    (case rl_pending rlbuf @ stream_bytes es of
       [] \<Rightarrow> q = Inr None \<and> rl_pending rlbuf' @ stream_bytes es' = []
     | c # d \<Rightarrow> q = Inr (Some c) \<and> rl_pending rlbuf' @ stream_bytes es' = d)"
proof (cases "rl_len rlbuf \<le> rl_next rlbuf")
  case True
  then have p: "rl_pending rlbuf = []" by (simp add: rl_pending_def)
  obtain bs es2 where r: "sock_read es RL_MAX_BUF = (Inr bs, es2)" "list_all is_Bytes es2"
    using sock_read_Bytes[OF assms(3)] by (metis surj_pair)
  from r(1) show ?thesis
  proof (cases rule: sock_read_cases)
    case 1
    show "0 < RL_MAX_BUF" by (simp add: RL_MAX_BUF_def)
  next
    case 2
    then show ?thesis using assms True r p by (auto simp: rl_fill_def rl_ok_def rl_pending_def)
  next
    case (3 bs')
    then obtain c d where "bs = c # d" by (cases bs) auto
    then show ?thesis using assms True r p 3 by (auto simp: rl_fill_def rl_ok_def rl_pending_def Let_def nat_add_distrib)
  qed simp_all
next
  case False
  then have "nat (rl_next rlbuf) < length (take (nat (rl_len rlbuf)) (rl_buf rlbuf))" using assms(2) by (auto simp: rl_ok_def)
  then have "rl_pending rlbuf = rl_buf rlbuf ! nat (rl_next rlbuf) # drop (Suc (nat (rl_next rlbuf))) (take (nat (rl_len rlbuf)) (rl_buf rlbuf))"
    unfolding rl_pending_def by (metis Cons_nth_drop_Suc nth_take length_take min_less_iff_conj)
  then show ?thesis using False assms by (auto simp: rl_fill_def rl_ok_def rl_pending_def nat_add_distrib)
qed

lemma readLineBuf_loop_spec:
  assumes "readLineBuf_loop rlbuf es n buf = (r, out, rlbuf', es')" "rl_ok rlbuf" "list_all is_Bytes es" "length buf \<le> n"
  shows "let d = rl_pending rlbuf @ stream_bytes es in
    out = take n (buf @ first_line d) \<and> r = int (length out) \<and>
    rl_pending rlbuf' @ stream_bytes es' = drop (length (first_line d)) d \<and> rl_ok rlbuf' \<and> list_all is_Bytes es'"
  using assms
proof (induction rlbuf es n buf rule: readLineBuf_loop.induct)
  case (1 rlbuf es n buf)
  obtain q rl2 es2 where q: "rl_fill rlbuf es = (q, rl2, es2)" by (metis prod_cases3)
  note f = rl_fill_spec[OF q "1.prems"(2,3)]
  show ?case
  proof (cases "rl_pending rlbuf @ stream_bytes es")
    case Nil
    then show ?thesis using f "1.prems" q by (auto simp: readLineBuf_loop.simps[of rlbuf] Let_def)
  next
    case (Cons c d)
    then have f': "q = Inr (Some c)" "rl_pending rl2 @ stream_bytes es2 = d" "rl_ok rl2" "list_all is_Bytes es2" using f by auto
    let ?buf = "if length buf < n then buf @ [c] else buf"
    have b: "length ?buf \<le> n" "take n (?buf @ l) = take n (buf @ c # l)" for l
      using "1.prems"(4) take_push[of buf n] by auto
    show ?thesis
    proof (cases "c = CHR 0x0A")
      case True
      then show ?thesis using "1.prems"(1,4) f' q Cons b(2)[of "[]"]
        by (auto simp: readLineBuf_loop.simps[of rlbuf] Let_def first_line_Cons)
    next
      case False
      have "readLineBuf_loop rl2 es2 n ?buf = (r, out, rlbuf', es')"
        using "1.prems"(1) f' q False by (simp add: readLineBuf_loop.simps[of rlbuf] Let_def)
      then show ?thesis
        using "1.IH"[OF q[symmetric] f'(1) refl refl refl False] False Cons f' b by (auto simp: first_line_Cons Let_def)
    qed
  qed
qed

section \<open>Sessions\<close>

text \<open>What a number of successive calls return and place into the buffer.\<close>

fun readLine_calls :: "nat \<Rightarrow> arrival list \<Rightarrow> nat \<Rightarrow> (int \<times> string) list" where
  "readLine_calls 0 es n = []"
| "readLine_calls (Suc k) es n = (let (r, out, es') = readLine es n in (r, out) # readLine_calls k es' n)"

fun readLineBuf_calls :: "nat \<Rightarrow> ReadLineBuf \<Rightarrow> arrival list \<Rightarrow> nat \<Rightarrow> (int \<times> string) list" where
  "readLineBuf_calls 0 rlbuf es n = []"
| "readLineBuf_calls (Suc k) rlbuf es n =
     (let (r, out, rlbuf', es') = readLineBuf rlbuf es n in (r, out) # readLineBuf_calls k rlbuf' es' n)"

fun nth_lines :: "nat \<Rightarrow> string \<Rightarrow> string list" where
  "nth_lines 0 d = []"
| "nth_lines (Suc k) d = first_line d # nth_lines k (drop (length (first_line d)) d)"

lemma readLine_calls_lines:
  "stream_error es = None \<Longrightarrow> 0 < n \<Longrightarrow>
   readLine_calls k es n = map (\<lambda>l. (int (length (take (n - 1) l)), take (n - 1) l)) (nth_lines k (stream_bytes es))"
proof (induction k arbitrary: es)
  case (Suc k)
  obtain r out es' where r: "readLine_loop es n [] = (r, out, es')" by (metis prod_cases3)
  then show ?case using Suc readLine_loop_spec[OF r] by (simp add: readLine_def)
qed simp

lemma readLineBuf_calls_lines:
  "list_all is_Bytes es \<Longrightarrow> rl_ok rlbuf \<Longrightarrow> 0 < n \<Longrightarrow>
   readLineBuf_calls k rlbuf es n =
     map (\<lambda>l. (int (length (take n l)), take n l)) (nth_lines k (rl_pending rlbuf @ stream_bytes es))"
proof (induction k arbitrary: es rlbuf)
  case (Suc k)
  obtain r out rl' es' where r: "readLineBuf_loop rlbuf es n [] = (r, out, rl', es')" by (metis prod_cases4)
  then show ?case using Suc readLineBuf_loop_spec[OF r] by (simp add: readLineBuf_def Let_def)
qed simp

section \<open>Properties\<close>

text \<open>
  C30: However the bytes arrive, with any interruptions, \<^verbatim>\<open>readn\<close> returns exactly the requested number of bytes
  of the stream and leaves the rest for later, when the stream has so many; otherwise it returns all of
  them at the end of file, and fails after an error.  \<^verbatim>\<open>writen\<close> returns the number of bytes with all of them
  sent, or fails with a proper beginning of them sent, and it does not fail when the peer takes something
  at each call.
\<close>

theorem readn_writen_correct:
  "(case readn es n of (r, out, es') \<Rightarrow>
      if n \<le> length (stream_bytes es)
      then r = int n \<and> out = take n (stream_bytes es) \<and> stream_bytes es' = drop n (stream_bytes es) \<and> stream_error es' = stream_error es
      else out = stream_bytes es \<and> r = (if stream_error es = None then int (length out) else -1)) \<and>
   (case writen ws buffer of (r, sent, ws') \<Rightarrow>
      (\<exists>k. sent = take k buffer \<and> (r = int (length buffer) \<and> length buffer \<le> k \<or> r = -1 \<and> k < length buffer)) \<and>
      (list_all willing ws \<longrightarrow> r = int (length buffer)))"
proof -
  obtain r out es' where r: "readn_loop es n [] = (r, out, es')" by (metis prod_cases3)
  obtain w sent ws' where w: "writen_loop ws [] buffer = (w, sent, ws')" by (metis prod_cases3)
  show ?thesis using readn_loop_spec[OF r] writen_loop_spec[OF w] writen_loop_willing[of ws "[]" buffer] r w
    by (simp add: readn_def writen_def)
qed

theorem readn_writen_correct_witness:
  "(case writen [Takes 2, Write_interrupt, Takes 1] ''hello'' of (r, sent, ws') \<Rightarrow> r = 5)"
  using readn_writen_correct[where ws = "[Takes 2, Write_interrupt, Takes 1]" and buffer = "''hello''"] by (auto split: prod.splits)

text \<open>
  C12: What any number of calls of \<^verbatim>\<open>readLine\<close> return is determined by the stream of bytes alone: the lines
  with their newlines, cut to one byte less than the size of the buffer, the last one possibly without a
  newline, then nothing.  On descriptors without interruptions and errors \<^verbatim>\<open>readLineBuf\<close>, which reads ten bytes at
  a time, returns the same with a buffer that is one byte smaller, because it does not terminate the string.
\<close>

theorem readLine_readLineBuf_equivalent:
  "0 < n \<Longrightarrow> stream_error es = None \<Longrightarrow>
   readLine_calls k es n = map (\<lambda>l. (int (length (take (n - 1) l)), take (n - 1) l)) (nth_lines k (stream_bytes es)) \<and>
   (list_all is_Bytes es' \<and> stream_bytes es' = stream_bytes es \<and> 1 < n \<longrightarrow>
      readLineBuf_calls k (readLineBufInit rlbuf) es' (n - 1) = readLine_calls k es n)"
  by (auto simp: readLine_calls_lines readLineBuf_calls_lines readLineBufInit_def rl_ok_def rl_pending_def RL_MAX_BUF_def)

theorem readLine_readLineBuf_equivalent_witness:
  "readLineBuf_calls 3 (readLineBufInit \<lparr>rl_buf = [], rl_next = 7, rl_len = 9\<rparr>) [Bytes ''ab'', Bytes [CHR 0x0A, CHR ''c'']] 2 =
   readLine_calls 3 [Bytes ''a'', Interrupt, Bytes [CHR ''b'', CHR 0x0A, CHR ''c'']] 3 \<and>
   readLine_calls 3 [Bytes ''a'', Interrupt, Bytes [CHR ''b'', CHR 0x0A, CHR ''c'']] 3 = [(2, ''ab''), (1, ''c''), (0, [])]"
  using readLine_readLineBuf_equivalent[of 3 "[Bytes ''a'', Interrupt, Bytes [CHR ''b'', CHR 0x0A, CHR ''c'']]" 3
      "[Bytes ''ab'', Bytes [CHR 0x0A, CHR ''c'']]" "\<lparr>rl_buf = [], rl_next = 7, rl_len = 9\<rparr>"]
  by (simp add: first_line_def eval_nat_numeral)

end
