(* ===== verification/Seqnum_Service.thy ===== *)
theory Seqnum_Service
  imports Socket_IO Num_Args
begin

text \<open>
  The sequence number services: the Internet servers and clients \<^verbatim>\<open>sockets/is_seqnum_sv.c\<close>, \<^verbatim>\<open>is_seqnum_cl.c\<close> and
  their second versions on top of \<^verbatim>\<open>inet_sockets.c\<close>, and the FIFO server \<^verbatim>\<open>pipes/fifo_seqnum_server.c\<close> with its
  client.  A server is run over the sequence of its clients.
\<close>

section \<open>Setting up sockets\<close>

text \<open>
  An address that \<^verbatim>\<open>getaddrinfo\<close> found, with what the calls on it give: the descriptor of the socket or -1,
  and whether the option, the binding and the connecting succeed.
\<close>

record address =
  a_socket :: int
  a_setsockopt :: bool
  a_bind :: bool
  a_connect :: bool
  a_addrlen :: nat

datatype walk = Found address | Exhausted | Gave_up

text \<open>The walks through the addresses, with the set of open descriptors.\<close>

fun connect_walk :: "address list \<Rightarrow> int set \<Rightarrow> walk \<times> int set" where
  "connect_walk [] fds = (Exhausted, fds)"
| "connect_walk (rp # rps) fds =
     (if a_socket rp = -1 then connect_walk rps fds
      else
        let fds = insert (a_socket rp) fds in
        if a_connect rp then (Found rp, fds)
        else connect_walk rps (fds - {a_socket rp}))"

fun bind_walk :: "bool \<Rightarrow> address list \<Rightarrow> int set \<Rightarrow> walk \<times> int set" where
  "bind_walk doListen [] fds = (Exhausted, fds)"
| "bind_walk doListen (rp # rps) fds =
     (if a_socket rp = -1 then bind_walk doListen rps fds
      else
        let fds = insert (a_socket rp) fds in
        if doListen \<and> \<not> a_setsockopt rp then (Gave_up, fds - {a_socket rp})
        else if a_bind rp then (Found rp, fds)
        else bind_walk doListen rps (fds - {a_socket rp}))"

definition inetConnect :: "address list option \<Rightarrow> int set \<Rightarrow> int \<times> int set" where
  "inetConnect result fds =
     (case result of
        None \<Rightarrow> (-1, fds)
      | Some rps \<Rightarrow>
          (case connect_walk rps fds of
             (Found rp, fds') \<Rightarrow> (a_socket rp, fds')
           | (_, fds') \<Rightarrow> (-1, fds')))"

text \<open>The descriptor, and the size of the address when it is set.\<close>

definition inetPassiveSocket :: "bool \<Rightarrow> bool \<Rightarrow> address list option \<Rightarrow> int set \<Rightarrow> int \<times> nat option \<times> int set" where
  "inetPassiveSocket doListen listen_ok result fds =
     (case result of
        None \<Rightarrow> (-1, None, fds)
      | Some rps \<Rightarrow>
          (case bind_walk doListen rps fds of
             (Gave_up, fds') \<Rightarrow> (-1, None, fds')
           | (Exhausted, fds') \<Rightarrow> (-1, None, fds')
           | (Found rp, fds') \<Rightarrow>
               if doListen \<and> \<not> listen_ok then (-1, None, fds')
               else (a_socket rp, Some (a_addrlen rp), fds')))"

definition inetListen :: "bool \<Rightarrow> address list option \<Rightarrow> int set \<Rightarrow> int \<times> nat option \<times> int set" where
  "inetListen listen_ok result fds = inetPassiveSocket True listen_ok result fds"

definition inetBind :: "address list option \<Rightarrow> int set \<Rightarrow> int \<times> nat option \<times> int set" where
  "inetBind result fds = inetPassiveSocket False True result fds"

section \<open>The Internet servers\<close>

definition INT_LEN :: nat where
  "INT_LEN = 30"

datatype connection = Accept_failed | Connection "arrival list" "acceptance list"

text \<open>One client: the bytes it is sent, and the next sequence number.\<close>

definition serve_client :: "32 word \<Rightarrow> arrival list \<Rightarrow> acceptance list \<Rightarrow> string \<times> 32 word" where
  "serve_client seqNum es ws =
     (let (r, reqLenStr, es') = readLine es INT_LEN in
      if r \<le> 0 then ([], seqNum)
      else
        let reqLen = atoi (buf_string reqLenStr) in
        if reqLen \<le> 0 then ([], seqNum)
        else
          let seqNumStr = take (INT_LEN - 1) (show_int (sint seqNum) @ [CHR 0x0A]) in
          ((case sock_write ws seqNumStr of (Inl e, _) \<Rightarrow> [] | (Inr k, _) \<Rightarrow> take k seqNumStr),
           seqNum + word_of_int reqLen))"

fun is_seqnum_loop :: "32 word \<Rightarrow> connection list \<Rightarrow> string list \<times> 32 word" where
  "is_seqnum_loop seqNum [] = ([], seqNum)"
| "is_seqnum_loop seqNum (Accept_failed # cs) = is_seqnum_loop seqNum cs"
| "is_seqnum_loop seqNum (Connection es ws # cs) =
     (let (reply, seqNum') = serve_client seqNum es ws; (replies, last) = is_seqnum_loop seqNum' cs
      in (reply # replies, last))"

text \<open>How a program ends: with a usage error, another error, or its result.\<close>

datatype 'a prog_end = Usage | Fatal string | Runs 'a

definition init_seqnum :: "string list \<Rightarrow> string + int" where
  "init_seqnum argv =
     (if 1 < length argv then getInt (Some (argv ! 1)) 0 (Some ''init-seq-num'') else Inr 0)"

definition is_seqnum_sv_main ::
  "string list \<Rightarrow> address list option \<Rightarrow> bool \<Rightarrow> connection list \<Rightarrow> (string list \<times> 32 word) prog_end" where
  "is_seqnum_sv_main argv result listen_ok cs =
     (if 1 < length argv \<and> argv ! 1 = ''--help'' then Usage
      else
        (case init_seqnum argv of
           Inl msg \<Rightarrow> Fatal msg
         | Inr n \<Rightarrow>
             (case result of
                None \<Rightarrow> Fatal ''getaddrinfo''
              | Some rps \<Rightarrow>
                  (case bind_walk True rps {} of
                     (Gave_up, _) \<Rightarrow> Fatal ''setsockopt''
                   | (Exhausted, _) \<Rightarrow> Fatal ''Could not bind socket to any address''
                   | (Found rp, _) \<Rightarrow> if \<not> listen_ok then Fatal ''listen'' else Runs (is_seqnum_loop (word_of_int n) cs)))))"

definition is_seqnum_v2_sv_main ::
  "string list \<Rightarrow> address list option \<Rightarrow> bool \<Rightarrow> connection list \<Rightarrow> (string list \<times> 32 word) prog_end" where
  "is_seqnum_v2_sv_main argv result listen_ok cs =
     (if 1 < length argv \<and> argv ! 1 = ''--help'' then Usage
      else
        (case init_seqnum argv of
           Inl msg \<Rightarrow> Fatal msg
         | Inr n \<Rightarrow>
             (case inetListen listen_ok result {} of (lfd, _) \<Rightarrow>
                if lfd = -1 then Fatal ''inetListen() failed'' else Runs (is_seqnum_loop (word_of_int n) cs))))"

section \<open>The Internet clients\<close>

text \<open>The exchange with the server: what is sent, and what is printed.\<close>

definition seqnum_exchange :: "string \<Rightarrow> acceptance list \<Rightarrow> arrival list \<Rightarrow> string \<times> string prog_end" where
  "seqnum_exchange reqLenStr ws es =
     (case sock_write ws reqLenStr of
        (Inl e, _) \<Rightarrow> ([], Fatal ''Partial/failed write (reqLenStr)'')
      | (Inr k, ws') \<Rightarrow>
          if k \<noteq> length reqLenStr then (take k reqLenStr, Fatal ''Partial/failed write (reqLenStr)'')
          else
            (case sock_write ws' [CHR 0x0A] of
               (Inl e, _) \<Rightarrow> (reqLenStr, Fatal ''Partial/failed write (newline)'')
             | (Inr j, _) \<Rightarrow>
                 if j \<noteq> 1 then (reqLenStr, Fatal ''Partial/failed write (newline)'')
                 else
                   let (numRead, seqNumStr, _) = readLine es INT_LEN in
                   (reqLenStr @ [CHR 0x0A],
                    if numRead = -1 then Fatal ''readLine''
                    else if numRead = 0 then Fatal ''Unexpected EOF from server''
                    else Runs (''Sequence number: '' @ buf_string seqNumStr))))"

definition is_seqnum_cl_main ::
  "string list \<Rightarrow> address list option \<Rightarrow> acceptance list \<Rightarrow> arrival list \<Rightarrow> string \<times> string prog_end" where
  "is_seqnum_cl_main argv result ws es =
     (if length argv < 2 \<or> argv ! 1 = ''--help'' then ([], Usage)
      else
        (case result of
           None \<Rightarrow> ([], Fatal ''getaddrinfo'')
         | Some rps \<Rightarrow>
             (case connect_walk rps {} of
                (Found rp, _) \<Rightarrow> seqnum_exchange (if 2 < length argv then argv ! 2 else ''1'') ws es
              | _ \<Rightarrow> ([], Fatal ''Could not connect socket to any address''))))"

definition is_seqnum_v2_cl_main ::
  "string list \<Rightarrow> address list option \<Rightarrow> acceptance list \<Rightarrow> arrival list \<Rightarrow> string \<times> string prog_end" where
  "is_seqnum_v2_cl_main argv result ws es =
     (if length argv < 2 \<or> argv ! 1 = ''--help'' then ([], Usage)
      else if fst (inetConnect result {}) = -1 then ([], Fatal ''inetConnect() failed'')
      else seqnum_exchange (if 2 < length argv then argv ! 2 else ''1'') ws es)"

section \<open>The FIFO server\<close>

record request =
  req_pid :: int
  req_seqLen :: int

text \<open>What a turn of the server meets: a failing or short read, or a request and whether the client's FIFO opens.\<close>

datatype fifo_event = Bad_read | Request request bool

text \<open>The responses, each with the name of the FIFO it goes to; the number is an \<^verbatim>\<open>int\<close>.\<close>

definition client_fifo :: "int \<Rightarrow> string" where
  "client_fifo pid = ''/tmp/seqnum_cl.'' @ show_int pid"

fun fifo_seqnum_loop :: "int \<Rightarrow> fifo_event list \<Rightarrow> (string \<times> int) list" where
  "fifo_seqnum_loop seqNum [] = []"
| "fifo_seqnum_loop seqNum (Bad_read # evs) = fifo_seqnum_loop seqNum evs"
| "fifo_seqnum_loop seqNum (Request req opens # evs) =
     (if \<not> opens then fifo_seqnum_loop seqNum evs
      else (client_fifo (req_pid req), seqNum) # fifo_seqnum_loop (to_int32 (seqNum + req_seqLen req)) evs)"

text \<open>The client's request, or the message it ends with.\<close>

definition fifo_client_request :: "string list \<Rightarrow> int \<Rightarrow> request prog_end" where
  "fifo_client_request argv pid =
     (if 1 < length argv \<and> argv ! 1 = ''--help'' then Usage
      else
        (case (if 1 < length argv then getInt (Some (argv ! 1)) GN_GT_0 (Some ''seq-len'') else Inr 1) of
           Inl msg \<Rightarrow> Fatal msg
         | Inr n \<Rightarrow> Runs \<lparr>req_pid = pid, req_seqLen = n\<rparr>))"

section \<open>The walks through the addresses\<close>

definition connects :: "address \<Rightarrow> bool" where
  "connects a \<longleftrightarrow> a_socket a \<noteq> -1 \<and> a_connect a"

definition binds :: "address \<Rightarrow> bool" where
  "binds a \<longleftrightarrow> a_socket a \<noteq> -1 \<and> a_bind a"

definition refuses_option :: "address \<Rightarrow> bool" where
  "refuses_option a \<longleftrightarrow> a_socket a \<noteq> -1 \<and> \<not> a_setsockopt a"

lemma connect_walk_find:
  "\<forall>a \<in> set rps. a_socket a \<notin> fds \<Longrightarrow>
   connect_walk rps fds = (case find connects rps of None \<Rightarrow> (Exhausted, fds) | Some a \<Rightarrow> (Found a, insert (a_socket a) fds))"
  by (induction rps) (auto simp: connects_def Let_def)

lemma bind_walk_find:
  "\<forall>a \<in> set rps. a_socket a \<notin> fds \<Longrightarrow>
   bind_walk doListen rps fds =
     (case find (\<lambda>a. binds a \<or> doListen \<and> refuses_option a) rps of
        None \<Rightarrow> (Exhausted, fds)
      | Some a \<Rightarrow> if doListen \<and> refuses_option a then (Gave_up, fds) else (Found a, insert (a_socket a) fds))"
  by (induction rps) (auto simp: binds_def refuses_option_def Let_def)

section \<open>Numbers granted\<close>

text \<open>The length that a client asks for, when the server accepts the request.\<close>

definition requested :: "connection \<Rightarrow> int option" where
  "requested c =
     (case c of
        Accept_failed \<Rightarrow> None
      | Connection es ws \<Rightarrow>
          (case readLine es INT_LEN of (r, s, es') \<Rightarrow>
             if 0 < r \<and> 0 < atoi (buf_string s) then Some (atoi (buf_string s)) else None))"

text \<open>The ranges that a server gives away: each start with its length.\<close>

fun grants :: "32 word \<Rightarrow> connection list \<Rightarrow> (32 word \<times> int) list" where
  "grants seqNum [] = []"
| "grants seqNum (c # cs) =
     (case requested c of None \<Rightarrow> grants seqNum cs | Some n \<Rightarrow> (seqNum, n) # grants (seqNum + word_of_int n) cs)"

definition numbers :: "32 word \<times> int \<Rightarrow> 32 word set" where
  "numbers g = (\<lambda>k. fst g + word_of_int k) ` {0..<snd g}"

lemma requested_pos: "requested c = Some n \<Longrightarrow> 0 < n"
  by (auto simp: requested_def split: connection.splits prod.splits if_splits)

lemma sint32_bounds: "INT_MIN \<le> sint (w :: 32 word)" "sint (w :: 32 word) \<le> INT_MAX"
  using sint_greater_eq[of w] sint_less[of w] by (simp_all add: INT_MIN_def INT_MAX_def)

lemma serve_client_requested:
  "serve_client seqNum es ws =
     (case requested (Connection es ws) of
        None \<Rightarrow> ([], seqNum)
      | Some n \<Rightarrow>
          ((case sock_write ws (show_int (sint seqNum) @ [CHR 0x0A]) of
              (Inl e, _) \<Rightarrow> []
            | (Inr k, _) \<Rightarrow> take k (show_int (sint seqNum) @ [CHR 0x0A])), seqNum + word_of_int n))"
proof -
  have "length (show_int (sint seqNum)) \<le> 11" using length_show_int sint32_bounds by blast
  then have "take (INT_LEN - 1) (show_int (sint seqNum) @ [CHR 0x0A]) = show_int (sint seqNum) @ [CHR 0x0A]"
    by (simp add: INT_LEN_def)
  then show ?thesis by (auto simp: serve_client_def requested_def Let_def split: prod.splits)
qed

lemma word_of_int_inj: "0 \<le> a \<Longrightarrow> a < 2 ^ 32 \<Longrightarrow> 0 \<le> b \<Longrightarrow> b < 2 ^ 32 \<Longrightarrow> (word_of_int a :: 32 word) = word_of_int b \<longleftrightarrow> a = b"
  by (simp add: word_of_int_eq_iff take_bit_int_eq_self)

lemma numbers_shift:
  "(\<lambda>k. (s + word_of_int n) + word_of_int k) ` {0..<t} = (\<lambda>k. s + word_of_int k) ` {n..<n + t}" for s :: "32 word"
proof -
  have "{n..<n + t} = (\<lambda>k. n + k) ` {0..<t}" by (simp add: add.commute)
  then show ?thesis by (simp add: image_image add.assoc del: image_add_atLeastLessThan)
qed

lemma grants_total_nonneg: "0 \<le> sum_list (map snd (grants s cs))"
  by (induction s cs rule: grants.induct) (auto split: option.splits dest: requested_pos intro!: add_nonneg_nonneg)

lemma grants_range:
  "g \<in> set (grants s cs) \<Longrightarrow> numbers g \<subseteq> (\<lambda>k. s + word_of_int k) ` {0..<sum_list (map snd (grants s cs))}"
proof (induction s cs arbitrary: g rule: grants.induct)
  case (2 s c cs)
  show ?case
  proof (cases "requested c")
    case None
    then show ?thesis using 2 by simp
  next
    case (Some n)
    let ?t = "sum_list (map snd (grants (s + word_of_int n) cs))"
    have n: "0 < n" "0 \<le> ?t" using requested_pos[OF Some] grants_total_nonneg by auto
    have "numbers g \<subseteq> (\<lambda>k. s + word_of_int k) ` {0..<n} \<or> numbers g \<subseteq> (\<lambda>k. s + word_of_int k) ` {n..<n + ?t}"
      using 2(2)[OF Some, of g] 2(3) Some unfolding numbers_shift by (auto simp: numbers_def)
    moreover have "{0..<n} \<subseteq> {0..<n + ?t}" "{n..<n + ?t} \<subseteq> {0..<n + ?t}" using n by auto
    ultimately show ?thesis using Some by (auto dest!: subsetD)
  qed
qed simp

lemma grants_disjoint:
  "sum_list (map snd (grants s cs)) \<le> 2 ^ 32 \<Longrightarrow> sorted_wrt (\<lambda>g h. numbers g \<inter> numbers h = {}) (grants s cs)"
proof (induction s cs rule: grants.induct)
  case (2 s c cs)
  show ?case
  proof (cases "requested c")
    case None
    then show ?thesis using 2 by simp
  next
    case (Some n)
    let ?t = "sum_list (map snd (grants (s + word_of_int n) cs))"
    have n: "0 < n" "n + ?t \<le> 2 ^ 32" using requested_pos[OF Some] 2(3) Some by auto
    have "(\<lambda>k. s + word_of_int k) ` {0..<n} \<inter> (\<lambda>k. s + word_of_int k) ` {n..<n + ?t} = {}"
      using n by (auto simp: word_of_int_inj)
    then have "numbers (s, n) \<inter> numbers g = {}" if "g \<in> set (grants (s + word_of_int n) cs)" for g
      using grants_range[OF that] unfolding numbers_shift numbers_def[of "(s, n)"] fst_conv snd_conv by blast
    then show ?thesis using 2(2)[OF Some] n Some by simp
  qed
qed simp

text \<open>A number and a newline, however they arrive, are read as one line.\<close>

lemma readLine_number:
  assumes "stream_bytes es = show_int n @ [CHR 0x0A]" "stream_error es = None" "INT_MIN \<le> n" "n \<le> INT_MAX"
  shows "\<exists>es'. readLine es INT_LEN = (int (length (show_int n) + 1), show_int n @ [CHR 0x0A], es')"
proof -
  obtain r out es' where r: "readLine_loop es INT_LEN [] = (r, out, es')" by (metis prod_cases3)
  have "takeWhile (\<lambda>c. c \<noteq> CHR 0x0A) (show_int n @ [CHR 0x0A]) = show_int n"
    by (subst takeWhile_append2) (auto intro: ccontr)
  then have "first_line (show_int n @ [CHR 0x0A]) = show_int n @ [CHR 0x0A]" by (simp add: first_line_def)
  moreover have "length (show_int n) \<le> 11" using assms(3,4) by (rule length_show_int)
  ultimately show ?thesis using readLine_loop_spec[OF r] r assms(1,2) by (simp add: readLine_def INT_LEN_def)
qed

lemma buf_string_number: "buf_string (show_int n @ [CHR 0x0A]) = show_int n @ [CHR 0x0A]"
  unfolding buf_string_def by (rule takeWhile_eq_all_conv[THEN iffD2]) (auto intro: ccontr)

lemma requested_number:
  assumes "stream_bytes es = show_int n @ [CHR 0x0A]" "stream_error es = None" "0 < n" "n \<le> INT_MAX"
  shows "requested (Connection es ws) = Some n"
proof -
  have n: "INT_MIN \<le> n" using assms(3) by (simp add: INT_MIN_def)
  have "\<not> is_digit_of 10 CHR 0x0A" by (simp add: is_digit_of_def digit_val_def isdigit_def isupper_def islower_def)
  then have "atoi (show_int n @ [CHR 0x0A]) = n" using n assms(4) by (simp add: atoi_show_int_rest)
  then show ?thesis using readLine_number[OF assms(1,2) n assms(4)] assms(3) by (auto simp: requested_def buf_string_number)
qed

lemma exchange_number:
  assumes "stream_bytes es = show_int n @ [CHR 0x0A]" "stream_error es = None" "INT_MIN \<le> n" "n \<le> INT_MAX"
  shows "snd (seqnum_exchange q [] es) = Runs (''Sequence number: '' @ show_int n @ [CHR 0x0A])"
  using readLine_number[OF assms] by (auto simp: seqnum_exchange_def buf_string_number)

text \<open>Connections whose short reply goes out with one call, as it does on a fresh connection.\<close>

fun fresh_connection :: "connection \<Rightarrow> bool" where
  "fresh_connection Accept_failed = True"
| "fresh_connection (Connection es ws) = (ws = [])"

lemma replies_grants:
  "list_all fresh_connection cs \<Longrightarrow>
   filter (\<lambda>r. r \<noteq> []) (fst (is_seqnum_loop s cs)) = map (\<lambda>g. show_int (sint (fst g)) @ [CHR 0x0A]) (grants s cs)"
  by (induction s cs rule: is_seqnum_loop.induct)
     (auto simp: serve_client_requested requested_def[of Accept_failed] split: option.splits prod.splits)

text \<open>The FIFO server: the numbers are the sums of the lengths so far, as long as these are positive.\<close>

fun served_lengths :: "fifo_event list \<Rightarrow> int list" where
  "served_lengths [] = []"
| "served_lengths (Request req opens # evs) = (if opens then [req_seqLen req] else []) @ served_lengths evs"
| "served_lengths (Bad_read # evs) = served_lengths evs"

lemma fifo_numbers:
  assumes "0 \<le> s" "list_all (\<lambda>n. 0 < n) (served_lengths evs)" "s + sum_list (served_lengths evs) \<le> INT_MAX"
  shows "map snd (fifo_seqnum_loop s evs) =
    map (\<lambda>i. s + sum_list (take i (served_lengths evs))) [0..<length (served_lengths evs)]"
  using assms
proof (induction s evs rule: fifo_seqnum_loop.induct)
  case (3 s req opens evs)
  show ?case
  proof (cases opens)
    case True
    have "0 \<le> sum_list (served_lengths evs)"
      using 3(4) True by (intro sum_list_nonneg) (auto simp: list_all_iff)
    then have "to_int32 (s + req_seqLen req) = s + req_seqLen req"
      using 3(3,4,5) True by (intro to_int32_id) (auto simp: INT_MIN_def)
    then show ?thesis using 3(2)[of] 3(3-5) True
      by (simp add: upt_conv_Cons map_Suc_upt[symmetric] o_def add.assoc del: upt_Suc)
  next
    case False
    then show ?thesis using 3 by simp
  qed
qed simp_all

text \<open>The server does not check the lengths: after a negative one it gives numbers away again.\<close>

lemma fifo_negative_length:
  "map snd (fifo_seqnum_loop 0 (map (\<lambda>n. Request \<lparr>req_pid = 1, req_seqLen = n\<rparr> True) [5, -5, 5])) = [0, 5, 0]"
  by code_simp

section \<open>Properties\<close>

text \<open>
  C10: The Internet servers never give a number to two clients before all 32-bit numbers are used up:
  whatever the clients send, in whatever portions, and however many connections fail, the ranges granted
  are pairwise disjoint and start at the numbers sent back, in order.
\<close>

theorem seqnum_ranges_disjoint:
  assumes "list_all fresh_connection cs" "sum_list (map snd (grants s cs)) \<le> 2 ^ 32"
  shows "filter (\<lambda>r. r \<noteq> []) (fst (is_seqnum_loop s cs)) = map (\<lambda>g. show_int (sint (fst g)) @ [CHR 0x0A]) (grants s cs) \<and>
    sorted_wrt (\<lambda>g h. numbers g \<inter> numbers h = {}) (grants s cs)"
  using replies_grants[OF assms(1)] grants_disjoint[OF assms(2)] by simp

theorem seqnum_ranges_disjoint_witness:
  "(let cs = [Connection [Bytes ''5'', Interrupt, Bytes [CHR 0x0A]] [], Accept_failed,
              Connection [Bytes [CHR ''x'', CHR 0x0A]] [], Connection [Bytes [CHR ''2'', CHR 0x0A]] []] in
     grants 0xFFFFFFFE cs = [(0xFFFFFFFE, 5), (3, 2)] \<and>
     sorted_wrt (\<lambda>g h. numbers g \<inter> numbers h = {}) (grants 0xFFFFFFFE cs))"
proof -
  let ?cs = "[Connection [Bytes ''5'', Interrupt, Bytes [CHR 0x0A]] [], Accept_failed,
              Connection [Bytes [CHR ''x'', CHR 0x0A]] [], Connection [Bytes [CHR ''2'', CHR 0x0A]] []]"
  have g: "grants 0xFFFFFFFE ?cs = [(0xFFFFFFFE, 5), (3, 2)]" by code_simp
  then have "sum_list (map snd (grants 0xFFFFFFFE ?cs)) \<le> 2 ^ 32" by (simp del: grants.simps)
  moreover have "list_all fresh_connection ?cs" by simp
  ultimately have "sorted_wrt (\<lambda>g h. numbers g \<inter> numbers h = {}) (grants 0xFFFFFFFE ?cs)"
    using seqnum_ranges_disjoint[of ?cs] by blast
  then show ?thesis unfolding Let_def using g by blast
qed

text \<open>
  A client and a server together: when the server gets what the client sends and the client what the
  server sends, in any portions and with any interruptions, the client prints the server's current number,
  and the server goes on after the requested length.
\<close>

theorem seqnum_end_to_end:
  assumes "0 < n" "n \<le> INT_MAX"
    and "stream_bytes to_server = fst (seqnum_exchange (show_int n) [] to_client)" "stream_error to_server = None"
    and "stream_bytes to_client = fst (serve_client s to_server [])" "stream_error to_client = None"
  shows "snd (seqnum_exchange (show_int n) [] to_client) = Runs (''Sequence number: '' @ show_int (sint s) @ [CHR 0x0A]) \<and>
    snd (serve_client s to_server []) = s + word_of_int n"
proof -
  have "stream_bytes to_server = show_int n @ [CHR 0x0A]"
    using assms(3) by (simp add: seqnum_exchange_def split: prod.splits)
  then have r: "requested (Connection to_server []) = Some n" using assms by (intro requested_number)
  then have "stream_bytes to_client = show_int (sint s) @ [CHR 0x0A]" using assms(5) by (simp add: serve_client_requested)
  then show ?thesis using r exchange_number[OF _ assms(6) sint32_bounds] by (simp add: serve_client_requested)
qed

theorem seqnum_end_to_end_witness:
  "(let to_client = [Bytes ''4'', Interrupt, Bytes [CHR ''1'', CHR 0x0A]]; to_server = [Interrupt, Bytes ''3'', Bytes [CHR 0x0A]] in
     snd (seqnum_exchange (show_int 3) [] to_client) = Runs (''Sequence number: '' @ show_int (sint (41 :: 32 word)) @ [CHR 0x0A]))"
proof -
  have s: "show_int 3 = ''3''" by code_simp
  let ?c = "[Bytes ''4'', Interrupt, Bytes [CHR ''1'', CHR 0x0A]]" and ?s = "[Interrupt, Bytes ''3'', Bytes [CHR 0x0A]]"
  have "stream_bytes ?s = fst (seqnum_exchange (show_int 3) [] ?c)" "stream_bytes ?c = fst (serve_client 41 ?s [])"
    by code_simp+
  then show ?thesis using seqnum_end_to_end[of 3 ?s ?c 41] by (simp add: INT_MAX_def)
qed

text \<open>
  \<^verbatim>\<open>inetConnect\<close> and \<^verbatim>\<open>inetBind\<close> return the socket of the first address that can be used, and no other socket
  stays open; \<^verbatim>\<open>inetListen\<close> as well, unless the option is refused before that address, and except that the
  socket stays open when listening fails.
\<close>

theorem inet_sockets_correct:
  assumes "\<forall>a \<in> set rps. a_socket a \<notin> fds"
  shows "inetConnect (Some rps) fds =
      (case find connects rps of None \<Rightarrow> (-1, fds) | Some a \<Rightarrow> (a_socket a, insert (a_socket a) fds)) \<and>
    inetBind (Some rps) fds =
      (case find binds rps of None \<Rightarrow> (-1, None, fds) | Some a \<Rightarrow> (a_socket a, Some (a_addrlen a), insert (a_socket a) fds)) \<and>
    inetListen listen_ok (Some rps) fds =
      (case find (\<lambda>a. binds a \<or> refuses_option a) rps of
         None \<Rightarrow> (-1, None, fds)
       | Some a \<Rightarrow>
           if refuses_option a then (-1, None, fds)
           else if listen_ok then (a_socket a, Some (a_addrlen a), insert (a_socket a) fds)
           else (-1, None, insert (a_socket a) fds))"
  using connect_walk_find[OF assms] bind_walk_find[OF assms]
  by (auto simp: inetConnect_def inetBind_def inetListen_def inetPassiveSocket_def split: option.splits)

theorem inet_sockets_correct_witness:
  "inetConnect (Some [\<lparr>a_socket = 3, a_setsockopt = True, a_bind = True, a_connect = False, a_addrlen = 28\<rparr>,
     \<lparr>a_socket = 4, a_setsockopt = True, a_bind = True, a_connect = True, a_addrlen = 16\<rparr>]) {0} = (4, {4, 0})"
  using inet_sockets_correct[of "[\<lparr>a_socket = 3, a_setsockopt = True, a_bind = True, a_connect = False, a_addrlen = 28\<rparr>,
     \<lparr>a_socket = 4, a_setsockopt = True, a_bind = True, a_connect = True, a_addrlen = 16\<rparr>]" "{0}"]
  by (simp add: connects_def)

end
