(* ===== verification/Case_Services.thy ===== *)
theory Case_Services
  imports C_Strings Interleave
begin

text \<open>
  The programs that convert text to upper case for each other: \<^verbatim>\<open>pipes/change_case.c\<close>, a parent and a child
  connected by two pipes, as interleaved processes, and the datagram servers and clients
  \<^verbatim>\<open>sockets/ud_ucase_sv.c\<close>, \<^verbatim>\<open>ud_ucase_cl.c\<close>, \<^verbatim>\<open>i6d_ucase_sv.c\<close> and \<^verbatim>\<open>i6d_ucase_cl.c\<close>.
\<close>

section \<open>Two pipes\<close>

definition CC_BUF_SIZE :: nat where
  "CC_BUF_SIZE = 100"

text \<open>
  What the calls of \<^verbatim>\<open>read\<close> on standard input still give, the contents of the pipes and whether their write
  ends are open, and what is on standard output.
\<close>

record cc_state =
  cc_stdin :: "string list"
  outbound :: string
  outbound_open :: bool
  inbound :: string
  inbound_open :: bool
  cc_stdout :: string

datatype cc_pc =
    P_read | P_write string | P_fetch | P_print string | P_exit
  | C_read | C_write string | C_exit

text \<open>A read on an empty pipe blocks while its write end is open; the writes fit into the pipes.\<close>

fun cc_next :: "cc_pc \<Rightarrow> cc_state \<Rightarrow> (cc_pc \<times> cc_state) option" where
  "cc_next P_read s =
     (case cc_stdin s of
        [] \<Rightarrow> Some (P_exit, s\<lparr>outbound_open := False\<rparr>)
      | b # bs \<Rightarrow> Some (P_write b, s\<lparr>cc_stdin := bs\<rparr>))"
| "cc_next (P_write b) s = Some (P_fetch, s\<lparr>outbound := outbound s @ b\<rparr>)"
| "cc_next P_fetch s =
     (if inbound s = [] then (if inbound_open s then None else Some (P_read, s))
      else Some (P_print (take CC_BUF_SIZE (inbound s)), s\<lparr>inbound := drop CC_BUF_SIZE (inbound s)\<rparr>))"
| "cc_next (P_print b) s = Some (P_read, s\<lparr>cc_stdout := cc_stdout s @ b\<rparr>)"
| "cc_next P_exit s = None"
| "cc_next C_read s =
     (if outbound s = [] then (if outbound_open s then None else Some (C_exit, s\<lparr>inbound_open := False\<rparr>))
      else Some (C_write (map toupper (take CC_BUF_SIZE (outbound s))), s\<lparr>outbound := drop CC_BUF_SIZE (outbound s)\<rparr>))"
| "cc_next (C_write b) s = Some (C_read, s\<lparr>inbound := inbound s @ b\<rparr>)"
| "cc_next C_exit s = None"

definition change_case_main :: "string list \<Rightarrow> cc_state \<times> cc_pc list" where
  "change_case_main blocks =
     (\<lparr>cc_stdin = blocks, outbound = [], outbound_open = True, inbound = [], inbound_open = True, cc_stdout = []\<rparr>,
      [P_read, C_read])"

section \<open>Datagrams\<close>

definition UC_BUF_SIZE :: nat where
  "UC_BUF_SIZE = 10"

text \<open>
  The loop of the servers over the datagrams that arrive, each with the address of its sender; a datagram
  that does not fit is cut.
\<close>

fun ud_ucase_sv :: "('addr \<times> string) list \<Rightarrow> ('addr \<times> string) list" where
  "ud_ucase_sv [] = []"
| "ud_ucase_sv ((claddr, msg) # dgs) =
     (let buf = take UC_BUF_SIZE msg in (claddr, map toupper buf) # ud_ucase_sv dgs)"

text \<open>
  The loops of the clients over their messages, with the responses that arrive and the number of the next
  response: what is printed, or no value when one waits forever.
\<close>

fun ud_ucase_cl_loop :: "nat \<Rightarrow> string list \<Rightarrow> string list \<Rightarrow> string option" where
  "ud_ucase_cl_loop j [] resps = Some []"
| "ud_ucase_cl_loop j (msg # msgs) [] = None"
| "ud_ucase_cl_loop j (msg # msgs) (resp # resps) =
     map_option (\<lambda>rest. ''Response '' @ show_nat j @ '': '' @ buf_string (take UC_BUF_SIZE resp) @ [CHR 0x0A] @ rest)
       (ud_ucase_cl_loop (j + 1) msgs resps)"

datatype cl_result = Cl_usage | Cl_fatal | Cl_waits | Cl_prints string

definition ud_ucase_cl_main :: "string list \<Rightarrow> string list \<Rightarrow> cl_result" where
  "ud_ucase_cl_main argv resps =
     (if length argv < 2 \<or> argv ! 1 = ''--help'' then Cl_usage
      else case ud_ucase_cl_loop 1 (drop 1 argv) resps of None \<Rightarrow> Cl_waits | Some out \<Rightarrow> Cl_prints out)"

text \<open>The address is converted by \<^verbatim>\<open>inet_pton\<close>, a parameter that says which texts are addresses.\<close>

definition i6d_ucase_cl_main :: "(string \<Rightarrow> bool) \<Rightarrow> string list \<Rightarrow> string list \<Rightarrow> cl_result" where
  "i6d_ucase_cl_main inet_pton argv resps =
     (if length argv < 3 \<or> argv ! 1 = ''--help'' then Cl_usage
      else if \<not> inet_pton (argv ! 1) then Cl_fatal
      else case ud_ucase_cl_loop 1 (drop 2 argv) resps of None \<Rightarrow> Cl_waits | Some out \<Rightarrow> Cl_prints out)"

section \<open>The pipes carry one block at a time\<close>

text \<open>What is under way from the parent through the child and back.\<close>

fun under_way :: "cc_pc \<Rightarrow> cc_pc \<Rightarrow> cc_state \<Rightarrow> string option" where
  "under_way P_read C_read s = (if outbound s = [] \<and> inbound s = [] \<and> outbound_open s \<and> inbound_open s then Some [] else None)"
| "under_way (P_write b) C_read s =
     (if outbound s = [] \<and> inbound s = [] \<and> outbound_open s \<and> inbound_open s \<and> b \<noteq> [] \<and> length b \<le> CC_BUF_SIZE
      then Some (map toupper b) else None)"
| "under_way P_fetch C_read s =
     (if outbound_open s \<and> inbound_open s \<and> length (outbound s) \<le> CC_BUF_SIZE \<and> length (inbound s) \<le> CC_BUF_SIZE \<and>
        ((outbound s = []) \<noteq> (inbound s = []))
      then Some (inbound s @ map toupper (outbound s)) else None)"
| "under_way P_fetch (C_write b) s =
     (if outbound s = [] \<and> inbound s = [] \<and> outbound_open s \<and> inbound_open s \<and> b \<noteq> [] \<and> length b \<le> CC_BUF_SIZE then Some b else None)"
| "under_way (P_print b) C_read s = (if outbound s = [] \<and> inbound s = [] \<and> outbound_open s \<and> inbound_open s then Some b else None)"
| "under_way P_exit C_read s = (if outbound s = [] \<and> \<not> outbound_open s \<and> cc_stdin s = [] then Some [] else None)"
| "under_way P_exit C_exit s = (if outbound s = [] \<and> \<not> outbound_open s \<and> cc_stdin s = [] then Some [] else None)"
| "under_way _ _ s = None"

definition cc_inv :: "string \<Rightarrow> cc_state \<Rightarrow> cc_pc list \<Rightarrow> bool" where
  "cc_inv input s ps \<longleftrightarrow> length ps = 2 \<and> list_all (\<lambda>b. b \<noteq> [] \<and> length b \<le> CC_BUF_SIZE) (cc_stdin s) \<and>
     (case under_way (ps ! 0) (ps ! 1) s of
        None \<Rightarrow> False
      | Some w \<Rightarrow> map toupper input = cc_stdout s @ w @ map toupper (concat (cc_stdin s)))"

fun cc_place :: "cc_pc \<Rightarrow> nat" where
  "cc_place P_read = 1"
| "cc_place (P_write _) = 6"
| "cc_place P_fetch = 3"
| "cc_place (P_print _) = 2"
| "cc_place P_exit = 0"
| "cc_place C_read = 1"
| "cc_place (C_write b) = 2"
| "cc_place C_exit = 0"

definition cc_rank :: "cc_state \<Rightarrow> cc_pc list \<Rightarrow> nat" where
  "cc_rank s ps = 6 * length (cc_stdin s) + (if outbound s = [] then 0 else 2) + sum_list (map cc_place ps)"

lemma two_processes: "length ps = 2 \<Longrightarrow> i < length ps \<Longrightarrow> \<exists>p c. ps = [p, c] \<and> (i = 0 \<or> i = 1)"
  by (cases ps; cases "tl ps") auto

lemma cc_step:
  assumes inv: "cc_inv input s ps" and i: "i < length ps" and nx: "cc_next (ps ! i) s = Some (p, t)"
  shows "cc_inv input t (ps[i := p]) \<and> cc_rank t (ps[i := p]) < cc_rank s ps"
proof -
  obtain q c where ps: "ps = [q, c]" and ii: "i = 0 \<or> i = 1" using two_processes[of ps i] inv i by (auto simp: cc_inv_def)
  show ?thesis
    using inv nx ii unfolding ps
    by (cases "(q, c, s)" rule: under_way.cases)
       (auto simp: cc_inv_def cc_rank_def split: if_splits list.splits)
qed

interpretation pipes: ending_protocol cc_next "cc_inv input" cc_rank for input
  by unfold_locales (use cc_step in blast)+

lemma cc_final:
  assumes inv: "cc_inv input s ps" and st: "stuck cc_next (s, ps)"
  shows "cc_stdout s = map toupper input \<and> ps = [P_exit, C_exit]"
proof -
  obtain q c where ps: "ps = [q, c]" using two_processes[of ps 0] inv by (auto simp: cc_inv_def)
  show ?thesis using inv st unfolding ps
    by (cases "(q, c, s)" rule: under_way.cases) (auto simp: cc_inv_def stuck_def split: if_splits list.splits)
qed

lemma change_case_ends:
  assumes "list_all (\<lambda>b. b \<noteq> [] \<and> length b \<le> CC_BUF_SIZE) blocks"
  shows "always_ends cc_next (change_case_main blocks)
    (\<lambda>(s, ps). cc_stdout s = map toupper (concat blocks) \<and> ps = [P_exit, C_exit])"
  unfolding change_case_main_def
proof (rule pipes.always_endsI)
  show "cc_inv (concat blocks) \<lparr>cc_stdin = blocks, outbound = [], outbound_open = True, inbound = [], inbound_open = True, cc_stdout = []\<rparr>
     [P_read, C_read]"
    using assms by (simp add: cc_inv_def)
qed (use cc_final in simp)

section \<open>Responses\<close>

text \<open>What the server sends to one address.\<close>

definition responses_to :: "'addr \<Rightarrow> ('addr \<times> string) list \<Rightarrow> string list" where
  "responses_to a dgs = map snd (filter (\<lambda>d. fst d = a) (ud_ucase_sv dgs))"

lemma responses_to_messages:
  "responses_to a dgs = map (\<lambda>d. map toupper (take UC_BUF_SIZE (snd d))) (filter (\<lambda>d. fst d = a) dgs)"
  by (induction dgs rule: ud_ucase_sv.induct) (auto simp: responses_to_def Let_def)

fun response_lines :: "nat \<Rightarrow> string list \<Rightarrow> string" where
  "response_lines j [] = []"
| "response_lines j (m # ms) =
     ''Response '' @ show_nat j @ '': '' @ map toupper (take UC_BUF_SIZE m) @ [CHR 0x0A] @ response_lines (j + 1) ms"

lemma toupper_null: "toupper c = CHR 0x00 \<Longrightarrow> c = CHR 0x00"
  by (auto split: if_splits simp: toupper_def islower_def char_of_eq_iff take_bit_nat_eq_self)

lemma buf_string_upper: "CHR 0x00 \<notin> set m \<Longrightarrow> buf_string (map toupper (take n m)) = map toupper (take n m)"
  unfolding buf_string_def takeWhile_eq_all_conv by (auto dest: in_set_takeD toupper_null)

lemma cl_loop_responses:
  "list_all (\<lambda>m. CHR 0x00 \<notin> set m) msgs \<Longrightarrow>
   ud_ucase_cl_loop j msgs (map (\<lambda>m. map toupper (take UC_BUF_SIZE m)) msgs @ rest) = Some (response_lines j msgs)"
  by (induction msgs arbitrary: j) (auto simp: buf_string_upper)

section \<open>Properties\<close>



text \<open>
  When the datagrams of a client reach the server in order, mixed in any way with those of other
  clients, and the responses reach the client, both clients print each message in upper case, cut to ten
  characters.
\<close>

theorem ucase_clients_served:
  assumes "map snd (filter (\<lambda>d. fst d = a) dgs) = msgs" "msgs \<noteq> []" "list_all (\<lambda>m. CHR 0x00 \<notin> set m) msgs"
  shows "(hd msgs \<noteq> ''--help'' \<longrightarrow>
      ud_ucase_cl_main (prog # msgs) (responses_to a dgs) = Cl_prints (response_lines 1 msgs)) \<and>
    (host \<noteq> ''--help'' \<and> inet_pton host \<longrightarrow>
      i6d_ucase_cl_main inet_pton (prog # host # msgs) (responses_to a dgs) = Cl_prints (response_lines 1 msgs))"
proof -
  have "responses_to a dgs = map (\<lambda>m. map toupper (take UC_BUF_SIZE m)) msgs"
    unfolding responses_to_messages assms(1)[symmetric] by (simp add: o_def)
  then have "ud_ucase_cl_loop 1 msgs (responses_to a dgs) = Some (response_lines 1 msgs)"
    using cl_loop_responses[OF assms(3), of 1 "[]"] by simp
  then show ?thesis using assms(2) by (cases msgs) (simp_all add: ud_ucase_cl_main_def i6d_ucase_cl_main_def)
qed

theorem ucase_clients_served_witness:
  "ud_ucase_cl_main [''cl'', ''long message'', ''x''] (responses_to (1 :: nat) [(1, ''long message''), (2, ''y''), (1, ''x'')]) =
     Cl_prints (response_lines 1 [''long message'', ''x''])"
  by (rule ucase_clients_served[THEN conjunct1, THEN mp]) simp_all

end
