(* ===== verification/Msg_File.thy ===== *)
theory Msg_File
  imports C_Strings
begin

text \<open>
  The file server on System V message queues, \<^verbatim>\<open>tlpi-dist/svmsg/svmsg_file_server.c\<close>, and its client
  \<^verbatim>\<open>svmsg_file_client.c\<close>.  Requests and responses are messages; a queue delivers them in order.
\<close>

section \<open>Messages\<close>

definition RESP_MSG_SIZE :: nat where
  "RESP_MSG_SIZE = 8192"

definition PATHNAME_MAX :: nat where
  "PATHNAME_MAX = 4096"

record requestMsg =
  rq_clientId :: int
  rq_pathname :: string

datatype resp_type = RESP_MT_FAILURE | RESP_MT_DATA | RESP_MT_END

record responseMsg =
  rs_mtype :: resp_type
  rs_data :: string

section \<open>The server\<close>

text \<open>
  What the calls of \<^verbatim>\<open>read\<close> on a requested file give until one gives no bytes or fails, or that the file
  cannot be opened.
\<close>

type_synonym file_reads = "string list option"

text \<open>
  Sending the contents, with the number of calls of \<^verbatim>\<open>msgsnd\<close> so far and which of them succeed: the messages
  sent, and the number of calls.
\<close>

fun send_contents :: "(nat \<Rightarrow> bool) \<Rightarrow> nat \<Rightarrow> string list \<Rightarrow> responseMsg list \<times> nat" where
  "send_contents snd_ok k [] = ([], k)"
| "send_contents snd_ok k (b # bs) =
     (if snd_ok k then
        (let (ms, k') = send_contents snd_ok (k + 1) bs in (\<lparr>rs_mtype = RESP_MT_DATA, rs_data = b\<rparr> # ms, k'))
      else ([], k + 1))"

definition COULD_NOT_OPEN :: string where
  "COULD_NOT_OPEN = ''Couldn'' @ [CHR 0x27] @ ''t open''"

definition serveRequest :: "(nat \<Rightarrow> bool) \<Rightarrow> file_reads \<Rightarrow> responseMsg list" where
  "serveRequest snd_ok reads =
     (case reads of
        None \<Rightarrow> if snd_ok 0 then [\<lparr>rs_mtype = RESP_MT_FAILURE, rs_data = COULD_NOT_OPEN @ [CHR 0x00]\<rparr>] else []
      | Some bs \<Rightarrow>
          (let (ms, k) = send_contents snd_ok 0 bs in
           if snd_ok k then ms @ [\<lparr>rs_mtype = RESP_MT_END, rs_data = []\<rparr>] else ms))"

text \<open>
  The main loop: what each \<^verbatim>\<open>msgrcv\<close> gives, and for a request whether \<^verbatim>\<open>fork\<close> succeeds and what the child will
  find.  The result is what the children send, each to the queue of its client, and whether the loop has
  ended, which removes the server's queue.
\<close>

datatype server_event = Rcv_eintr | Rcv_error | Rcv_request requestMsg bool "nat \<Rightarrow> bool"

fun file_server_loop :: "(string \<Rightarrow> file_reads) \<Rightarrow> server_event list \<Rightarrow> (int \<times> responseMsg list) list \<times> bool" where
  "file_server_loop fs [] = ([], False)"
| "file_server_loop fs (Rcv_eintr # evs) = file_server_loop fs evs"
| "file_server_loop fs (Rcv_error # evs) = ([], True)"
| "file_server_loop fs (Rcv_request req forked snd_ok # evs) =
     (if \<not> forked then ([], True)
      else
        let (sent, ended) = file_server_loop fs evs in
        ((rq_clientId req, serveRequest snd_ok (fs (rq_pathname req))) # sent, ended))"

section \<open>The client\<close>

datatype client_result =
    Client_usage | Path_too_long | Client_waits | Client_failure string | Client_success string

text \<open>The loop over the data messages, with the totals so far: the number of bytes and of messages.\<close>

fun receive_data :: "nat \<Rightarrow> nat \<Rightarrow> resp_type \<Rightarrow> responseMsg list \<Rightarrow> (nat \<times> nat) option" where
  "receive_data totBytes numMsgs mtype msgs =
     (if mtype = RESP_MT_DATA then
        (case msgs of
           [] \<Rightarrow> None
         | m # ms \<Rightarrow> receive_data (totBytes + length (rs_data m)) (numMsgs + 1) (rs_mtype m) ms)
      else Some (totBytes, numMsgs))"

declare receive_data.simps [simp del]

definition file_client_request :: "string list \<Rightarrow> int \<Rightarrow> client_result + requestMsg" where
  "file_client_request argv clientId =
     (if length argv \<noteq> 2 \<or> argv ! 1 = ''--help'' then Inl Client_usage
      else if PATHNAME_MAX - 1 < length (argv ! 1) then Inl Path_too_long
      else Inr \<lparr>rq_clientId = clientId, rq_pathname = take (PATHNAME_MAX - 1) (argv ! 1)\<rparr>)"

definition file_client_main :: "string list \<Rightarrow> int \<Rightarrow> responseMsg list \<Rightarrow> client_result" where
  "file_client_main argv clientId msgs =
     (case file_client_request argv clientId of
        Inl r \<Rightarrow> r
      | Inr req \<Rightarrow>
          (case msgs of
             [] \<Rightarrow> Client_waits
           | m # ms \<Rightarrow>
               if rs_mtype m = RESP_MT_FAILURE then Client_failure (buf_string (rs_data m) @ [CHR 0x0A])
               else
                 (case receive_data (length (rs_data m)) 1 (rs_mtype m) ms of
                    None \<Rightarrow> Client_waits
                  | Some (totBytes, numMsgs) \<Rightarrow>
                      Client_success (''Received '' @ show_nat totBytes @ '' bytes ('' @ show_nat numMsgs @ '' messages)'' @ [CHR 0x0A]))))"

section \<open>Transfers\<close>

text \<open>Reads of a regular file of a given content.\<close>

function file_blocks :: "string \<Rightarrow> string list" where
  "file_blocks c = (if c = [] then [] else take RESP_MSG_SIZE c # file_blocks (drop RESP_MSG_SIZE c))"
  by pat_completeness auto
termination
  by (relation "measure length") (auto simp: RESP_MSG_SIZE_def)

declare file_blocks.simps [simp del]

lemma file_blocks_length:
  "concat (file_blocks c) = c" "length (file_blocks c) = (length c + (RESP_MSG_SIZE - 1)) div RESP_MSG_SIZE"
proof (induction c rule: file_blocks.induct)
  case (1 c)
  have s: "0 < RESP_MSG_SIZE" by (simp add: RESP_MSG_SIZE_def)
  show "concat (file_blocks c) = c" using 1(1) by (subst file_blocks.simps) simp
  show "length (file_blocks c) = (length c + (RESP_MSG_SIZE - 1)) div RESP_MSG_SIZE"
  proof (cases "c = []")
    case True
    then show ?thesis using s by (simp add: file_blocks.simps)
  next
    case False
    then have l: "length (file_blocks c) = Suc ((length c - RESP_MSG_SIZE + (RESP_MSG_SIZE - 1)) div RESP_MSG_SIZE)"
      using 1(2) by (subst file_blocks.simps) simp
    show ?thesis
    proof (cases "length c \<le> RESP_MSG_SIZE")
      case True
      then have "length c + (RESP_MSG_SIZE - 1) = RESP_MSG_SIZE + (length c - 1)" "length c - 1 < RESP_MSG_SIZE"
        using False s by (cases c; simp)+
      then have "(length c + (RESP_MSG_SIZE - 1)) div RESP_MSG_SIZE = 1" using s by (simp only: div_add_self1) simp
      then show ?thesis using l s True by simp
    next
      case F: False
      then have "length c + (RESP_MSG_SIZE - 1) = RESP_MSG_SIZE + (length c - RESP_MSG_SIZE + (RESP_MSG_SIZE - 1))" by simp
      then have "(length c + (RESP_MSG_SIZE - 1)) div RESP_MSG_SIZE =
          Suc ((length c - RESP_MSG_SIZE + (RESP_MSG_SIZE - 1)) div RESP_MSG_SIZE)"
        using s by (simp only: div_add_self1)
      then show ?thesis using l by simp
    qed
  qed
qed

lemma send_contents_all:
  "(\<And>i. snd_ok i) \<Longrightarrow> send_contents snd_ok k bs = (map (\<lambda>b. \<lparr>rs_mtype = RESP_MT_DATA, rs_data = b\<rparr>) bs, k + length bs)"
  by (induction bs arbitrary: k) simp_all

lemma receive_data_blocks:
  "receive_data t n RESP_MT_DATA (map (\<lambda>b. \<lparr>rs_mtype = RESP_MT_DATA, rs_data = b\<rparr>) bs @ \<lparr>rs_mtype = RESP_MT_END, rs_data = []\<rparr> # ms) =
   Some (t + length (concat bs), n + length bs + 1)"
  by (induction bs arbitrary: t n) (subst receive_data.simps; simp add: receive_data.simps[of _ _ RESP_MT_END])+

lemma client_receives:
  assumes "length path < PATHNAME_MAX" "path \<noteq> ''--help''" "\<And>i. snd_ok i"
  shows "file_client_main [prog, path] cid (serveRequest snd_ok (Some bs)) =
    Client_success (''Received '' @ show_nat (length (concat bs)) @ '' bytes ('' @ show_nat (length bs + 1) @ '' messages)'' @ [CHR 0x0A])"
proof -
  have r: "file_client_request [prog, path] cid = Inr \<lparr>rq_clientId = cid, rq_pathname = path\<rparr>"
    using assms(1,2) by (simp add: file_client_request_def)
  have e: "receive_data t n RESP_MT_END ms = Some (t, n)" for t n ms by (simp add: receive_data.simps)
  show ?thesis
    using assms(3) receive_data_blocks[of "length (hd bs)" 1 "tl bs" "[]"]
    by (cases bs) (simp_all add: file_client_main_def r serveRequest_def send_contents_all e)
qed

section \<open>Property\<close>

text \<open>
  A client that requests a file which the server can read learns the exact number of its bytes and of
  the messages, one for each block of 8192 bytes and one for the end, also for an empty file, and prints
  the server's message when the file cannot be opened.
\<close>

theorem file_transfer_counts:
  assumes "length path < PATHNAME_MAX" "path \<noteq> ''--help''" "fs path = Some (file_blocks c)"
  shows "file_server_loop fs [Rcv_eintr, Rcv_request \<lparr>rq_clientId = cid, rq_pathname = path\<rparr> True (\<lambda>_. True)] =
      ([(cid, serveRequest (\<lambda>_. True) (fs path))], False) \<and>
    file_client_main [prog, path] cid (serveRequest (\<lambda>_. True) (fs path)) =
      Client_success (''Received '' @ show_nat (length c) @ '' bytes ('' @
        show_nat ((length c + 8191) div 8192 + 1) @ '' messages)'' @ [CHR 0x0A]) \<and>
    file_client_main [prog, path] cid (serveRequest (\<lambda>_. True) None) = Client_failure (COULD_NOT_OPEN @ [CHR 0x0A])"
proof -
  have "file_client_request [prog, path] cid = Inr \<lparr>rq_clientId = cid, rq_pathname = path\<rparr>"
    using assms(1,2) by (simp add: file_client_request_def)
  then have "file_client_main [prog, path] cid (serveRequest (\<lambda>_. True) None) = Client_failure (COULD_NOT_OPEN @ [CHR 0x0A])"
    by (simp add: file_client_main_def serveRequest_def buf_string_def COULD_NOT_OPEN_def)
  moreover have "length (file_blocks c) = (length c + 8191) div 8192"
    using file_blocks_length(2)[of c] by (simp add: RESP_MSG_SIZE_def)
  ultimately show ?thesis
    using client_receives[OF assms(1,2), of "\<lambda>_. True" prog cid "file_blocks c"] assms(3) file_blocks_length(1)[of c] by simp
qed

theorem file_transfer_counts_witness:
  "file_client_main [''client'', ''/etc/motd''] 3 (serveRequest (\<lambda>_. True) (Some (file_blocks ''hello''))) =
     Client_success (''Received '' @ show_nat (length ''hello'') @ '' bytes ('' @ show_nat ((length ''hello'' + 8191) div 8192 + 1) @ '' messages)'' @ [CHR 0x0A])"
  using file_transfer_counts[of "''/etc/motd''" "\<lambda>_. Some (file_blocks ''hello'')" "''hello''" 3 "''client''"]
  by (simp only: PATHNAME_MAX_def) simp

end
