(* ===== verification/Ns_Capable.thy ===== *)
theory Ns_Capable
  imports C_Strings
begin

text \<open>
  \<^verbatim>\<open>tlpi-dist/namespaces/ns_capable.c\<close>: whether a process may have capabilities in a namespace.  A user
  namespace is given by its identity, the user that owns it and its parent; the program sees namespaces
  through descriptors, and the model keeps its table of descriptors.  The program is run in the initial user
  namespace, so that every parent is in its scope.  The capability sets that \<^verbatim>\<open>libcap\<close> prints are not read here:
  the verdict says whether the process has all capabilities, those of its sets, or none.
\<close>

section \<open>Namespaces and descriptors\<close>

text \<open>The device and inode number of a namespace, its owner, and its parent except for the initial one.\<close>

datatype userns = Initial "nat \<times> nat" nat | Nested "nat \<times> nat" nat userns

fun ns_ident :: "userns \<Rightarrow> nat \<times> nat" where
  "ns_ident (Initial i o1) = i"
| "ns_ident (Nested i o1 p) = i"

fun ns_owner :: "userns \<Rightarrow> nat" where
  "ns_owner (Initial i o1) = o1"
| "ns_owner (Nested i o1 p) = o1"

text \<open>A file below \<^verbatim>\<open>/proc/PID/ns\<close>: a user namespace, or another namespace with the user namespace that owns it.\<close>

datatype ns_file = User_ns userns | Other_ns userns

text \<open>What a descriptor refers to, by its number.\<close>

type_synonym fd_table = "ns_file option list"

fun lowest_free :: "fd_table \<Rightarrow> nat" where
  "lowest_free [] = 0"
| "lowest_free (None # ds) = 0"
| "lowest_free (Some f # ds) = Suc (lowest_free ds)"

definition open_fd :: "fd_table \<Rightarrow> ns_file \<Rightarrow> nat \<times> fd_table" where
  "open_fd ds f =
     (let n = lowest_free ds in (n, if n < length ds then ds[n := Some f] else ds @ [Some f]))"

text \<open>\<^verbatim>\<open>close\<close>, which fails on a descriptor that is not open; the program then ends.\<close>

definition close_fd :: "fd_table \<Rightarrow> nat \<Rightarrow> fd_table option" where
  "close_fd ds n = (if n < length ds \<and> ds ! n \<noteq> None then Some (ds[n := None]) else None)"

fun userns_of_file :: "ns_file \<Rightarrow> userns" where
  "userns_of_file (User_ns u) = u"
| "userns_of_file (Other_ns u) = u"

definition ns_equal :: "userns \<Rightarrow> userns \<Rightarrow> bool" where
  "ns_equal u v \<longleftrightarrow> fst (ns_ident u) = fst (ns_ident v) \<and> snd (ns_ident u) = snd (ns_ident v)"

section \<open>The effective user ID of a process\<close>

text \<open>
  The lines of \<^verbatim>\<open>/proc/PID/status\<close>, as \<^verbatim>\<open>fgets\<close> returns them; the first one that begins with \<^verbatim>\<open>Uid:\<close> is read by \<^verbatim>\<open>sscanf\<close>, which skips the
  first number and returns the second.  No value when there is no such line, or when it has no two
  numbers and the program returns an indeterminate value.
\<close>

fun euid_of_process :: "string list \<Rightarrow> nat option" where
  "euid_of_process [] = None"
| "euid_of_process (line # ls) =
     (if strncmp_eq line ''Uid:'' (length ''Uid:'') then
        (case scan_number (drop 4 line) of
           None \<Rightarrow> None
         | Some (ruid, rest) \<Rightarrow>
             (case scan_number rest of
                None \<Rightarrow> None
              | Some (uid, rest') \<Rightarrow> Some (nat (to_uint32 (to_int32 uid)))))
      else euid_of_process ls)"

section \<open>The walk to the ancestors\<close>

text \<open>
  From the descriptor of a namespace on the way from the target up, with the namespace it refers to: the
  descriptor that is returned, -1 for none, and the table of descriptors.  No value when a \<^verbatim>\<open>close\<close> fails.
\<close>

definition close_unless :: "nat \<Rightarrow> nat \<Rightarrow> fd_table \<Rightarrow> fd_table option" where
  "close_unless target child ds = (if child \<noteq> target then close_fd ds child else Some ds)"

fun ancestor_walk :: "userns \<Rightarrow> nat \<Rightarrow> nat \<Rightarrow> userns \<Rightarrow> fd_table \<Rightarrow> (int \<times> fd_table) option" where
  "ancestor_walk source target child (Initial i o1) ds =
     (case close_unless target child ds of None \<Rightarrow> None | Some ds' \<Rightarrow> Some (-1, ds'))"
| "ancestor_walk source target child (Nested i o1 p) ds =
     (let (parent, ds1) = open_fd ds (User_ns p) in
      if ns_equal p source then
        (case close_fd ds1 parent of None \<Rightarrow> None | Some ds2 \<Rightarrow> Some (int child, ds2))
      else
        (case close_unless target child ds1 of
           None \<Rightarrow> None
         | Some ds2 \<Rightarrow> ancestor_walk source target parent p ds2))"

definition fd_userns :: "fd_table \<Rightarrow> nat \<Rightarrow> userns option" where
  "fd_userns ds n = (if n < length ds then map_option userns_of_file (ds ! n) else None)"

definition is_ancestor_userns :: "nat \<Rightarrow> nat \<Rightarrow> fd_table \<Rightarrow> (int \<times> fd_table) option" where
  "is_ancestor_userns source_userns target_userns ds =
     (case (fd_userns ds source_userns, fd_userns ds target_userns) of
        (Some s, Some t) \<Rightarrow> ancestor_walk s target_userns target_userns t ds
      | _ \<Rightarrow> None)"

section \<open>The program\<close>

text \<open>The system: the user namespaces of the processes, the namespace files, and the status files.\<close>

record ns_system =
  proc_userns :: "int \<Rightarrow> userns option"
  ns_files :: "string \<Rightarrow> ns_file option"
  status_lines :: "int \<Rightarrow> string list"

definition userns_from_pid :: "ns_system \<Rightarrow> int \<Rightarrow> fd_table \<Rightarrow> (nat \<times> fd_table) option" where
  "userns_from_pid sys pid ds = map_option (\<lambda>u. open_fd ds (User_ns u)) (proc_userns sys pid)"

definition get_userns_from :: "ns_system \<Rightarrow> string \<Rightarrow> fd_table \<Rightarrow> (nat \<times> fd_table) option" where
  "get_userns_from sys arg ds =
     (if arg \<noteq> [] \<and> isdigit (hd arg) then userns_from_pid sys (atoi arg) ds
      else
        (case ns_files sys arg of
           None \<Rightarrow> None
         | Some f \<Rightarrow>
             let (ns, ds1) = open_fd ds f in
             (case f of
                User_ns u \<Rightarrow> Some (ns, ds1)
              | Other_ns u \<Rightarrow>
                  let (userns, ds2) = open_fd ds1 (User_ns u) in
                  map_option (\<lambda>ds3. (userns, ds3)) (close_fd ds2 ns))))"

text \<open>What the program says, and its table of descriptors before it ends; no value when it fails.\<close>

datatype verdict = In_target | Not_ancestor | Ancestor_owner | Ancestor_other

definition ns_capable_main :: "ns_system \<Rightarrow> string list \<Rightarrow> fd_table \<Rightarrow> (verdict \<times> fd_table) option" where
  "ns_capable_main sys argv ds0 =
     (if length argv \<noteq> 3 then None
      else
        let pid = atoi (argv ! 1) in
        (case userns_from_pid sys pid ds0 of None \<Rightarrow> None | Some (source, ds1) \<Rightarrow>
        (case get_userns_from sys (argv ! 2) ds1 of None \<Rightarrow> None | Some (target, ds2) \<Rightarrow>
        (case (fd_userns ds2 source, fd_userns ds2 target) of
           (Some s, Some t) \<Rightarrow>
             (case (if ns_equal s t then Some (In_target, ds2)
                    else
                      (case is_ancestor_userns source target ds2 of
                         None \<Rightarrow> None
                       | Some (child, ds3) \<Rightarrow>
                           if child = -1 then Some (Not_ancestor, ds3)
                           else
                             (case (euid_of_process (status_lines sys pid), fd_userns ds3 (nat child)) of
                                (Some euid, Some c) \<Rightarrow>
                                  map_option (\<lambda>ds4. (if euid = ns_owner c then Ancestor_owner else Ancestor_other, ds4))
                                    (close_unless target (nat child) ds3)
                              | _ \<Rightarrow> None))) of
                None \<Rightarrow> None
              | Some (v, ds5) \<Rightarrow>
                  (case close_fd ds5 target of
                     None \<Rightarrow> None
                   | Some ds6 \<Rightarrow> map_option (\<lambda>ds7. (v, ds7)) (close_fd ds6 source)))
         | _ \<Rightarrow> None))))"

section \<open>The rule of the kernel\<close>

text \<open>
  The documented rule, for a process with an effective user ID and a set of capabilities in its own
  namespace: it has its capabilities there, all capabilities in a child namespace that its user owns,
  and whatever it has in a namespace also in the descendants.
\<close>

fun ns_capable :: "userns \<Rightarrow> nat \<Rightarrow> 'cap set \<Rightarrow> userns \<Rightarrow> 'cap \<Rightarrow> bool" where
  "ns_capable s euid caps (Initial i o1) c = (ns_ident s = i \<and> c \<in> caps)"
| "ns_capable s euid caps (Nested i o1 p) c =
     (if ns_ident s = i then c \<in> caps
      else ns_ident p = ns_ident s \<and> o1 = euid \<or> ns_capable s euid caps p c)"

fun verdict_allows :: "verdict \<Rightarrow> 'cap set \<Rightarrow> 'cap \<Rightarrow> bool" where
  "verdict_allows In_target caps c = (c \<in> caps)"
| "verdict_allows Not_ancestor caps c = False"
| "verdict_allows Ancestor_owner caps c = True"
| "verdict_allows Ancestor_other caps c = (c \<in> caps)"

section \<open>Descriptor tables\<close>

definition look :: "fd_table \<Rightarrow> nat \<Rightarrow> ns_file option" where
  "look ds n = (if n < length ds then ds ! n else None)"

lemma lowest_free_le: "lowest_free ds \<le> length ds"
  by (induction ds rule: lowest_free.induct) auto

lemma look_lowest: "look ds (lowest_free ds) = None"
  by (induction ds rule: lowest_free.induct) (auto simp: look_def)

lemma open_fd_look:
  obtains n ds' where "open_fd ds f = (n, ds')" "look ds n = None" "look ds' = (look ds)(n := Some f)"
proof
  show "open_fd ds f = (lowest_free ds, snd (open_fd ds f))" by (simp add: open_fd_def Let_def)
  show "look (snd (open_fd ds f)) = (look ds)(lowest_free ds := Some f)"
    using lowest_free_le[of ds] by (auto simp: open_fd_def Let_def look_def nth_append fun_eq_iff)
qed (rule look_lowest)

lemma close_fd_look:
  assumes "look ds n \<noteq> None"
  obtains ds' where "close_fd ds n = Some ds'" "look ds' = (look ds)(n := None)"
  using assms by (auto simp: close_fd_def look_def fun_eq_iff split: if_splits)

lemma fd_userns_look: "fd_userns ds n = map_option userns_of_file (look ds n)"
  by (simp add: fd_userns_def look_def)

section \<open>The walk finds the child below the source\<close>

fun child_below :: "userns \<Rightarrow> userns \<Rightarrow> userns option" where
  "child_below s (Initial i o1) = None"
| "child_below s (Nested i o1 p) = (if ns_ident p = ns_ident s then Some (Nested i o1 p) else child_below s p)"

lemma ns_equal_ident: "ns_equal u v \<longleftrightarrow> ns_ident u = ns_ident v"
  by (auto simp: ns_equal_def prod_eq_iff)

definition without :: "nat \<Rightarrow> nat \<Rightarrow> (nat \<Rightarrow> ns_file option) \<Rightarrow> nat \<Rightarrow> ns_file option" where
  "without target child l = (if child = target then l else l(child := None))"

lemma close_unless_without:
  assumes "look ds child \<noteq> None"
  obtains ds' where "close_unless target child ds = Some ds'" "look ds' = without target child (look ds)"
proof (cases "child = target")
  case True
  then show ?thesis using that[of ds] by (simp add: close_unless_def without_def)
next
  case False
  obtain ds' where "close_fd ds child = Some ds'" "look ds' = (look ds)(child := None)" using assms by (rule close_fd_look)
  then show ?thesis using False that[of ds'] by (simp add: close_unless_def without_def)
qed

lemma ancestor_walk_look:
  assumes "look ds child = Some f" "userns_of_file f = u" "look ds target \<noteq> None"
  shows "\<exists>r ds'. ancestor_walk s target child u ds = Some (r, ds') \<and>
    (case child_below s u of
       None \<Rightarrow> r = -1 \<and> look ds' = without target child (look ds)
     | Some c \<Rightarrow> 0 \<le> r \<and> (\<exists>g. userns_of_file g = c \<and> look ds' = (without target child (look ds))(nat r := Some g)) \<and>
         (nat r = target \<and> child = target \<or> nat r \<noteq> target \<and> without target child (look ds) (nat r) = None))"
  using assms
proof (induction u arbitrary: child ds f)
  case (Initial i o1)
  then have "look ds child \<noteq> None" by simp
  then obtain ds' where "close_unless target child ds = Some ds'" "look ds' = without target child (look ds)"
    by (rule close_unless_without)
  then show ?case by simp
next
  case (Nested i o1 p)
  obtain n ds1 where o: "open_fd ds (User_ns p) = (n, ds1)" "look ds n = None" "look ds1 = (look ds)(n := Some (User_ns p))"
    by (rule open_fd_look)
  have n: "n \<noteq> child" "n \<noteq> target" using o(2) Nested.prems by auto
  show ?case
  proof (cases "ns_ident p = ns_ident s")
    case True
    have "look ds1 n \<noteq> None" using o(3) by simp
    then obtain ds2 where c: "close_fd ds1 n = Some ds2" "look ds2 = (look ds1)(n := None)" by (rule close_fd_look)
    have "look ds2 = (without target child (look ds))(child := Some f)" using c(2) o Nested.prems n by (auto simp: without_def)
    then show ?thesis using True o(1) c(1) Nested.prems by (auto simp: ns_equal_ident without_def)
  next
    case False
    have "look ds1 child \<noteq> None" using o(3) n Nested.prems by simp
    then obtain ds2 where c: "close_unless target child ds1 = Some ds2" "look ds2 = without target child (look ds1)"
      by (rule close_unless_without)
    have l: "look ds2 n = Some (User_ns p)" "look ds2 target \<noteq> None"
      using c(2) o(3) n Nested.prems by (auto simp: without_def)
    have "without target n (look ds2) = without target child (look ds)"
      using c(2) o(2,3) n by (auto simp: without_def)
    with Nested.IH[OF l(1) _ l(2)] obtain r ds' where "ancestor_walk s target n p ds2 = Some (r, ds')"
      "case child_below s p of
         None \<Rightarrow> r = -1 \<and> look ds' = without target child (look ds)
       | Some c \<Rightarrow> 0 \<le> r \<and> (\<exists>g. userns_of_file g = c \<and> look ds' = (without target child (look ds))(nat r := Some g)) \<and>
           nat r \<noteq> target \<and> without target child (look ds) (nat r) = None"
      using n by (auto split: option.splits)
    then show ?thesis using False o(1) c(1) by (simp add: ns_equal_ident split: option.splits)
  qed
qed

section \<open>The whole program\<close>

definition target_of :: "ns_system \<Rightarrow> string \<Rightarrow> userns option" where
  "target_of sys arg =
     (if arg \<noteq> [] \<and> isdigit (hd arg) then proc_userns sys (atoi arg) else map_option userns_of_file (ns_files sys arg))"

lemma userns_from_pid_look:
  assumes "proc_userns sys pid = Some u"
  obtains n ds' where "userns_from_pid sys pid ds = Some (n, ds')" "look ds n = None" "look ds' = (look ds)(n := Some (User_ns u))"
proof -
  obtain n ds' where "open_fd ds (User_ns u) = (n, ds')" "look ds n = None" "look ds' = (look ds)(n := Some (User_ns u))"
    by (rule open_fd_look)
  then show ?thesis using that assms by (simp add: userns_from_pid_def)
qed

lemma get_userns_from_look:
  assumes "target_of sys arg = Some u"
  obtains n ds' f where "get_userns_from sys arg ds = Some (n, ds')" "look ds n = None"
    "look ds' = (look ds)(n := Some f)" "userns_of_file f = u"
proof (cases "arg \<noteq> [] \<and> isdigit (hd arg)")
  case True
  then have "proc_userns sys (atoi arg) = Some u" using assms by (simp add: target_of_def)
  then obtain n ds' where "userns_from_pid sys (atoi arg) ds = Some (n, ds')" "look ds n = None"
    "look ds' = (look ds)(n := Some (User_ns u))" by (rule userns_from_pid_look)
  then show ?thesis using that True by (simp add: get_userns_from_def)
next
  case False
  then obtain f where f: "ns_files sys arg = Some f" "userns_of_file f = u" using assms by (auto simp: target_of_def split: if_splits)
  obtain n ds1 where o: "open_fd ds f = (n, ds1)" "look ds n = None" "look ds1 = (look ds)(n := Some f)" by (rule open_fd_look)
  show ?thesis
  proof (cases f)
    case (User_ns v)
    then show ?thesis using that o f False by (auto simp: get_userns_from_def)
  next
    case (Other_ns v)
    obtain m ds2 where m: "open_fd ds1 (User_ns v) = (m, ds2)" "look ds1 m = None" "look ds2 = (look ds1)(m := Some (User_ns v))"
      by (rule open_fd_look)
    have mn: "m \<noteq> n" using m(2) o(3) by auto
    then have "look ds2 n \<noteq> None" using m(3) o(3) by simp
    then obtain ds3 where c: "close_fd ds2 n = Some ds3" "look ds3 = (look ds2)(n := None)" by (rule close_fd_look)
    have "look ds3 = (look ds)(m := Some (User_ns v))" "look ds m = None" using c(2) m o mn by auto
    then show ?thesis using that[of m ds3 "User_ns v"] c(1) m(1) o(1) f False Other_ns by (simp add: get_userns_from_def)
  qed
qed

text \<open>The verdict, from the two namespaces and the effective user ID.\<close>

definition verdict_for :: "userns \<Rightarrow> nat \<Rightarrow> userns \<Rightarrow> verdict" where
  "verdict_for s euid t =
     (if ns_ident s = ns_ident t then In_target
      else case child_below s t of
        None \<Rightarrow> Not_ancestor
      | Some c \<Rightarrow> if euid = ns_owner c then Ancestor_owner else Ancestor_other)"

lemma capable_child_below:
  "ns_ident s \<noteq> ns_ident t \<Longrightarrow> ns_capable s euid caps t c \<longleftrightarrow>
     (case child_below s t of None \<Rightarrow> False | Some u \<Rightarrow> euid = ns_owner u \<or> c \<in> caps)"
proof (induction t)
  case (Nested i o1 p)
  show ?case
  proof (cases "ns_ident p = ns_ident s")
    case True
    then have "ns_capable s euid caps p c = (c \<in> caps \<or> (ns_capable s euid caps p c \<and> c \<in> caps))" by (cases p) auto
    then show ?thesis using True Nested.prems by (cases p) auto
  next
    case False
    then show ?thesis using Nested by simp
  qed
qed simp

lemma verdict_rule: "verdict_allows (verdict_for s euid t) caps c \<longleftrightarrow> ns_capable s euid caps t c"
proof (cases "ns_ident s = ns_ident t")
  case True
  then show ?thesis by (cases t) (auto simp: verdict_for_def)
next
  case False
  then show ?thesis using capable_child_below[OF False, of euid caps c] by (auto simp: verdict_for_def split: option.splits)
qed

definition walk_result :: "userns \<Rightarrow> userns \<Rightarrow> nat \<Rightarrow> fd_table \<Rightarrow> int \<Rightarrow> fd_table \<Rightarrow> bool" where
  "walk_result s t n ds r ds' =
     (case child_below s t of
        None \<Rightarrow> r = -1 \<and> look ds' = look ds
      | Some c \<Rightarrow> 0 \<le> r \<and> (\<exists>g. userns_of_file g = c \<and> look ds' = (look ds)(nat r := Some g)) \<and>
          (nat r = n \<or> look ds (nat r) = None))"

lemma is_ancestor_userns_look:
  assumes "fd_userns ds m = Some s" "fd_userns ds n = Some t"
  obtains r ds' where "is_ancestor_userns m n ds = Some (r, ds')" "walk_result s t n ds r ds'"
proof -
  obtain f where f: "look ds n = Some f" "userns_of_file f = t" "look ds n \<noteq> None" using assms(2) by (auto simp: fd_userns_look)
  obtain r ds' where w: "ancestor_walk s n n t ds = Some (r, ds')" "case child_below s t of
       None \<Rightarrow> r = -1 \<and> look ds' = without n n (look ds)
     | Some c \<Rightarrow> 0 \<le> r \<and> (\<exists>g. userns_of_file g = c \<and> look ds' = (without n n (look ds))(nat r := Some g)) \<and>
         (nat r = n \<and> n = n \<or> nat r \<noteq> n \<and> without n n (look ds) (nat r) = None)"
    using ancestor_walk_look[OF f, of s] by blast
  have "walk_result s t n ds r ds'" using w(2) by (auto simp: walk_result_def without_def split: option.splits)
  then show ?thesis using that w(1) assms by (simp add: is_ancestor_userns_def)
qed

lemma walk_result_close:
  assumes "walk_result s t n ds r ds'" "child_below s t = Some c" "look ds = (look ds)(n := Some f)"
  obtains ds'' h where "close_unless n (nat r) ds' = Some ds''" "look ds'' = (look ds)(n := Some h)"
proof -
  obtain g where g: "look ds' = (look ds)(nat r := Some g)" "nat r = n \<or> look ds (nat r) = None"
    using assms by (auto simp: walk_result_def)
  have "look ds' (nat r) \<noteq> None" using g(1) by simp
  then obtain ds'' where c: "close_unless n (nat r) ds' = Some ds''" "look ds'' = without n (nat r) (look ds')"
    by (rule close_unless_without)
  show ?thesis
  proof (cases "nat r = n")
    case True
    then show ?thesis using that[OF c(1), of g] c(2) g(1) by (simp add: without_def)
  next
    case False
    then have "look ds'' = look ds" using c(2) g by (auto simp: without_def)
    then show ?thesis using that[OF c(1), of f] assms(3) by simp
  qed
qed

lemma main_verdict:
  assumes "proc_userns sys (atoi a) = Some s" "target_of sys b = Some t" "euid_of_process (status_lines sys (atoi a)) = Some e"
  shows "\<exists>ds. ns_capable_main sys [prog, a, b] ds0 = Some (verdict_for s e t, ds) \<and> look ds = look ds0"
proof -
  obtain m ds1 where 1: "userns_from_pid sys (atoi a) ds0 = Some (m, ds1)" "look ds0 m = None"
    "look ds1 = (look ds0)(m := Some (User_ns s))" using assms(1) by (rule userns_from_pid_look)
  obtain n ds2 f where 2: "get_userns_from sys b ds1 = Some (n, ds2)" "look ds1 n = None"
    "look ds2 = (look ds1)(n := Some f)" "userns_of_file f = t" using assms(2) by (rule get_userns_from_look)
  have mn: "m \<noteq> n" using 1(3) 2(2) by auto
  have u: "fd_userns ds2 m = Some s" "fd_userns ds2 n = Some t" using 1(3) 2(3,4) mn by (simp_all add: fd_userns_look)
  have fin: "\<exists>ds. (case close_fd ds5 n of None \<Rightarrow> None | Some ds6 \<Rightarrow> map_option (\<lambda>ds7. (v, ds7)) (close_fd ds6 m)) = Some (v, ds) \<and>
      look ds = look ds0" if "look ds5 = (look ds2)(n := Some h)" for ds5 h and v :: verdict
  proof -
    have "look ds5 n \<noteq> None" using that by simp
    then obtain ds6 where 6: "close_fd ds5 n = Some ds6" "look ds6 = (look ds5)(n := None)" by (rule close_fd_look)
    have "look ds6 m \<noteq> None" using that 6(2) 1(3) 2(3) mn by simp
    then obtain ds7 where 7: "close_fd ds6 m = Some ds7" "look ds7 = (look ds6)(m := None)" by (rule close_fd_look)
    have "look ds7 = look ds0" using 7(2) 6(2) that 2(2,3) 1(2,3) mn by auto
    then show ?thesis using 6(1) 7(1) by simp
  qed
  have f: "look ds2 = (look ds2)(n := Some f)" using 2(3) by simp
  show ?thesis
  proof (cases "ns_ident s = ns_ident t")
    case True
    then show ?thesis using fin[OF f, of In_target] 1(1) 2(1) u by (simp add: ns_capable_main_def ns_equal_ident verdict_for_def)
  next
    case False
    obtain r ds3 where w: "is_ancestor_userns m n ds2 = Some (r, ds3)" "walk_result s t n ds2 r ds3"
      using u by (rule is_ancestor_userns_look)
    show ?thesis
    proof (cases "child_below s t")
      case None
      then have "look ds3 = (look ds2)(n := Some f)" "r = -1" using w(2) f by (simp_all add: walk_result_def)
      then show ?thesis using fin[of ds3 f Not_ancestor] w(1) 1(1) 2(1) u False None
        by (simp add: ns_capable_main_def ns_equal_ident verdict_for_def)
    next
      case (Some c)
      have uc: "0 \<le> r" "fd_userns ds3 (nat r) = Some c" using w(2) Some by (auto simp: walk_result_def fd_userns_look)
      obtain ds4 h where 4: "close_unless n (nat r) ds3 = Some ds4" "look ds4 = (look ds2)(n := Some h)"
        using w(2) Some f by (rule walk_result_close)
      show ?thesis using fin[OF 4(2), of "if e = ns_owner c then Ancestor_owner else Ancestor_other"]
          w(1) 1(1) 2(1) u False uc 4(1) assms(3) Some
        by (simp add: ns_capable_main_def ns_equal_ident verdict_for_def)
    qed
  qed
qed

text \<open>The line of a status file with the real and the effective user ID, as the kernel writes it.\<close>

definition uid_line :: "nat \<Rightarrow> nat \<Rightarrow> string \<Rightarrow> string" where
  "uid_line ruid euid rest = ''Uid:'' @ CHR 0x09 # show_nat ruid @ CHR 0x09 # show_nat euid @ CHR 0x09 # rest"

lemma euid_of_uid_line:
  assumes "\<forall>l \<in> set before. \<not> strncmp_eq l ''Uid:'' 4" "ruid < 2 ^ 32" "euid < 2 ^ 32"
  shows "euid_of_process (before @ uid_line ruid euid rest # after) = Some euid"
  using assms(1)
proof (induction before)
  case Nil
  have l: "int ruid \<le> LONG_MAX" "int euid \<le> LONG_MAX" using assms by (simp_all add: LONG_MAX_def)
  have u: "nat (to_uint32 (to_int32 (int euid))) = euid" using assms(3) by (simp add: to_uint32_def to_int32_def mod_diff_left_eq)
  have "scan_number ([CHR 0x09] @ show_int (int n) @ CHR 0x09 # r) = Some (int n, CHR 0x09 # r)" if "int n \<le> LONG_MAX" for n r
    using that by (intro scan_number_show) (auto simp: LONG_MIN_def isspace_def isdigit_def isalpha_def islower_def isupper_def)
  then have "scan_number (CHR 0x09 # show_nat n @ CHR 0x09 # r) = Some (int n, CHR 0x09 # r)" if "int n \<le> LONG_MAX" for n r
    using that by (simp add: show_int_def)
  then show ?case using l by (simp add: uid_line_def u strncmp_eq_take)
next
  case (Cons l ls)
  have "length ''Uid:'' = 4" by simp
  then show ?case using Cons by (simp del: list.size)
qed

section \<open>The verdict is the rule of the kernel\<close>

text \<open>
  C14: For a process and a target that exist, given by process IDs or a namespace file, the program reaches a
  verdict, which grants exactly the capabilities that the rule of the kernel grants, whatever capabilities
  the process has; and all descriptors the program opened are closed again, none of them twice.
\<close>

theorem ns_capable_verdict_correct:
  assumes "proc_userns sys (atoi a) = Some s" "target_of sys b = Some t"
    "status_lines sys (atoi a) = before @ uid_line ruid euid rest # after"
    "\<forall>l \<in> set before. \<not> strncmp_eq l ''Uid:'' 4" "ruid < 2 ^ 32" "euid < 2 ^ 32"
  shows "\<exists>v ds. ns_capable_main sys [prog, a, b] ds0 = Some (v, ds) \<and>
    (\<forall>caps c. verdict_allows v caps c = ns_capable s euid caps t c) \<and> look ds = look ds0"
proof -
  have "euid_of_process (status_lines sys (atoi a)) = Some euid" using euid_of_uid_line assms(3-6) by simp
  then show ?thesis using main_verdict[OF assms(1,2), of euid prog ds0] verdict_rule[of s euid t] by blast
qed

definition example_system :: ns_system where
  "example_system =
     \<lparr> proc_userns = (\<lambda>pid. if pid = 7 then Some (Initial (4, 1) 0) else None),
       ns_files = (\<lambda>p. if p = ''uts'' then Some (Other_ns (Nested (4, 3) 1000 (Nested (4, 2) 1000 (Initial (4, 1) 0)))) else None),
       status_lines = (\<lambda>pid. [''Name:'', uid_line 0 1000 ''1000'']) \<rparr>"

theorem ns_capable_verdict_correct_witness:
  "\<exists>v ds. ns_capable_main example_system [''ns_capable'', ''7'', ''uts''] [None] = Some (v, ds) \<and>
    (\<forall>caps c. verdict_allows v caps c =
       ns_capable (Initial (4, 1) 0) 1000 (caps :: nat set) (Nested (4, 3) 1000 (Nested (4, 2) 1000 (Initial (4, 1) 0))) c) \<and>
    look ds = look [None]"
proof (rule ns_capable_verdict_correct[where before = "[''Name:'']" and after = "[]" and ruid = 0 and rest = "''1000''"])
  have a: "atoi ''7'' = 7" by code_simp
  show "proc_userns example_system (atoi ''7'') = Some (Initial (4, 1) 0)" using a by (simp add: example_system_def)
  show "target_of example_system ''uts'' = Some (Nested (4, 3) 1000 (Nested (4, 2) 1000 (Initial (4, 1) 0)))"
    by (simp add: target_of_def example_system_def isdigit_def)
qed (simp_all add: example_system_def strncmp_eq_take)

end
