(* ===== verification/Thread_Multijoin.thy ===== *)
theory Thread_Multijoin
  imports Num_Args Interleave
begin

text \<open>
  \<^verbatim>\<open>tlpi-dist/threads/thread_multijoin.c\<close>: the main thread creates a thread for each argument and joins them in
  the order in which they end, told by a condition variable.  Every access to the shared variables and
  every call is one step; a thread can run as soon as it is created, and takes any time.  A wait releases
  the mutex and sleeps in one step, a signal is lost when nobody waits, and a further process gives a
  number of spurious wakeups.  Joining a thread blocks until the thread has returned.
\<close>

section \<open>The program\<close>

datatype tstate = TS_ALIVE | TS_TERMINATED | TS_JOINED

record thread_info =
  th_state :: tstate
  sleepTime :: int

datatype wpc = W_lock | W_incr | W_mark | W_unlock | W_signal | W_return | W_ended

datatype mpc = M_create nat | M_test | M_lock | M_check | M_asleep | M_scan nat | M_unlock

datatype mthread = Worker nat wpc | Main_thread mpc | Spurious nat

text \<open>
  The global variables and the mutex, whether the main thread is in the wait set, the arguments, the
  threads created so far, those that have returned, the lines that report a reaped thread, and the exit
  status once the process has ended.
\<close>

record join_state =
  totThreads :: nat
  numLive :: int
  numUnjoined :: int
  thread :: "thread_info list"
  mutex :: bool
  in_wait :: bool
  secs :: "string list"
  created :: nat
  returned :: "nat set"
  reaped :: "(nat \<times> int) list"
  exit_st :: "nat option"

fun threadFunc_join :: "nat \<Rightarrow> wpc \<Rightarrow> join_state \<Rightarrow> (mthread \<times> join_state) option" where
  "threadFunc_join idx W_lock s =
     (if idx < created s \<and> \<not> mutex s then Some (Worker idx W_incr, s\<lparr>mutex := True\<rparr>) else None)"
| "threadFunc_join idx W_incr s = Some (Worker idx W_mark, s\<lparr>numUnjoined := numUnjoined s + 1\<rparr>)"
| "threadFunc_join idx W_mark s =
     Some (Worker idx W_unlock, s\<lparr>thread := (thread s)[idx := (thread s ! idx)\<lparr>th_state := TS_TERMINATED\<rparr>]\<rparr>)"
| "threadFunc_join idx W_unlock s = Some (Worker idx W_signal, s\<lparr>mutex := False\<rparr>)"
| "threadFunc_join idx W_signal s = Some (Worker idx W_return, s\<lparr>in_wait := False\<rparr>)"
| "threadFunc_join idx W_return s = Some (Worker idx W_ended, s\<lparr>returned := insert idx (returned s)\<rparr>)"
| "threadFunc_join idx W_ended s = None"

fun join_main_thread :: "mpc \<Rightarrow> join_state \<Rightarrow> (mthread \<times> join_state) option" where
  "join_main_thread (M_create idx) s =
     (if idx < length (secs s) then
        (case getInt (Some (secs s ! idx)) GN_NONNEG None of
           Inl e \<Rightarrow> Some (Main_thread (M_create idx), s\<lparr>exit_st := Some 1\<rparr>)
         | Inr v \<Rightarrow> Some (Main_thread (M_create (Suc idx)),
             s\<lparr>thread := (thread s)[idx := \<lparr>th_state = TS_ALIVE, sleepTime = v\<rparr>], created := Suc idx\<rparr>))
      else Some (Main_thread M_test, s\<lparr>totThreads := length (secs s), numLive := int (length (secs s))\<rparr>))"
| "join_main_thread M_test s =
     (if 0 < numLive s then Some (Main_thread M_lock, s) else Some (Main_thread M_test, s\<lparr>exit_st := Some 0\<rparr>))"
| "join_main_thread M_lock s = (if mutex s then None else Some (Main_thread M_check, s\<lparr>mutex := True\<rparr>))"
| "join_main_thread M_check s =
     (if numUnjoined s = 0 then Some (Main_thread M_asleep, s\<lparr>mutex := False, in_wait := True\<rparr>)
      else Some (Main_thread (M_scan 0), s))"
| "join_main_thread M_asleep s = (if in_wait s \<or> mutex s then None else Some (Main_thread M_check, s\<lparr>mutex := True\<rparr>))"
| "join_main_thread (M_scan idx) s =
     (if idx < totThreads s then
        (if th_state (thread s ! idx) = TS_TERMINATED then
           (if idx \<in> returned s then
              Some (Main_thread (M_scan (Suc idx)),
                s\<lparr>thread := (thread s)[idx := (thread s ! idx)\<lparr>th_state := TS_JOINED\<rparr>], numLive := numLive s - 1,
                   numUnjoined := numUnjoined s - 1, reaped := reaped s @ [(idx, numLive s - 1)]\<rparr>)
            else None)
         else Some (Main_thread (M_scan (Suc idx)), s))
      else Some (Main_thread M_unlock, s))"
| "join_main_thread M_unlock s = Some (Main_thread M_test, s\<lparr>mutex := False\<rparr>)"

fun spurious :: "nat \<Rightarrow> join_state \<Rightarrow> (mthread \<times> join_state) option" where
  "spurious 0 s = None"
| "spurious (Suc k) s = Some (Spurious k, s\<lparr>in_wait := False\<rparr>)"

definition multijoin_next :: "mthread \<Rightarrow> join_state \<Rightarrow> (mthread \<times> join_state) option" where
  "multijoin_next p s =
     (if exit_st s \<noteq> None then None
      else case p of Worker idx pc \<Rightarrow> threadFunc_join idx pc s | Main_thread pc \<Rightarrow> join_main_thread pc s | Spurious k \<Rightarrow> spurious k s)"

text \<open>The start: a usage error without an argument or when help is asked for, else the allocated array.\<close>

definition multijoin_main :: "string list \<Rightarrow> nat \<Rightarrow> join_state \<times> mthread list" where
  "multijoin_main argv k =
     (let args = tl argv; n = length args in
      (\<lparr>totThreads = 0, numLive = 0, numUnjoined = 0, thread = replicate n \<lparr>th_state = TS_ALIVE, sleepTime = 0\<rparr>,
         mutex = False, in_wait = False, secs = args, created = 0, returned = {}, reaped = [],
         exit_st = (if length argv < 2 \<or> argv ! 1 = ''--help'' then Some 1 else None)\<rparr>,
       Main_thread (M_create 0) # Spurious k # map (\<lambda>i. Worker i W_lock) [0..<n]))"

section \<open>The invariant\<close>

definition valid_secs :: "string \<Rightarrow> bool" where
  "valid_secs a = (case getInt (Some a) GN_NONNEG None of Inl e \<Rightarrow> False | Inr v \<Rightarrow> True)"

fun w_section :: "mthread \<Rightarrow> bool" where
  "w_section (Worker i pc) = (pc \<in> {W_incr, W_mark, W_unlock})"
| "w_section (Main_thread pc) = (case pc of M_check \<Rightarrow> True | M_scan j \<Rightarrow> True | M_unlock \<Rightarrow> True | _ \<Rightarrow> False)"
| "w_section (Spurious k) = False"

definition unmarked :: "mthread \<Rightarrow> bool" where
  "unmarked p = (case p of Worker i pc \<Rightarrow> pc = W_mark | _ \<Rightarrow> False)"

definition signalling :: "mthread \<Rightarrow> bool" where
  "signalling p = (case p of Worker i pc \<Rightarrow> pc \<in> {W_mark, W_unlock, W_signal} | _ \<Rightarrow> False)"

definition terminated :: "thread_info \<Rightarrow> bool" where
  "terminated th = (th_state th = TS_TERMINATED)"

definition unjoined :: "thread_info \<Rightarrow> bool" where
  "unjoined th = (th_state th \<noteq> TS_JOINED)"

text \<open>How far a thread is, against its entry of the array.\<close>

definition worker_ok :: "join_state \<Rightarrow> nat \<Rightarrow> mthread \<Rightarrow> bool" where
  "worker_ok s i p = (case p of Worker j pc \<Rightarrow> j = i \<and>
     (created s \<le> i \<longrightarrow> pc = W_lock) \<and>
     (pc \<in> {W_lock, W_incr, W_mark} \<longleftrightarrow> th_state (thread s ! i) = TS_ALIVE) \<and>
     (th_state (thread s ! i) = TS_JOINED \<longrightarrow> pc = W_ended) \<and> (i \<in> returned s \<longleftrightarrow> pc = W_ended)
   | _ \<Rightarrow> False)"

definition threads_ok :: "join_state \<Rightarrow> mthread list \<Rightarrow> bool" where
  "threads_ok s ws \<longleftrightarrow> length ws = length (secs s) \<and> length (thread s) = length (secs s) \<and>
     (\<forall>i < length ws. worker_ok s i (ws ! i)) \<and>
     numUnjoined s = int (tally terminated (thread s)) + int (tally unmarked ws)"

definition reaped_ok :: "join_state \<Rightarrow> bool" where
  "reaped_ok s \<longleftrightarrow> (let n = length (secs s) in
     length (reaped s) + tally unjoined (thread s) = n \<and>
     map snd (reaped s) = map (\<lambda>j. int n - 1 - int j) [0..<length (reaped s)] \<and>
     distinct (map fst (reaped s)) \<and> set (map fst (reaped s)) = {i. i < n \<and> \<not> unjoined (thread s ! i)})"

definition pc_ok :: "mpc \<Rightarrow> join_state \<Rightarrow> bool" where
  "pc_ok pc s \<longleftrightarrow> (let n = length (secs s) in
     (case pc of
        M_create idx \<Rightarrow> idx \<le> n \<and> created s = idx \<and> reaped s = [] \<and> list_all valid_secs (take idx (secs s)) \<and>
          (exit_st s = None \<or> exit_st s = Some 1 \<and> idx < n \<and> \<not> valid_secs (secs s ! idx))
      | _ \<Rightarrow> created s = n \<and> totThreads s = n \<and> list_all valid_secs (secs s) \<and> numLive s = int (tally unjoined (thread s)) \<and>
          (exit_st s = None \<or> exit_st s = Some 0 \<and> numLive s \<le> 0)) \<and>
     (pc = M_lock \<or> pc = M_check \<or> pc = M_asleep \<longrightarrow> 0 < numLive s) \<and> (in_wait s \<longrightarrow> pc = M_asleep))"

fun join_inv :: "string list \<Rightarrow> join_state \<Rightarrow> mthread list \<Rightarrow> bool" where
  "join_inv args s (Main_thread pc # Spurious k # ws) =
     (secs s = args \<and> threads_ok s ws \<and> reaped_ok s \<and> pc_ok pc s \<and>
      (if mutex s then 1 else 0) = (if w_section (Main_thread pc) then 1 else 0) + tally w_section ws \<and>
      (in_wait s \<and> 0 < numUnjoined s \<longrightarrow> list_ex signalling ws))"
| "join_inv args s _ = False"

fun worker_rank :: "mthread \<Rightarrow> nat" where
  "worker_rank (Worker i pc) = (case pc of W_lock \<Rightarrow> 12 | W_incr \<Rightarrow> 11 | W_mark \<Rightarrow> 10 | W_unlock \<Rightarrow> 9 | W_signal \<Rightarrow> 8 | W_return \<Rightarrow> 2 | W_ended \<Rightarrow> 1)"
| "worker_rank (Spurious k) = 4 * k"
| "worker_rank (Main_thread pc) = 0"

text \<open>A round of the main thread is paid by a thread that it joins; while it scans, there is one left or one was joined.\<close>

definition pending :: "nat \<Rightarrow> join_state \<Rightarrow> bool" where
  "pending idx s = list_ex terminated (drop idx (thread s))"

definition round_cost :: "join_state \<Rightarrow> nat" where
  "round_cost s = length (secs s) + 8"

definition main_rank :: "join_state \<Rightarrow> mpc \<Rightarrow> nat" where
  "main_rank s pc =
     (let n = length (secs s) in
      (case pc of
         M_create idx \<Rightarrow> round_cost s * n + n + 6 + (n - idx)
       | M_scan idx \<Rightarrow> round_cost s * nat (numLive s) + (n - idx) + (if pending idx s then 0 else n + 7)
       | _ \<Rightarrow> round_cost s * nat (numLive s) + n +
           (case pc of M_test \<Rightarrow> 5 | M_lock \<Rightarrow> 4 | M_check \<Rightarrow> 2 | M_asleep \<Rightarrow> if in_wait s then 1 else 3 | _ \<Rightarrow> 6)))"

fun join_rank :: "join_state \<Rightarrow> mthread list \<Rightarrow> nat" where
  "join_rank s (Main_thread pc # ws) =
     (if exit_st s = None then Suc (main_rank s pc) + sum_list (map worker_rank ws) else 0)"
| "join_rank s _ = 0"

section \<open>Steps of the threads\<close>

fun_cases threadFunc_joinE: "threadFunc_join idx pc s = Some (p, t)"

lemma thread_frame:
  assumes "threadFunc_join j pc s = Some (p, t)"
  shows "secs t = secs s" "totThreads t = totThreads s" "numLive t = numLive s" "created t = created s" "reaped t = reaped s"
    "exit_st t = exit_st s" "in_wait t \<longrightarrow> in_wait s" "length (thread t) = length (thread s)"
    "i \<noteq> j \<Longrightarrow> thread t ! i = thread s ! i \<and> (i \<in> returned t \<longleftrightarrow> i \<in> returned s)"
  by (rule threadFunc_joinE[OF assms]; simp split: if_splits; fail)+

lemma thread_ok:
  assumes "threadFunc_join j pc s = Some (p, t)" "worker_ok s j (Worker j pc)" "j < length (thread s)"
  shows "worker_ok t j p"
  using assms(2,3) by (rule_tac threadFunc_joinE[OF assms(1)]; simp add: worker_ok_def split: if_splits; fail)

lemma thread_unjoined:
  assumes "threadFunc_join j pc s = Some (p, t)" "worker_ok s j (Worker j pc)" "j < length (thread s)"
  shows "unjoined (thread t ! i) = unjoined (thread s ! i)"
  using assms(2,3) by (rule_tac threadFunc_joinE[OF assms(1)]; auto simp: worker_ok_def unjoined_def nth_list_update split: if_splits; fail)

lemma tally_cong: "length xs = length ys \<Longrightarrow> (\<And>i. i < length xs \<Longrightarrow> P (xs ! i) = P (ys ! i)) \<Longrightarrow> tally P xs = tally P ys"
  unfolding tally_def by (intro arg_cong[of _ _ sum_list] nth_equalityI) auto

lemma tally_ex: "0 < tally P xs \<longleftrightarrow> list_ex P xs"
  by (induction xs) (auto simp: tally_def)

lemma thread_count:
  assumes "threadFunc_join j pc s = Some (p, t)" "worker_ok s j (Worker j pc)" "j < length (thread s)"
  shows "numUnjoined t + int (tally terminated (thread s)) + (if unmarked (Worker j pc) then 1 else 0) =
    numUnjoined s + int (tally terminated (thread t)) + (if unmarked p then 1 else 0)"
proof -
  have "int (tally terminated ((thread s)[j := y])) + (if terminated (thread s ! j) then 1 else 0) =
      int (tally terminated (thread s)) + (if terminated y then 1 else 0)" for y
    using tally_upd[OF assms(3), of terminated y] by (simp split: if_splits)
  then show ?thesis using assms(2)
    by (rule_tac threadFunc_joinE[OF assms(1)];
        simp add: worker_ok_def unmarked_def terminated_def split: if_splits; fail)
qed

lemma thread_section:
  assumes "threadFunc_join j pc s = Some (p, t)" "(if mutex s then 1 else 0) = (if w_section (Worker j pc) then 1 else 0) + (m :: nat)"
  shows "(if mutex t then 1 else 0) = (if w_section p then 1 else 0) + m"
  using assms(2) by (rule_tac threadFunc_joinE[OF assms(1)]; simp split: if_splits; fail)

lemma thread_signals:
  assumes "threadFunc_join j pc s = Some (p, t)" "in_wait t" "0 < numUnjoined t"
  shows "signalling p \<or> numUnjoined t = numUnjoined s \<and> \<not> signalling (Worker j pc)"
  using assms(2,3) by (rule_tac threadFunc_joinE[OF assms(1)]; simp add: signalling_def split: if_splits; fail)

lemma worker_ok_frame:
  "worker_ok s i q \<Longrightarrow> created t = created s \<Longrightarrow> th_state (thread t ! i) = th_state (thread s ! i) \<Longrightarrow>
    (i \<in> returned t \<longleftrightarrow> i \<in> returned s) \<Longrightarrow> worker_ok t i q"
  by (cases q) (simp_all add: worker_ok_def)

lemma reaped_ok_frame:
  assumes "reaped_ok s" "secs t = secs s" "reaped t = reaped s" "length (thread t) = length (thread s)"
    "\<And>i. unjoined (thread t ! i) = unjoined (thread s ! i)"
  shows "reaped_ok t"
  using assms tally_cong[OF assms(4), of unjoined] by (simp add: reaped_ok_def Let_def)

lemma pc_ok_frame:
  assumes "pc_ok pc s" "secs t = secs s" "created t = created s" "totThreads t = totThreads s" "numLive t = numLive s"
    "reaped t = reaped s" "exit_st t = exit_st s" "in_wait t \<longrightarrow> in_wait s" "length (thread t) = length (thread s)"
    "\<And>i. unjoined (thread t ! i) = unjoined (thread s ! i)"
  shows "pc_ok pc t"
proof -
  have "tally unjoined (thread t) = tally unjoined (thread s)" using assms(9,10) by (intro tally_cong) auto
  then show ?thesis using assms(1-8) by (auto simp: pc_ok_def Let_def split: mpc.split)
qed

lemma thread_rank:
  assumes "threadFunc_join j pc s = Some (p, t)" "\<And>i. c = M_scan i \<Longrightarrow> \<not> w_section (Worker j pc)"
  shows "main_rank t c + worker_rank p < main_rank s c + worker_rank (Worker j pc)"
  using assms(2)
  by (rule_tac threadFunc_joinE[OF assms(1)]; cases c)
    (auto simp: main_rank_def round_cost_def pending_def Let_def split: if_splits)

lemma tally_remove: "j < length xs \<Longrightarrow> \<not> P y \<Longrightarrow> tally P xs = (if P (xs ! j) then 1 else 0) + tally P (xs[j := y])"
  using tally_upd[of j xs P y] by (simp split: if_splits)

lemma thread_step:
  assumes inv: "join_inv args s (Main_thread c # Spurious k # ws)" and ex: "exit_st s = None"
    and j: "j < length ws" and w: "ws ! j = Worker i pc" and nx: "threadFunc_join i pc s = Some (p, t)"
  shows "join_inv args t (Main_thread c # Spurious k # ws[j := p]) \<and>
    join_rank t (Main_thread c # Spurious k # ws[j := p]) < join_rank s (Main_thread c # Spurious k # ws)"
proof -
  have ok: "worker_ok s j (ws ! j)" and len: "length (thread s) = length ws" using inv j by (simp_all add: threads_ok_def)
  then have ij: "i = j" using w by (simp add: worker_ok_def)
  note nx = nx[unfolded ij] and w = w[unfolded ij]
  have jt: "j < length (thread s)" using len j by simp
  note fr = thread_frame[OF nx] and un = thread_unjoined[OF nx ok[unfolded w] jt]
  have "worker_ok t i (ws[j := p] ! i)" if il: "i < length ws" for i
  proof (cases "i = j")
    case False
    have "worker_ok s i (ws ! i)" using inv il by (simp add: threads_ok_def)
    then show ?thesis using False fr(4) fr(9)[OF False] worker_ok_frame[of s i "ws ! i" t] by simp
  qed (use thread_ok[OF nx ok[unfolded w] jt] j in simp)
  moreover have "numUnjoined t = int (tally terminated (thread t)) + int (tally unmarked (ws[j := p]))"
    using inv thread_count[OF nx ok[unfolded w] jt] tally_upd[OF j, of unmarked p] w
    by (simp add: threads_ok_def split: if_splits)
  ultimately have 1: "threads_ok t (ws[j := p])" using inv fr by (simp add: threads_ok_def)
  let ?m = "(if w_section (Main_thread c) then 1 else 0) + tally w_section (ws[j := Spurious 0])"
  have m: "(if mutex s then 1 else 0) = (if w_section (Worker j pc) then 1 else 0) + ?m"
    using inv tally_remove[OF j, of w_section "Spurious 0"] w by simp
  have 2: "(if mutex t then 1 else 0) = (if w_section (Main_thread c) then 1 else 0) + tally w_section (ws[j := p])"
    using thread_section[OF nx m] tally_upd[OF j, of w_section p] tally_remove[OF j, of w_section "Spurious 0"] w
    by (simp split: if_splits)
  have 3: "list_ex signalling (ws[j := p])" if a: "in_wait t" "0 < numUnjoined t"
  proof (cases "signalling p")
    case True
    then show ?thesis using j by (auto simp: list_ex_iff intro!: bexI[of _ p] set_update_memI)
  next
    case False
    then have b: "numUnjoined t = numUnjoined s" "\<not> signalling (ws ! j)" using thread_signals[OF nx a] w by auto
    then obtain i where "i < length ws" "signalling (ws ! i)" using inv a fr(7) by (auto simp: list_ex_length)
    then show ?thesis using b(2) by (cases "i = j") (auto simp: list_ex_length intro!: exI[of _ i])
  qed
  have 4: "main_rank t c + worker_rank p < main_rank s c + worker_rank (Worker j pc)"
    using m by (intro thread_rank[OF nx]) (auto split: if_splits)
  have "reaped_ok t" "pc_ok c t" using inv fr un by (auto intro: reaped_ok_frame pc_ok_frame)
  then show ?thesis using inv fr 1 2 3 4 ex sum_list_upd_nat[OF j, of worker_rank p] w by simp
qed

section \<open>Steps of the main thread\<close>

lemma worker_ok_updates [simp]:
  "worker_ok (s\<lparr>mutex := b\<rparr>) i q = worker_ok s i q" "worker_ok (s\<lparr>in_wait := w\<rparr>) i q = worker_ok s i q"
  "worker_ok (s\<lparr>exit_st := e\<rparr>) i q = worker_ok s i q" "worker_ok (s\<lparr>totThreads := m, numLive := v\<rparr>) i q = worker_ok s i q"
  by (cases q; simp add: worker_ok_def)+

lemma join_simple_step:
  assumes inv: "join_inv args s (Main_thread c # Spurious k # ws)" and ex: "exit_st s = None"
    and nx: "join_main_thread c s = Some (p, t)" and c: "\<And>i. c \<noteq> M_create i" "\<And>i. c \<noteq> M_scan i"
  shows "join_inv args t (p # Spurious k # ws)"
  using inv nx c ex
  by (cases c; simp split: if_splits; (elim conjE; hypsubst)?;
      simp add: threads_ok_def reaped_ok_def pc_ok_def Let_def; fail)

lemma join_simple_rank:
  assumes inv: "join_inv args s (Main_thread c # Spurious k # ws)" and ex: "exit_st s = None"
    and nx: "join_main_thread c s = Some (p, t)" and c: "\<And>i. c \<noteq> M_create i" "\<And>i. c \<noteq> M_scan i"
  shows "join_rank t (p # Spurious k # ws) < join_rank s (Main_thread c # Spurious k # ws)"
proof (cases "c = M_check \<and> numUnjoined s \<noteq> 0")
  case True
  then have m: "tally w_section ws = 0" using inv by (auto split: if_splits)
  have "\<not> unmarked q" if "q \<in> set ws" for q
    using m that by (cases q) (auto simp: tally_zero list_all_iff unmarked_def)
  then have "tally unmarked ws = 0" by (simp add: tally_zero list_all_iff)
  then have "0 < tally terminated (thread s)" using inv True by (simp add: threads_ok_def)
  then have "pending 0 s" by (simp add: tally_ex pending_def)
  then show ?thesis using True nx ex by (auto simp: main_rank_def Let_def)
next
  case False
  then show ?thesis using nx c ex
    by (cases c; simp split: if_splits; (elim conjE; hypsubst)?; simp add: main_rank_def round_cost_def Let_def)
qed

lemma create_step:
  assumes inv: "join_inv args s (Main_thread (M_create idx) # Spurious k # ws)" and ex: "exit_st s = None"
    and i: "idx < length (secs s)" and v: "getInt (Some (secs s ! idx)) GN_NONNEG None = Inr v"
  defines "t \<equiv> s\<lparr>thread := (thread s)[idx := \<lparr>th_state = TS_ALIVE, sleepTime = v\<rparr>], created := Suc idx\<rparr>"
  shows "join_inv args t (Main_thread (M_create (Suc idx)) # Spurious k # ws)"
proof -
  have cr: "created s = idx" and len: "length (thread s) = length (secs s)" "length ws = length (secs s)"
    using inv by (simp_all add: pc_ok_def Let_def threads_ok_def)
  have w: "worker_ok s j (ws ! j)" if "j < length ws" for j using inv that by (simp add: threads_ok_def)
  have al: "th_state (thread s ! idx) = TS_ALIVE" using w[of idx] i len cr by (auto simp: worker_ok_def split: mthread.splits)
  have th: "th_state (thread t ! j) = th_state (thread s ! j)" for j using al i len by (auto simp: t_def nth_list_update)
  have un: "unjoined (thread t ! j) = unjoined (thread s ! j)" for j by (simp add: unjoined_def th)
  have tt: "tally terminated (thread t) = tally terminated (thread s)"
    by (rule tally_cong) (simp_all add: terminated_def th, simp add: t_def)
  have "worker_ok t j (ws ! j)" if "j < length ws" for j
    using w[OF that] th[of j] cr by (cases "ws ! j") (auto simp: worker_ok_def t_def)
  then have "threads_ok t ws" using inv tt by (simp add: threads_ok_def) (simp add: t_def)
  moreover have "reaped_ok t" using inv un by (intro reaped_ok_frame[of s t]) (simp_all add: t_def)
  moreover have "pc_ok (M_create (Suc idx)) t"
    using inv i v ex by (auto simp: pc_ok_def Let_def t_def take_Suc_conv_app_nth valid_secs_def)
  ultimately show ?thesis using inv by (simp add: t_def)
qed

lemma create_done_step:
  assumes inv: "join_inv args s (Main_thread (M_create idx) # Spurious k # ws)" and ex: "exit_st s = None"
    and i: "\<not> idx < length (secs s)"
  shows "join_inv args (s\<lparr>totThreads := length (secs s), numLive := int (length (secs s))\<rparr>) (Main_thread M_test # Spurious k # ws)"
  using inv ex i by (auto simp: threads_ok_def reaped_ok_def pc_ok_def Let_def)

lemma create_fail_step:
  assumes inv: "join_inv args s (Main_thread (M_create idx) # Spurious k # ws)" and ex: "exit_st s = None"
    and i: "idx < length (secs s)" "getInt (Some (secs s ! idx)) GN_NONNEG None = Inl e"
  shows "join_inv args (s\<lparr>exit_st := Some 1\<rparr>) (Main_thread (M_create idx) # Spurious k # ws)"
  using inv ex i by (auto simp: threads_ok_def reaped_ok_def pc_ok_def Let_def valid_secs_def)

lemma reap_step:
  assumes inv: "join_inv args s (Main_thread (M_scan idx) # Spurious k # ws)" and ex: "exit_st s = None"
    and i: "idx < totThreads s" "th_state (thread s ! idx) = TS_TERMINATED" "idx \<in> returned s"
  defines "t \<equiv> s\<lparr>thread := (thread s)[idx := (thread s ! idx)\<lparr>th_state := TS_JOINED\<rparr>], numLive := numLive s - 1,
                   numUnjoined := numUnjoined s - 1, reaped := reaped s @ [(idx, numLive s - 1)]\<rparr>"
  shows "join_inv args t (Main_thread (M_scan (Suc idx)) # Spurious k # ws)"
proof -
  have n: "totThreads s = length (secs s)" "numLive s = int (tally unjoined (thread s))"
    and len: "length (thread s) = length (secs s)" "length ws = length (secs s)" and r: "reaped_ok s"
    using inv by (simp_all add: pc_ok_def Let_def threads_ok_def)
  have il: "idx < length (thread s)" using i(1) n len by simp
  have w: "worker_ok s j (ws ! j)" if "j < length ws" for j using inv that by (simp add: threads_ok_def)
  have "worker_ok t j (ws ! j)" if j: "j < length ws" for j
  proof (cases "j = idx")
    case True
    then show ?thesis using w[OF j] i(3) il by (cases "ws ! j") (auto simp: worker_ok_def t_def)
  next
    case False
    then show ?thesis using w[OF j] by (cases "ws ! j") (auto simp: worker_ok_def t_def)
  qed
  moreover have u: "int (tally terminated (thread t)) = int (tally terminated (thread s)) - 1"
    "Suc (tally unjoined (thread t)) = tally unjoined (thread s)"
    using tally_upd[OF il, of terminated "(thread s ! idx)\<lparr>th_state := TS_JOINED\<rparr>"]
      tally_upd[OF il, of unjoined "(thread s ! idx)\<lparr>th_state := TS_JOINED\<rparr>"] i(2)
    by (simp_all add: t_def terminated_def unjoined_def)
  ultimately have 1: "threads_ok t ws" using inv by (simp add: threads_ok_def) (simp add: t_def)
  have "set (map fst (reaped t)) = {j. j < length (secs s) \<and> \<not> unjoined (thread t ! j)}"
    using r il len by (auto simp: t_def reaped_ok_def Let_def nth_list_update unjoined_def)
  moreover have "idx \<notin> set (map fst (reaped s))" using r i(2) by (simp add: reaped_ok_def Let_def unjoined_def)
  ultimately have 2: "reaped_ok t" using r u(2) n(2)
    by (auto simp: reaped_ok_def Let_def t_def)
  have "pc_ok (M_scan (Suc idx)) t" using inv u(2) ex by (auto simp: pc_ok_def Let_def t_def)
  then show ?thesis using inv 1 2 by (auto simp: t_def pc_ok_def Let_def)
qed

lemma pending_Suc: "idx < length (thread s) \<Longrightarrow> pending idx s \<longleftrightarrow> terminated (thread s ! idx) \<or> pending (Suc idx) s"
  by (simp add: pending_def Cons_nth_drop_Suc[symmetric])

lemma main_create_step:
  assumes inv: "join_inv args s (Main_thread (M_create idx) # Spurious k # ws)" and ex: "exit_st s = None"
    and nx: "join_main_thread (M_create idx) s = Some (p, t)"
  shows "join_inv args t (p # Spurious k # ws) \<and> join_rank t (p # Spurious k # ws) < join_rank s (Main_thread (M_create idx) # Spurious k # ws)"
proof (cases "idx < length (secs s)")
  case True
  show ?thesis
  proof (cases "getInt (Some (secs s ! idx)) GN_NONNEG None")
    case (Inl e)
    then show ?thesis using create_fail_step[OF inv ex True Inl] nx ex True by auto
  next
    case (Inr v)
    then show ?thesis using create_step[OF inv ex True Inr] nx ex True by (auto simp: main_rank_def round_cost_def Let_def)
  qed
next
  case False
  then show ?thesis using create_done_step[OF inv ex False] nx ex by (auto simp: main_rank_def round_cost_def Let_def)
qed

lemma main_scan_step:
  assumes inv: "join_inv args s (Main_thread (M_scan idx) # Spurious k # ws)" and ex: "exit_st s = None"
    and nx: "join_main_thread (M_scan idx) s = Some (p, t)"
  shows "join_inv args t (p # Spurious k # ws) \<and> join_rank t (p # Spurious k # ws) < join_rank s (Main_thread (M_scan idx) # Spurious k # ws)"
proof -
  have n: "totThreads s = length (secs s)" "length (thread s) = length (secs s)" "numLive s = int (tally unjoined (thread s))"
    using inv by (simp_all add: pc_ok_def Let_def threads_ok_def)
  consider "\<not> idx < totThreads s" | "idx < totThreads s" "\<not> terminated (thread s ! idx)"
    | "idx < totThreads s" "terminated (thread s ! idx)" "idx \<in> returned s"
    using nx by (auto simp: terminated_def split: if_splits)
  then show ?thesis
  proof cases
    case 1
    then have "\<not> pending idx s" using n by (simp add: pending_def)
    then show ?thesis using 1 inv nx ex n by (auto simp: pc_ok_def Let_def main_rank_def round_cost_def)
  next
    case 2
    then have "pending idx s \<longleftrightarrow> pending (Suc idx) s" using pending_Suc[of idx s] n by simp
    then show ?thesis using 2 inv nx ex n by (auto simp: pc_ok_def Let_def main_rank_def round_cost_def terminated_def)
  next
    case 3
    have pd: "pending idx s" using pending_Suc[of idx s] n 3 by simp
    have "unjoined (thread s ! idx)" using 3(2) by (simp add: unjoined_def terminated_def)
    then have "0 < tally unjoined (thread s)" using 3(1) n by (intro tally_pos) auto
    then obtain m where m: "numLive s = 1 + int m" "nat (numLive s) = Suc m" using n(3) by (metis Suc_pred nat_int of_nat_Suc)
    have "join_inv args t (p # Spurious k # ws)"
      using reap_step[OF inv ex 3(1) _ 3(3)] nx 3 by (auto simp: terminated_def)
    moreover have t: "p = Main_thread (M_scan (Suc idx))" "numLive t = int m" "secs t = secs s" "exit_st t = None"
      using nx 3 ex m(1) by (auto simp: terminated_def)
    have "main_rank t (M_scan (Suc idx)) < main_rank s (M_scan idx)"
      using pd m(2) t(2,3) 3(1) n(1) by (simp add: main_rank_def round_cost_def Let_def, intro conjI impI; linarith)
    ultimately show ?thesis using ex t by simp
  qed
qed

lemma main_step:
  assumes inv: "join_inv args s (Main_thread c # Spurious k # ws)" and ex: "exit_st s = None"
    and nx: "join_main_thread c s = Some (p, t)"
  shows "join_inv args t (p # Spurious k # ws) \<and> join_rank t (p # Spurious k # ws) < join_rank s (Main_thread c # Spurious k # ws)"
proof -
  consider idx where "c = M_create idx" | idx where "c = M_scan idx" | "\<And>i. c \<noteq> M_create i" "\<And>i. c \<noteq> M_scan i" by blast
  then show ?thesis
  proof cases
    case 1
    then show ?thesis using main_create_step inv ex nx by blast
  next
    case 2
    then show ?thesis using main_scan_step inv ex nx by blast
  next
    case 3
    then show ?thesis using join_simple_step[OF inv ex nx] join_simple_rank[OF inv ex nx] by blast
  qed
qed

lemma spurious_step:
  assumes inv: "join_inv args s (Main_thread c # Spurious k # ws)" and ex: "exit_st s = None" and nx: "spurious k s = Some (p, t)"
  shows "join_inv args t (Main_thread c # p # ws) \<and> join_rank t (Main_thread c # p # ws) < join_rank s (Main_thread c # Spurious k # ws)"
proof (cases k)
  case (Suc m)
  then have pt: "p = Spurious m" "t = s\<lparr>in_wait := False\<rparr>" using nx by simp_all
  have "main_rank t c \<le> main_rank s c + 2"
    by (cases c) (simp_all add: pt main_rank_def round_cost_def pending_def Let_def)
  moreover have "pc_ok c t" using inv by (intro pc_ok_frame[of c s t]) (simp_all add: pt)
  ultimately show ?thesis using inv ex Suc by (simp add: pt threads_ok_def reaped_ok_def Let_def)
qed (use nx in simp)

lemma multijoin_step:
  assumes inv: "join_inv args s ps" and i: "i < length ps" and nx: "multijoin_next (ps ! i) s = Some (p, t)"
  shows "join_inv args t (ps[i := p]) \<and> join_rank t (ps[i := p]) < join_rank s ps"
proof -
  obtain c k ws where ps: "ps = Main_thread c # Spurious k # ws" using inv by (cases "(args, s, ps)" rule: join_inv.cases) auto
  have ex: "exit_st s = None" using nx by (auto simp: multijoin_next_def split: if_splits)
  consider "i = 0" | "i = 1" | j where "i = Suc (Suc j)" by (metis One_nat_def not0_implies_Suc)
  then show ?thesis
  proof cases
    case 1
    then show ?thesis using main_step[OF inv[unfolded ps] ex, of p t] nx ex ps by (simp add: multijoin_next_def)
  next
    case 2
    then show ?thesis using spurious_step[OF inv[unfolded ps] ex, of p t] nx ex ps by (simp add: multijoin_next_def)
  next
    case (3 j)
    have j: "j < length ws" using i 3 ps by simp
    have "worker_ok s j (ws ! j)" using inv ps j by (simp add: threads_ok_def)
    then obtain a pc where w: "ws ! j = Worker a pc" by (auto simp: worker_ok_def split: mthread.splits)
    then show ?thesis using thread_step[OF inv[unfolded ps] ex j w, of p t] nx ex ps 3 by (simp add: multijoin_next_def)
  qed
qed

interpretation multijoin: ending_protocol multijoin_next "join_inv args" join_rank for args
  by unfold_locales (use multijoin_step in blast)+

section \<open>The end\<close>

lemma main_enabled:
  "join_main_thread c s = None \<Longrightarrow> c = M_lock \<and> mutex s \<or> c = M_asleep \<and> (in_wait s \<or> mutex s) \<or>
    (\<exists>idx. c = M_scan idx \<and> idx < totThreads s \<and> th_state (thread s ! idx) = TS_TERMINATED \<and> idx \<notin> returned s)"
  by (cases c) (auto split: if_splits sum.splits)

lemma worker_enabled: "threadFunc_join i pc s = None \<Longrightarrow> pc = W_ended \<or> pc = W_lock \<and> (created s \<le> i \<or> mutex s)"
  by (cases pc) (auto split: if_splits)

lemma join_not_stuck:
  assumes inv: "join_inv args s (Main_thread c # Spurious k # ws)" and st: "stuck multijoin_next (s, Main_thread c # Spurious k # ws)"
  shows "exit_st s \<noteq> None"
proof
  assume ex: "exit_st s = None"
  have c: "c = M_lock \<and> mutex s \<or> c = M_asleep \<and> (in_wait s \<or> mutex s) \<or>
    (\<exists>idx. c = M_scan idx \<and> idx < totThreads s \<and> th_state (thread s ! idx) = TS_TERMINATED \<and> idx \<notin> returned s)"
    using st ex by (intro main_enabled) (simp add: stuck_def multijoin_next_def)
  then have n: "created s = length ws" "totThreads s = length ws" "numLive s = int (tally unjoined (thread s))"
    and len: "length (thread s) = length ws" using inv by (auto simp: pc_ok_def Let_def threads_ok_def)
  have ok: "worker_ok s i (ws ! i)" if "i < length ws" for i using inv that by (simp add: threads_ok_def)
  have w: "\<exists>pc. ws ! i = Worker i pc \<and> (pc = W_ended \<or> pc = W_lock \<and> mutex s)" if i: "i < length ws" for i
  proof -
    obtain pc where q: "ws ! i = Worker i pc" using ok[OF i] by (auto simp: worker_ok_def split: mthread.splits)
    have "multijoin_next (ws ! i) s = None" using st i by (simp add: stuck_def list_all_iff)
    then show ?thesis using q worker_enabled[of i pc s] ex i n by (auto simp: multijoin_next_def)
  qed
  have "\<not> w_section (ws ! i)" if "i < length ws" for i using w[OF that] by auto
  then have "tally w_section ws = 0" by (simp add: tally_zero list_all_length)
  moreover have ns: "\<nexists>idx. c = M_scan idx" using c ok w n by (fastforce simp: worker_ok_def)
  ultimately have m: "\<not> mutex s" using inv c by (auto split: if_splits)
  then have e: "ws ! i = Worker i W_ended" if "i < length ws" for i using w[OF that] by auto
  have "\<not> list_ex signalling ws" using e by (auto simp: list_ex_length signalling_def)
  then have "numUnjoined s \<le> 0" using inv c ns m by auto
  then have "tally terminated (thread s) = 0" using inv by (simp add: threads_ok_def)
  then have "\<not> unjoined (thread s ! i)" if "i < length ws" for i
    using ok[OF that] e[OF that] that len by (cases "th_state (thread s ! i)")
      (auto simp: worker_ok_def tally_zero list_all_length terminated_def unjoined_def)
  then have "numLive s = 0" using n(3) len by (simp add: tally_zero list_all_length)
  then show False using inv c ns by (auto simp: pc_ok_def Let_def)
qed

text \<open>What the program has done when it ends.\<close>

definition all_reaped :: "string list \<Rightarrow> join_state \<Rightarrow> bool" where
  "all_reaped args s \<longleftrightarrow> exit_st s = Some 0 \<and> distinct (map fst (reaped s)) \<and> set (map fst (reaped s)) = {0..<length args} \<and>
     map snd (reaped s) = rev (map int [0..<length args])"

lemma rev_count: "map (\<lambda>j. int n - 1 - int j) [0..<n] = rev (map int [0..<n])"
  by (rule nth_equalityI) (auto simp: rev_nth)

lemma join_final:
  assumes inv: "join_inv args s ps" and st: "stuck multijoin_next (s, ps)"
  shows "if list_all valid_secs args then all_reaped args s else exit_st s = Some 1 \<and> reaped s = []"
proof -
  obtain c k ws where ps: "ps = Main_thread c # Spurious k # ws" using inv by (cases "(args, s, ps)" rule: join_inv.cases) auto
  have ex: "exit_st s \<noteq> None" using join_not_stuck inv st ps by blast
  have ok: "pc_ok c s" "secs s = args" "reaped_ok s" "threads_ok s ws" using inv ps by simp_all
  show ?thesis
  proof (cases "\<exists>i. c = M_create i")
    case True
    then obtain i where "i < length args" "\<not> valid_secs (args ! i)" "exit_st s = Some 1" "reaped s = []"
      using ok ex by (auto simp: pc_ok_def Let_def)
    then show ?thesis by (auto simp: list_all_length)
  next
    case False
    then have a: "list_all valid_secs args" "exit_st s = Some 0" "tally unjoined (thread s) = 0"
      using ok ex by (cases c; auto simp: pc_ok_def Let_def)+
    then have "length (reaped s) = length args" "length (thread s) = length args"
      using ok by (auto simp: reaped_ok_def Let_def threads_ok_def)
    moreover have "\<not> unjoined (thread s ! i)" if "i < length args" for i
      using a(3) that calculation(2) by (simp add: tally_zero list_all_length)
    ultimately show ?thesis using a ok rev_count[of "length args"]
      by (auto simp: all_reaped_def reaped_ok_def Let_def)
  qed
qed

lemma multijoin_start:
  assumes "2 \<le> length argv" "argv ! 1 \<noteq> ''--help''"
  shows "join_inv (tl argv) (fst (multijoin_main argv k)) (snd (multijoin_main argv k))"
proof -
  have "tally terminated (replicate n \<lparr>th_state = TS_ALIVE, sleepTime = 0\<rparr>) = 0"
    "tally unjoined (replicate n \<lparr>th_state = TS_ALIVE, sleepTime = 0\<rparr>) = n" for n
    by (induction n) (auto simp: tally_def terminated_def unjoined_def)
  moreover have "tally unmarked (map (\<lambda>i. Worker i W_lock) xs) = 0" "tally w_section (map (\<lambda>i. Worker i W_lock) xs) = 0" for xs
    by (induction xs) (auto simp: tally_def unmarked_def)
  ultimately show ?thesis using assms
    by (auto simp: multijoin_main_def Let_def threads_ok_def reaped_ok_def pc_ok_def worker_ok_def unjoined_def)
qed

text \<open>
  C22: \<^verbatim>\<open>thread_multijoin\<close> always ends, for any order of the threads and any spurious wakeups, without a deadlock
  or a lost wakeup.  If all arguments are numbers of seconds, it ends with success, has reaped every
  thread exactly once, and has reported the falling numbers of live threads; else it ends with failure
  at the first wrong argument.
\<close>

theorem multijoin_reaps_all:
  assumes "2 \<le> length argv" "argv ! 1 \<noteq> ''--help''"
  shows "always_ends multijoin_next (multijoin_main argv k) (\<lambda>(s, ps).
    if list_all valid_secs (tl argv) then all_reaped (tl argv) s else exit_st s = Some 1 \<and> reaped s = [])"
  using multijoin.always_endsI[OF multijoin_start[OF assms, of k], of "\<lambda>(s, ps).
    if list_all valid_secs (tl argv) then all_reaped (tl argv) s else exit_st s = Some 1 \<and> reaped s = []"] join_final
  by simp

theorem multijoin_reaps_all_witness:
  "always_ends multijoin_next (multijoin_main [''thread_multijoin'', ''1'', ''1'', ''2''] 5) (\<lambda>(s, ps). all_reaped [''1'', ''1'', ''2''] s)"
proof -
  have "valid_secs ''1''" "valid_secs ''2''" by code_simp+
  then show ?thesis using multijoin_reaps_all[of "[''thread_multijoin'', ''1'', ''1'', ''2'']" 5] by simp
qed

end
