(* ===== verification/Thread_Barrier.thy ===== *)
theory Thread_Barrier
  imports C_Strings Interleave
begin

text \<open>
  \<^verbatim>\<open>tlpi-dist/threads/pthread_barrier_demo.c\<close>: threads that pass a barrier several times.  The barrier counts
  the threads that wait, and the last one that arrives releases all of them and resets the barrier.
  Which thread of a round gets the special return value is not specified by POSIX and is a parameter,
  by the number of the round.  Every call and every output is one step, sleeping takes any time, and the
  lines of output are events of a common log.
\<close>

section \<open>The program\<close>

datatype barrier_line = Started nat | Waits nat nat | Passed nat nat bool | Terminating nat

datatype bpc = B_start | B_loop nat | B_call nat | B_blocked nat nat | B_ended

datatype bmain = BM_create nat | BM_join nat

datatype bthread = Barrier_thread nat bpc | Barrier_main bmain

text \<open>The barrier with its size, the threads that have arrived and the number of the round; the rest of the program.\<close>

record barrier_state =
  b_size :: nat
  arrived :: nat
  round :: nat
  numBarriers :: int
  b_created :: nat
  b_returned :: "nat set"
  b_log :: "barrier_line list"
  b_exit :: "nat option"

definition pthread_barrier_wait :: "barrier_state \<Rightarrow> barrier_state" where
  "pthread_barrier_wait s =
     (if Suc (arrived s) = b_size s then s\<lparr>arrived := 0, round := Suc (round s)\<rparr> else s\<lparr>arrived := Suc (arrived s)\<rparr>)"

fun threadFunc_barrier :: "(nat \<Rightarrow> nat) \<Rightarrow> nat \<Rightarrow> bpc \<Rightarrow> barrier_state \<Rightarrow> (bthread \<times> barrier_state) option" where
  "threadFunc_barrier serial i B_start s =
     (if i < b_created s then Some (Barrier_thread i (B_loop 0), s\<lparr>b_log := b_log s @ [Started i]\<rparr>) else None)"
| "threadFunc_barrier serial i (B_loop j) s =
     (if int j < numBarriers s then Some (Barrier_thread i (B_call j), s\<lparr>b_log := b_log s @ [Waits i j]\<rparr>)
      else Some (Barrier_thread i B_ended, s\<lparr>b_log := b_log s @ [Terminating i], b_returned := insert i (b_returned s)\<rparr>))"
| "threadFunc_barrier serial i (B_call j) s = Some (Barrier_thread i (B_blocked j (round s)), pthread_barrier_wait s)"
| "threadFunc_barrier serial i (B_blocked j r) s =
     (if r < round s then
        Some (Barrier_thread i (B_loop (Suc j)), s\<lparr>b_log := b_log s @ [Passed i j (serial r = i)]\<rparr>)
      else None)"
| "threadFunc_barrier serial i B_ended s = None"

fun barrier_main_thread :: "bmain \<Rightarrow> barrier_state \<Rightarrow> (bthread \<times> barrier_state) option" where
  "barrier_main_thread (BM_create i) s =
     (if i < b_size s then Some (Barrier_main (BM_create (Suc i)), s\<lparr>b_created := Suc i\<rparr>)
      else Some (Barrier_main (BM_join 0), s))"
| "barrier_main_thread (BM_join i) s =
     (if i < b_size s then (if i \<in> b_returned s then Some (Barrier_main (BM_join (Suc i)), s) else None)
      else Some (Barrier_main (BM_join i), s\<lparr>b_exit := Some 0\<rparr>))"

definition barrier_next :: "(nat \<Rightarrow> nat) \<Rightarrow> bthread \<Rightarrow> barrier_state \<Rightarrow> (bthread \<times> barrier_state) option" where
  "barrier_next serial p s =
     (if b_exit s \<noteq> None then None
      else case p of Barrier_thread i pc \<Rightarrow> threadFunc_barrier serial i pc s | Barrier_main pc \<Rightarrow> barrier_main_thread pc s)"

text \<open>
  The start.  The usage is wrong without two arguments, and a number of threads that is not positive makes
  the allocation of the array or the initialisation of the barrier fail.
\<close>

definition barrier_main :: "string list \<Rightarrow> barrier_state \<times> bthread list" where
  "barrier_main argv =
     (let wrong = (length argv \<noteq> 3 \<or> argv ! 1 = ''--help''); numThreads = (if wrong then 0 else nat (atoi (argv ! 2))) in
      (\<lparr>b_size = numThreads, arrived = 0, round = 0, numBarriers = (if wrong then 0 else atoi (argv ! 1)), b_created = 0,
         b_returned = {}, b_log = [], b_exit = (if numThreads = 0 then Some 1 else None)\<rparr>,
       Barrier_main (BM_create 0) # map (\<lambda>i. Barrier_thread i B_start) [0..<numThreads]))"

section \<open>The output of a thread\<close>

fun line_thread :: "barrier_line \<Rightarrow> nat" where
  "line_thread (Started i) = i"
| "line_thread (Waits i j) = i"
| "line_thread (Passed i j b) = i"
| "line_thread (Terminating i) = i"

fun rounds :: "(nat \<Rightarrow> nat) \<Rightarrow> nat \<Rightarrow> nat \<Rightarrow> barrier_line list" where
  "rounds serial i 0 = [Started i]"
| "rounds serial i (Suc j) = rounds serial i j @ [Waits i j, Passed i j (serial j = i)]"

fun lines_at :: "(nat \<Rightarrow> nat) \<Rightarrow> nat \<Rightarrow> nat \<Rightarrow> bpc \<Rightarrow> barrier_line list" where
  "lines_at serial b i B_start = []"
| "lines_at serial b i (B_loop j) = rounds serial i j"
| "lines_at serial b i (B_call j) = rounds serial i j @ [Waits i j]"
| "lines_at serial b i (B_blocked j r) = rounds serial i j @ [Waits i j]"
| "lines_at serial b i B_ended = rounds serial i b @ [Terminating i]"

text \<open>No thread passes a barrier before all threads have come to it.\<close>

definition barrier_order :: "nat \<Rightarrow> barrier_line list \<Rightarrow> bool" where
  "barrier_order n l \<longleftrightarrow> (\<forall>p i j b. p < length l \<longrightarrow> l ! p = Passed i j b \<longrightarrow> (\<forall>k < n. Waits k j \<in> set (take p l)))"

definition at_barrier :: "nat \<Rightarrow> bthread \<Rightarrow> bool" where
  "at_barrier r p = (case p of Barrier_thread i (B_blocked j q) \<Rightarrow> j = r | _ \<Rightarrow> False)"

text \<open>Where a thread can be, given the round of the barrier.\<close>

definition pc_round :: "barrier_state \<Rightarrow> nat \<Rightarrow> bpc \<Rightarrow> bool" where
  "pc_round s i pc = (let b = nat (numBarriers s) in (case pc of
     B_start \<Rightarrow> round s = 0 | B_loop j \<Rightarrow> j = round s \<and> j \<le> b | B_call j \<Rightarrow> j = round s \<and> j < b
   | B_blocked j r \<Rightarrow> r = j \<and> j < b \<and> (j = round s \<or> Suc j = round s) | B_ended \<Rightarrow> round s = b))"

definition bt_ok :: "(nat \<Rightarrow> nat) \<Rightarrow> barrier_state \<Rightarrow> nat \<Rightarrow> bthread \<Rightarrow> bool" where
  "bt_ok serial s i p = (case p of
     Barrier_thread k pc \<Rightarrow> k = i \<and> pc_round s i pc \<and> (pc = B_ended \<longleftrightarrow> i \<in> b_returned s) \<and>
       filter (\<lambda>l. line_thread l = i) (b_log s) = lines_at serial (nat (numBarriers s)) i pc
   | _ \<Rightarrow> False)"

fun bmain_ok :: "bmain \<Rightarrow> barrier_state \<Rightarrow> bool" where
  "bmain_ok (BM_create i) s = (i \<le> b_size s \<and> b_created s = i \<and> b_exit s = None)"
| "bmain_ok (BM_join i) s = (i \<le> b_size s \<and> b_created s = b_size s \<and> {0..<i} \<subseteq> b_returned s \<and> (b_exit s = None \<or> b_exit s = Some 0 \<and> i = b_size s))"

fun barrier_inv :: "(nat \<Rightarrow> nat) \<Rightarrow> nat \<Rightarrow> int \<Rightarrow> barrier_state \<Rightarrow> bthread list \<Rightarrow> bool" where
  "barrier_inv serial n b s (Barrier_main pc # ts) =
     (b_size s = n \<and> numBarriers s = b \<and> length ts = n \<and> bmain_ok pc s \<and> (\<forall>i < n. bt_ok serial s i (ts ! i)) \<and>
      arrived s = tally (at_barrier (round s)) ts \<and> arrived s < n \<and> barrier_order n (b_log s) \<and>
      (\<forall>l \<in> set (b_log s). line_thread l < n))"
| "barrier_inv serial n b s _ = False"

fun bt_rank :: "nat \<Rightarrow> bthread \<Rightarrow> nat" where
  "bt_rank b (Barrier_thread i pc) = (case pc of B_start \<Rightarrow> 3 * b + 4 | B_loop j \<Rightarrow> 3 * (b - j) + 3 | B_call j \<Rightarrow> 3 * (b - j) + 2
     | B_blocked j r \<Rightarrow> 3 * (b - j) + 1 | B_ended \<Rightarrow> 0)"
| "bt_rank b (Barrier_main pc) = 0"

fun bmain_rank :: "nat \<Rightarrow> bmain \<Rightarrow> nat" where
  "bmain_rank n (BM_create i) = 2 * n + 2 - i"
| "bmain_rank n (BM_join i) = n + 1 - i"

fun barrier_rank :: "barrier_state \<Rightarrow> bthread list \<Rightarrow> nat" where
  "barrier_rank s (Barrier_main pc # ts) =
     (if b_exit s = None then Suc (bmain_rank (b_size s) pc) + sum_list (map (bt_rank (nat (numBarriers s))) ts) else 0)"
| "barrier_rank s _ = 0"

section \<open>The steps keep the invariant\<close>

lemma rounds_waits: "j < m \<Longrightarrow> Waits i j \<in> set (rounds serial i m)"
  by (induction m) (auto simp: less_Suc_eq)

lemma waits_logged:
  assumes "bt_ok serial s k p" "j < round s"
  shows "Waits k j \<in> set (b_log s)"
proof -
  obtain pc where p: "p = Barrier_thread k pc" "pc_round s k pc"
    "filter (\<lambda>l. line_thread l = k) (b_log s) = lines_at serial (nat (numBarriers s)) k pc"
    using assms(1) by (auto simp: bt_ok_def split: bthread.splits)
  have "Waits k j \<in> set (lines_at serial (nat (numBarriers s)) k pc)"
  proof (cases pc)
    case (B_blocked m r)
    then have "j < m \<or> j = m" using p(2) assms(2) by (auto simp: pc_round_def Let_def)
    then show ?thesis using B_blocked rounds_waits[of j m] by auto
  qed (use p(2) assms(2) rounds_waits[of j] in \<open>auto simp: pc_round_def Let_def\<close>)
  then have "Waits k j \<in> set (filter (\<lambda>l. line_thread l = k) (b_log s))" by (simp add: p(3))
  then show ?thesis by simp
qed

lemma barrier_order_snoc:
  "barrier_order n (l @ [e]) \<longleftrightarrow> barrier_order n l \<and> (\<forall>i j b. e = Passed i j b \<longrightarrow> (\<forall>k < n. Waits k j \<in> set l))"
  unfolding barrier_order_def by (auto simp: nth_append less_Suc_eq)

lemma tally_le: "tally P xs \<le> length xs"
  by (induction xs) (auto simp: tally_def)

lemma tally_full: "tally P xs = length xs \<Longrightarrow> list_all P xs"
proof (induction xs)
  case (Cons x xs)
  then show ?case using tally_le[of P xs] by (auto simp: tally_Cons split: if_splits)
qed simp

lemma bt_ok_frame:
  assumes "bt_ok serial s k p" "numBarriers t = numBarriers s" "round t = round s" "k \<in> b_returned t \<longleftrightarrow> k \<in> b_returned s"
    "filter (\<lambda>l. line_thread l = k) (b_log t) = filter (\<lambda>l. line_thread l = k) (b_log s)"
  shows "bt_ok serial t k p"
proof -
  have "pc_round t k pc = pc_round s k pc" for pc using assms(2,3) by (cases pc) (simp_all add: pc_round_def)
  then show ?thesis using assms by (cases p) (simp_all add: bt_ok_def)
qed

lemma bmain_ok_frame:
  "bmain_ok c s \<Longrightarrow> b_size t = b_size s \<Longrightarrow> b_created t = b_created s \<Longrightarrow> b_exit t = b_exit s \<Longrightarrow> b_returned s \<subseteq> b_returned t \<Longrightarrow> bmain_ok c t"
  by (cases c) auto

lemma output_step:
  assumes inv: "barrier_inv serial n b s (Barrier_main c # ts)" and i: "i < n" and l: "b_log t = b_log s @ [l]" "line_thread l = i"
    and same: "b_size t = b_size s" "numBarriers t = numBarriers s" "round t = round s" "arrived t = arrived s"
      "b_created t = b_created s" "b_exit t = b_exit s"
    and r: "b_returned s \<subseteq> b_returned t" "b_returned t \<subseteq> insert i (b_returned s)"
    and p: "bt_ok serial t i p" "at_barrier (round s) p = at_barrier (round s) (ts ! i)"
    and passed: "\<And>k j e. l = Passed k j e \<Longrightarrow> j < round s"
  shows "barrier_inv serial n b t (Barrier_main c # ts[i := p])"
proof -
  have len: "length ts = n" and ok: "\<And>k. k < n \<Longrightarrow> bt_ok serial s k (ts ! k)" using inv by simp_all
  have "bt_ok serial t k (ts[i := p] ! k)" if k: "k < n" for k
  proof (cases "k = i")
    case False
    then have "filter (\<lambda>l. line_thread l = k) (b_log t) = filter (\<lambda>l. line_thread l = k) (b_log s)" using l by simp
    then have "bt_ok serial t k (ts ! k)" using ok[OF k] same r False by (intro bt_ok_frame[of serial s k _ t]) auto
    then show ?thesis using False by simp
  qed (use p(1) k len in simp)
  moreover have "tally (at_barrier (round s)) (ts[i := p]) = tally (at_barrier (round s)) ts"
    using tally_upd[of i ts "at_barrier (round s)" p] i len p(2) by simp
  moreover have "barrier_order n (b_log t)"
    using inv passed waits_logged[OF ok] unfolding l(1) barrier_order_snoc by auto
  moreover have "bmain_ok c t" using inv same r by (auto intro: bmain_ok_frame)
  ultimately show ?thesis using inv same l len i by auto
qed

lemma call_step:
  assumes inv: "barrier_inv serial n b s (Barrier_main c # ts)" and i: "i < n" and w: "ts ! i = Barrier_thread i (B_call j)"
  shows "barrier_inv serial n b (pthread_barrier_wait s) (Barrier_main c # ts[i := Barrier_thread i (B_blocked j (round s))])"
proof -
  have len: "length ts = n" and ok: "\<And>k. k < n \<Longrightarrow> bt_ok serial s k (ts ! k)" using inv by simp_all
  let ?p = "Barrier_thread i (B_blocked j (round s))" and ?t = "pthread_barrier_wait s"
  have j: "j = round s" "j < nat b" using ok[OF i] w inv by (auto simp: bt_ok_def pc_round_def Let_def)
  have tl: "tally (at_barrier (round s)) (ts[i := ?p]) = Suc (arrived s)"
    using tally_upd[of i ts "at_barrier (round s)" ?p] i len w j inv by (simp add: at_barrier_def)
  have same: "b_size ?t = b_size s" "numBarriers ?t = numBarriers s" "b_log ?t = b_log s" "b_returned ?t = b_returned s"
    "b_created ?t = b_created s" "b_exit ?t = b_exit s" by (simp_all add: pthread_barrier_wait_def)
  have new: "bt_ok serial (s\<lparr>round := r, arrived := a\<rparr>) i ?p" if "r = round s \<or> r = Suc (round s)" for r a
    using ok[OF i] w j inv that by (auto simp: bt_ok_def pc_round_def Let_def)
  show ?thesis
  proof (cases "Suc (arrived s) = n")
    case False
    then have t: "?t = s\<lparr>arrived := Suc (arrived s)\<rparr>" using inv by (simp add: pthread_barrier_wait_def)
    have "bt_ok serial ?t k (ts[i := ?p] ! k)" if k: "k < n" for k
      using ok[OF k] new[of "round s" "Suc (arrived s)"] bt_ok_frame[of serial s k "ts ! k" ?t] len k
      by (cases "k = i") (simp_all add: t)
    moreover have "bmain_ok c ?t" using inv same by (auto intro: bmain_ok_frame)
    ultimately show ?thesis using inv False tl by (simp add: t)
  next
    case True
    then have t: "?t = s\<lparr>arrived := 0, round := Suc (round s)\<rparr>" using inv by (simp add: pthread_barrier_wait_def)
    have all: "list_all (at_barrier (round s)) (ts[i := ?p])" using tl True len by (intro tally_full) simp
    have "bt_ok serial ?t k (ts[i := ?p] ! k)" if k: "k < n" for k
    proof (cases "k = i")
      case True
      then show ?thesis using new[of "Suc (round s)" 0] i len by (simp add: t) (simp add: bt_ok_def pc_round_def)
    next
      case False
      then have "at_barrier (round s) (ts ! k)" using all k len by (auto simp: list_all_length dest: spec[of _ k])
      then show ?thesis using ok[OF k] False by (auto simp: t at_barrier_def bt_ok_def pc_round_def Let_def split: bthread.splits bpc.splits)
    qed
    moreover have "list_all (\<lambda>p. \<not> at_barrier (Suc (round s)) p) (ts[i := ?p])"
      using all by (rule list.pred_mono_strong) (auto simp: at_barrier_def split: bthread.splits bpc.splits)
    then have "tally (at_barrier (Suc (round s))) (ts[i := ?p]) = 0" by (simp add: tally_zero)
    moreover have "bmain_ok c ?t" using inv same by (auto intro: bmain_ok_frame)
    ultimately show ?thesis using inv i by (simp add: t)
  qed
qed

fun_cases threadFunc_barrierE: "threadFunc_barrier serial i pc s = Some (p, t)"

lemma barrier_thread_inv:
  assumes inv: "barrier_inv serial n b s (Barrier_main c # ts)" and i: "i < n" and w: "ts ! i = Barrier_thread i pc"
    and nx: "threadFunc_barrier serial i pc s = Some (p, t)"
  shows "barrier_inv serial n b t (Barrier_main c # ts[i := p])"
proof -
  have ok: "bt_ok serial s i (Barrier_thread i pc)" using inv i w by fastforce
  have nb: "numBarriers s = b" using inv by simp
  show ?thesis
  proof (cases pc)
    case B_start
    then show ?thesis using ok nb nx
      by (intro output_step[OF inv i, of t "Started i"]) (auto simp: w bt_ok_def pc_round_def Let_def at_barrier_def split: if_splits)
  next
    case (B_loop j)
    show ?thesis
    proof (cases "int j < b")
      case True
      then show ?thesis using B_loop nx ok nb
        by (intro output_step[OF inv i, of t "Waits i j"]) (auto simp: w bt_ok_def pc_round_def Let_def at_barrier_def)
    next
      case False
      then have "nat b = j" using ok nb B_loop by (auto simp: bt_ok_def pc_round_def Let_def)
      then show ?thesis using False B_loop nx ok nb
        by (intro output_step[OF inv i, of t "Terminating i"]) (auto simp: w bt_ok_def pc_round_def Let_def at_barrier_def)
    qed
  next
    case (B_call j)
    then show ?thesis using call_step[OF inv i] w nx by auto
  next
    case (B_blocked j r)
    then have r: "r < round s" "r = j" "Suc j = round s" "j < nat b" using ok nb nx by (auto simp: bt_ok_def pc_round_def Let_def split: if_splits)
    moreover have "rounds serial i (round s) = rounds serial i j @ [Waits i j, Passed i j (serial j = i)]" using r(3)[symmetric] by simp
    ultimately show ?thesis using B_blocked nx ok nb
      by (intro output_step[OF inv i, of t "Passed i j (serial r = i)"]) (auto simp: w bt_ok_def pc_round_def Let_def at_barrier_def)
  qed (use nx in simp)
qed

lemma barrier_thread_rank:
  assumes "threadFunc_barrier serial i pc s = Some (p, t)" "pc_round s i pc"
  shows "bt_rank (nat (numBarriers s)) p < bt_rank (nat (numBarriers s)) (Barrier_thread i pc) \<and> b_size t = b_size s \<and>
    numBarriers t = numBarriers s \<and> b_exit t = b_exit s"
  using assms(2) by (rule_tac threadFunc_barrierE[OF assms(1)]; auto simp: pc_round_def Let_def pthread_barrier_wait_def split: if_splits)

lemma barrier_main_step:
  assumes inv: "barrier_inv serial n b s (Barrier_main c # ts)" and ex: "b_exit s = None" and nx: "barrier_main_thread c s = Some (p, t)"
  shows "barrier_inv serial n b t (p # ts) \<and> barrier_rank t (p # ts) < barrier_rank s (Barrier_main c # ts)"
proof -
  have same: "round t = round s \<and> b_log t = b_log s \<and> numBarriers t = numBarriers s \<and> b_returned t = b_returned s \<and> arrived t = arrived s"
    using nx by (cases c) (auto split: if_splits)
  then have "bt_ok serial t k q \<longleftrightarrow> bt_ok serial s k q" for k q
    using bt_ok_frame[of serial s k q t] bt_ok_frame[of serial t k q s] by auto
  then show ?thesis using inv nx ex same by (cases c) (auto split: if_splits simp: less_Suc_eq atLeastLessThanSuc)
qed

lemma barrier_step:
  assumes inv: "barrier_inv serial n b s ps" and i: "i < length ps" and nx: "barrier_next serial (ps ! i) s = Some (p, t)"
  shows "barrier_inv serial n b t (ps[i := p]) \<and> barrier_rank t (ps[i := p]) < barrier_rank s ps"
proof -
  obtain c ts where ps: "ps = Barrier_main c # ts" using inv by (cases "(serial, n, b, s, ps)" rule: barrier_inv.cases) auto
  have ex: "b_exit s = None" using nx by (auto simp: barrier_next_def split: if_splits)
  show ?thesis
  proof (cases i)
    case 0
    then show ?thesis using barrier_main_step[OF inv[unfolded ps] ex, of p t] nx ex ps by (simp add: barrier_next_def)
  next
    case (Suc j)
    have j: "j < length ts" "j < n" using i Suc ps inv by auto
    have ok: "bt_ok serial s j (ts ! j)" using inv ps j by simp
    then obtain pc where w: "ts ! j = Barrier_thread j pc" "pc_round s j pc" by (auto simp: bt_ok_def split: bthread.splits)
    have nx': "threadFunc_barrier serial j pc s = Some (p, t)" using nx w Suc ps ex by (simp add: barrier_next_def)
    show ?thesis using barrier_thread_inv[OF inv[unfolded ps] j(2) w(1) nx'] barrier_thread_rank[OF nx' w(2)]
        sum_list_upd_nat[OF j(1), of "bt_rank (nat (numBarriers s))" p] w Suc ps ex by simp
  qed
qed

interpretation barriers: ending_protocol "barrier_next serial" "barrier_inv serial n b" barrier_rank for serial n b
  by unfold_locales (use barrier_step in blast)+

section \<open>The end\<close>

lemma bt_enabled: "threadFunc_barrier serial i pc s = None \<Longrightarrow> i < b_created s \<Longrightarrow> pc = B_ended \<or> (\<exists>j r. pc = B_blocked j r \<and> round s \<le> r)"
  by (cases pc) (auto split: if_splits)

lemma barrier_not_stuck:
  assumes inv: "barrier_inv serial n b s (Barrier_main c # ts)" and st: "stuck (barrier_next serial) (s, Barrier_main c # ts)"
  shows "b_exit s \<noteq> None"
proof
  assume ex: "b_exit s = None"
  have "barrier_main_thread c s = None" using st ex by (simp add: stuck_def barrier_next_def)
  then obtain m where c: "c = BM_join m" "m < n" "m \<notin> b_returned s" using inv by (cases c) (auto split: if_splits)
  have len: "length ts = n" and cr: "b_created s = n" using inv c by auto
  have w: "ts ! i = Barrier_thread i B_ended \<or> ts ! i = Barrier_thread i (B_blocked (round s) (round s)) \<and> round s < nat b"
    if i: "i < n" for i
  proof -
    have ok: "bt_ok serial s i (ts ! i)" using inv i by simp
    then obtain pc where p: "ts ! i = Barrier_thread i pc" "pc_round s i pc" by (auto simp: bt_ok_def split: bthread.splits)
    have "barrier_next serial (ts ! i) s = None" using st i len by (simp add: stuck_def list_all_iff)
    then show ?thesis using p bt_enabled[of serial i pc s] ex i cr inv by (auto simp: barrier_next_def pc_round_def Let_def)
  qed
  have "ts ! m \<noteq> Barrier_thread m B_ended" using inv c by (auto simp: bt_ok_def)
  then have r: "round s < nat b" using w[OF c(2)] by auto
  have "at_barrier (round s) (ts ! i)" if i: "i < n" for i
  proof -
    have "bt_ok serial s i (ts ! i)" "numBarriers s = b" using inv i by simp_all
    then show ?thesis using w[OF i] r by (auto simp: bt_ok_def pc_round_def at_barrier_def)
  qed
  then have "list_all (\<lambda>p. at_barrier (round s) p) ts" using len by (simp add: list_all_length)
  then have "tally (at_barrier (round s)) ts = n" unfolding len[symmetric] by (induction ts) (auto simp: tally_def)
  then show False using inv by auto
qed

text \<open>What the threads have put out in the end: a thread has come to every barrier and passed it, once and in order.\<close>

definition barriers_passed :: "(nat \<Rightarrow> nat) \<Rightarrow> nat \<Rightarrow> nat \<Rightarrow> barrier_state \<Rightarrow> bool" where
  "barriers_passed serial n b s \<longleftrightarrow> b_exit s = Some 0 \<and> barrier_order n (b_log s) \<and>
     (\<forall>i < n. filter (\<lambda>l. line_thread l = i) (b_log s) = rounds serial i b @ [Terminating i]) \<and>
     (\<forall>j < b. \<exists>!i. Passed i j True \<in> set (b_log s))"

lemma passed_in_rounds: "Passed k j e \<in> set (rounds serial i m) \<longleftrightarrow> k = i \<and> j < m \<and> e = (serial j = i)"
  by (induction m) (auto simp: less_Suc_eq)

lemma barrier_final:
  assumes inv: "barrier_inv serial n b s ps" and st: "stuck (barrier_next serial) (s, ps)" and ser: "\<And>j. serial j < n"
  shows "barriers_passed serial n (nat b) s"
proof -
  obtain c ts where ps: "ps = Barrier_main c # ts" using inv by (cases "(serial, n, b, s, ps)" rule: barrier_inv.cases) auto
  have "b_exit s \<noteq> None" using barrier_not_stuck inv st ps by blast
  then have e: "b_exit s = Some 0" "{0..<n} \<subseteq> b_returned s" using inv ps by (cases c; auto)+
  have f: "filter (\<lambda>l. line_thread l = i) (b_log s) = rounds serial i (nat b) @ [Terminating i]" if i: "i < n" for i
  proof -
    have "bt_ok serial s i (ts ! i)" "numBarriers s = b" "i \<in> b_returned s" using inv ps i e(2) by auto
    then show ?thesis by (auto simp: bt_ok_def split: bthread.splits)
  qed
  have m: "l \<in> set (b_log s) \<longleftrightarrow> line_thread l < n \<and> l \<in> set (rounds serial (line_thread l) (nat b) @ [Terminating (line_thread l)])" for l
  proof
    assume l: "l \<in> set (b_log s)"
    then have "line_thread l < n" using inv ps by simp
    moreover have "l \<in> set (filter (\<lambda>m. line_thread m = line_thread l) (b_log s))" using l by simp
    ultimately show "line_thread l < n \<and> l \<in> set (rounds serial (line_thread l) (nat b) @ [Terminating (line_thread l)])"
      using f by metis
  next
    assume "line_thread l < n \<and> l \<in> set (rounds serial (line_thread l) (nat b) @ [Terminating (line_thread l)])"
    then have "l \<in> set (filter (\<lambda>m. line_thread m = line_thread l) (b_log s))" using f by metis
    then show "l \<in> set (b_log s)" by simp
  qed
  have "\<exists>!i. Passed i j True \<in> set (b_log s)" if "j < nat b" for j
    using that ser[of j] by (intro ex1I[of _ "serial j"]) (auto simp: m passed_in_rounds)
  then show ?thesis using e(1) f inv ps by (simp add: barriers_passed_def)
qed

lemma barrier_start:
  assumes "length argv = 3" "argv ! 1 \<noteq> ''--help''" "0 < atoi (argv ! 2)"
  shows "barrier_inv serial (nat (atoi (argv ! 2))) (atoi (argv ! 1)) (fst (barrier_main argv)) (snd (barrier_main argv))"
proof -
  have "tally (at_barrier 0) (map (\<lambda>i. Barrier_thread i B_start) xs) = 0" for xs
    by (induction xs) (auto simp: tally_def at_barrier_def)
  then show ?thesis using assms by (auto simp: barrier_main_def Let_def bt_ok_def pc_round_def barrier_order_def)
qed

text \<open>
  C23: \<^verbatim>\<open>pthread_barrier_demo\<close> always ends, whichever thread gets the special value in a round: no thread passes
  a barrier before all threads have come to it, every thread passes all barriers in order and once, and in
  each round exactly one thread reports the special value.
\<close>

theorem barrier_demo_correct:
  assumes "length argv = 3" "argv ! 1 \<noteq> ''--help''" "0 < atoi (argv ! 2)" "\<forall>j. serial j < nat (atoi (argv ! 2))"
  shows "always_ends (barrier_next serial) (barrier_main argv)
    (\<lambda>(s, ps). barriers_passed serial (nat (atoi (argv ! 2))) (nat (atoi (argv ! 1))) s)"
  using barriers.always_endsI[OF barrier_start[OF assms(1-3), of serial],
      of "\<lambda>(s, ps). barriers_passed serial (nat (atoi (argv ! 2))) (nat (atoi (argv ! 1))) s"] barrier_final assms(4)
  by simp

theorem barrier_demo_correct_witness:
  "always_ends (barrier_next (\<lambda>j. j mod 3)) (barrier_main [''pthread_barrier_demo'', ''5'', ''3''])
    (\<lambda>(s, ps). barriers_passed (\<lambda>j. j mod 3) 3 5 s)"
proof -
  have "atoi ''5'' = 5" "atoi ''3'' = 3" by code_simp+
  then show ?thesis using barrier_demo_correct[of "[''pthread_barrier_demo'', ''5'', ''3'']" "\<lambda>j. j mod 3"] by simp
qed

end
