(* ===== verification/File_Locks.thy ===== *)
theory File_Locks
  imports Posix_Files C_Strings Interleave
begin

text \<open>
  Record locks (\<^verbatim>\<open>tlpi-dist/filelock\<close>): the functions of \<^verbatim>\<open>region_locking.c\<close>, the interactive program
  \<^verbatim>\<open>i_fcntl_locking.c\<close>, and \<^verbatim>\<open>createPidFile\<close>.  The kernel keeps for each file a table of the locked ranges;
  \<^verbatim>\<open>fcntl\<close> is modelled on it.  Descriptors are open for reading and writing, as in both programs.
\<close>

section \<open>The lock table of a file\<close>

datatype l_type = F_RDLCK | F_WRLCK | F_UNLCK

text \<open>A lock belongs to a process or, for the OFD commands, to an open file description.\<close>

datatype lock_owner = Process int | Description int nat

record plock =
  pl_owner :: lock_owner
  pl_type :: l_type
  pl_start :: int
  pl_end :: int

type_synonym lock_table = "plock list"

record flock =
  l_type :: l_type
  l_whence :: whence
  l_start :: int
  l_len :: int
  l_pid :: int

datatype lock_errno = EAGAIN | EINVAL | EOVERFLOW | EDEADLK

definition OFFSET_MAX :: int where
  "OFFSET_MAX = LONG_MAX"

text \<open>The range of bytes, from the offset and the size of the file; a length of 0 means up to the end of all files.\<close>

definition lock_range :: "int \<Rightarrow> int \<Rightarrow> flock \<Rightarrow> lock_errno + (int \<times> int)" where
  "lock_range offset fsize fl =
     (let base = (case l_whence fl of SEEK_SET \<Rightarrow> 0 | SEEK_CUR \<Rightarrow> offset | SEEK_END \<Rightarrow> fsize); start = base + l_start fl in
      if OFFSET_MAX < start then Inl EOVERFLOW
      else if start < 0 then Inl EINVAL
      else if 0 < l_len fl then
        (if OFFSET_MAX < start + l_len fl - 1 then Inl EOVERFLOW else Inr (start, start + l_len fl - 1))
      else if l_len fl < 0 then
        (if start + l_len fl < 0 then Inl EINVAL else Inr (start + l_len fl, start - 1))
      else Inr (start, OFFSET_MAX))"

definition overlaps :: "int \<Rightarrow> int \<Rightarrow> plock \<Rightarrow> bool" where
  "overlaps lo hi l \<longleftrightarrow> pl_start l \<le> hi \<and> lo \<le> pl_end l"

definition conflicts :: "lock_owner \<Rightarrow> l_type \<Rightarrow> int \<Rightarrow> int \<Rightarrow> plock \<Rightarrow> bool" where
  "conflicts own ty lo hi l \<longleftrightarrow> pl_owner l \<noteq> own \<and> overlaps lo hi l \<and> (ty = F_WRLCK \<or> pl_type l = F_WRLCK)"

text \<open>Setting a range: the ranges of the owner give way, and neighbours of the same type are joined.\<close>

definition cut_lock :: "lock_owner \<Rightarrow> int \<Rightarrow> int \<Rightarrow> plock \<Rightarrow> plock list" where
  "cut_lock own lo hi l =
     (if pl_owner l = own \<and> overlaps lo hi l then
        (if pl_start l < lo then [l\<lparr>pl_end := lo - 1\<rparr>] else []) @ (if hi < pl_end l then [l\<lparr>pl_start := hi + 1\<rparr>] else [])
      else [l])"

definition joins :: "lock_owner \<Rightarrow> l_type \<Rightarrow> int \<Rightarrow> int \<Rightarrow> plock \<Rightarrow> bool" where
  "joins own ty lo hi l \<longleftrightarrow> pl_owner l = own \<and> pl_type l = ty \<and> pl_start l \<le> hi + 1 \<and> lo \<le> pl_end l + 1"

definition set_range :: "lock_owner \<Rightarrow> l_type \<Rightarrow> int \<Rightarrow> int \<Rightarrow> lock_table \<Rightarrow> lock_table" where
  "set_range own ty lo hi tab =
     (let ls = filter (joins own ty lo hi) tab;
          lo' = Min (set (lo # map pl_start ls));
          hi' = Max (set (hi # map pl_end ls))
      in concat (map (cut_lock own lo' hi') tab) @
         (if ty = F_UNLCK then [] else [\<lparr>pl_owner = own, pl_type = ty, pl_start = lo', pl_end = hi'\<rparr>]))"

text \<open>
  \<^verbatim>\<open>fcntl\<close> with a lock command.  A blocking command that conflicts blocks, unless the kernel reports a
  deadlock, which is an argument.
\<close>

datatype lock_cmd = F_GETLK | F_SETLK | F_SETLKW

datatype fcntl_result = Lock_done flock lock_table | Lock_error lock_errno | Lock_blocks

definition report_lock :: "flock \<Rightarrow> plock \<Rightarrow> flock" where
  "report_lock fl l = fl\<lparr>l_type := pl_type l, l_whence := SEEK_SET, l_start := pl_start l,
     l_len := (if pl_end l = OFFSET_MAX then 0 else pl_end l - pl_start l + 1),
     l_pid := (case pl_owner l of Process p \<Rightarrow> p | Description p n \<Rightarrow> -1)\<rparr>"

definition fcntl_lock :: "bool \<Rightarrow> lock_owner \<Rightarrow> int \<Rightarrow> int \<Rightarrow> lock_cmd \<Rightarrow> flock \<Rightarrow> lock_table \<Rightarrow> fcntl_result" where
  "fcntl_lock deadlock own offset fsize cmd fl tab =
     (case lock_range offset fsize fl of
        Inl e \<Rightarrow> Lock_error e
      | Inr (lo, hi) \<Rightarrow>
          (case (cmd, List.find (conflicts own (l_type fl) lo hi) tab) of
             (F_GETLK, c) \<Rightarrow>
               if l_type fl = F_UNLCK then Lock_error EINVAL
               else (case c of None \<Rightarrow> Lock_done (fl\<lparr>l_type := F_UNLCK\<rparr>) tab | Some l \<Rightarrow> Lock_done (report_lock fl l) tab)
           | (F_SETLK, c) \<Rightarrow>
               if l_type fl \<noteq> F_UNLCK \<and> c \<noteq> None then Lock_error EAGAIN
               else Lock_done fl (set_range own (l_type fl) lo hi tab)
           | (F_SETLKW, c) \<Rightarrow>
               if l_type fl \<noteq> F_UNLCK \<and> c \<noteq> None then (if deadlock then Lock_error EDEADLK else Lock_blocks)
               else Lock_done fl (set_range own (l_type fl) lo hi tab)))"

section \<open>region_locking.c\<close>

text \<open>
  The functions, for a process whose descriptor has an offset, on a file with a size.  A status of -1 comes
  with the error; no value while a call blocks.
\<close>

definition lockReg ::
  "bool \<Rightarrow> int \<Rightarrow> int \<Rightarrow> int \<Rightarrow> lock_cmd \<Rightarrow> l_type \<Rightarrow> whence \<Rightarrow> int \<Rightarrow> int \<Rightarrow> lock_table \<Rightarrow> (int \<times> lock_errno option \<times> lock_table) option" where
  "lockReg deadlock pid offset fsize cmd ty wh start len tab =
     (case fcntl_lock deadlock (Process pid) offset fsize cmd
         \<lparr>l_type = ty, l_whence = wh, l_start = start, l_len = len, l_pid = 0\<rparr> tab of
        Lock_done fl tab' \<Rightarrow> Some (0, None, tab')
      | Lock_error e \<Rightarrow> Some (-1, Some e, tab)
      | Lock_blocks \<Rightarrow> None)"

definition lockRegion ::
  "int \<Rightarrow> int \<Rightarrow> int \<Rightarrow> l_type \<Rightarrow> whence \<Rightarrow> int \<Rightarrow> int \<Rightarrow> lock_table \<Rightarrow> (int \<times> lock_errno option \<times> lock_table) option" where
  "lockRegion pid offset fsize ty wh start len tab = lockReg False pid offset fsize F_SETLK ty wh start len tab"

definition lockRegionWait ::
  "bool \<Rightarrow> int \<Rightarrow> int \<Rightarrow> int \<Rightarrow> l_type \<Rightarrow> whence \<Rightarrow> int \<Rightarrow> int \<Rightarrow> lock_table \<Rightarrow> (int \<times> lock_errno option \<times> lock_table) option" where
  "lockRegionWait deadlock pid offset fsize ty wh start len tab = lockReg deadlock pid offset fsize F_SETLKW ty wh start len tab"

definition regionIsLocked :: "int \<Rightarrow> int \<Rightarrow> int \<Rightarrow> l_type \<Rightarrow> whence \<Rightarrow> int \<Rightarrow> int \<Rightarrow> lock_table \<Rightarrow> int" where
  "regionIsLocked pid offset fsize ty wh start len tab =
     (case fcntl_lock False (Process pid) offset fsize F_GETLK
         \<lparr>l_type = ty, l_whence = wh, l_start = start, l_len = len, l_pid = 0\<rparr> tab of
        Lock_done fl tab' \<Rightarrow> if l_type fl = F_UNLCK then 0 else l_pid fl
      | _ \<Rightarrow> -1)"

section \<open>The table as a map from bytes to locks\<close>

definition covers :: "lock_owner \<Rightarrow> int \<Rightarrow> plock \<Rightarrow> bool" where
  "covers own x l \<longleftrightarrow> pl_owner l = own \<and> pl_start l \<le> x \<and> x \<le> pl_end l"

definition holds :: "lock_table \<Rightarrow> lock_owner \<Rightarrow> int \<Rightarrow> l_type option" where
  "holds tab own x = map_option pl_type (List.find (covers own x) tab)"

text \<open>
  The invariant of a table: the ranges are not empty, the ranges of an owner are disjoint, and where ranges
  of different owners meet, both are locked for reading.
\<close>

definition table_ok :: "lock_table \<Rightarrow> bool" where
  "table_ok tab \<longleftrightarrow>
     (\<forall>l \<in> set tab. 0 \<le> pl_start l \<and> pl_start l \<le> pl_end l \<and> pl_type l \<noteq> F_UNLCK) \<and>
     (\<forall>l \<in> set tab. \<forall>m \<in> set tab. overlaps (pl_start l) (pl_end l) m \<longrightarrow>
        (if pl_owner l = pl_owner m then l = m else pl_type l = F_RDLCK \<and> pl_type m = F_RDLCK))"

lemma find_SomeD: "List.find P xs = Some x \<Longrightarrow> x \<in> set xs \<and> P x"
  by (induction xs) (auto split: if_splits)

lemma find_None_iff': "List.find P xs = None \<longleftrightarrow> (\<forall>x \<in> set xs. \<not> P x)"
  by (induction xs) auto

lemma holds_iff:
  assumes "table_ok tab"
  shows "holds tab own x = Some ty \<longleftrightarrow> (\<exists>l \<in> set tab. covers own x l \<and> pl_type l = ty)"
proof
  assume "holds tab own x = Some ty"
  then show "\<exists>l \<in> set tab. covers own x l \<and> pl_type l = ty" by (auto simp: holds_def dest: find_SomeD)
next
  assume "\<exists>l \<in> set tab. covers own x l \<and> pl_type l = ty"
  then obtain l where l: "l \<in> set tab" "covers own x l" "pl_type l = ty" by blast
  then obtain m where m: "List.find (covers own x) tab = Some m" using find_None_iff'[of "covers own x" tab] by fastforce
  then have "m \<in> set tab" "covers own x m" by (auto dest: find_SomeD)
  then have "l = m" using assms l by (fastforce simp: table_ok_def covers_def overlaps_def)
  then show "holds tab own x = Some ty" using m l by (simp add: holds_def)
qed

lemma holds_None_iff: "holds tab own x = None \<longleftrightarrow> (\<forall>l \<in> set tab. \<not> covers own x l)"
  by (simp add: holds_def find_None_iff')

lemma cut_lock_covers:
  "lo \<le> hi \<Longrightarrow> (\<exists>m \<in> set (cut_lock own lo hi l). covers o' x m \<and> pl_type m = ty) \<longleftrightarrow>
    covers o' x l \<and> pl_type l = ty \<and> \<not> (o' = own \<and> lo \<le> x \<and> x \<le> hi)"
  by (auto simp: cut_lock_def covers_def overlaps_def)

lemma cut_lock_inside:
  assumes "m \<in> set (cut_lock own lo hi l)" "lo \<le> hi" "pl_start l \<le> pl_end l"
  shows "pl_owner m = pl_owner l" "pl_type m = pl_type l" "pl_start l \<le> pl_start m" "pl_end m \<le> pl_end l" "pl_start m \<le> pl_end m"
    "pl_owner l = own \<Longrightarrow> \<not> overlaps lo hi m"
  using assms by (auto simp: cut_lock_def overlaps_def split: if_splits)

lemma cut_lock_pieces:
  assumes "m \<in> set (cut_lock own lo hi l)" "m' \<in> set (cut_lock own lo hi l)" "lo \<le> hi" "overlaps (pl_start m) (pl_end m) m'"
  shows "m = m'"
  using assms by (auto simp: cut_lock_def overlaps_def split: if_splits)

text \<open>The range after joining: beyond the requested one it is covered by locks of the same owner and type.\<close>

definition widened :: "lock_owner \<Rightarrow> l_type \<Rightarrow> int \<Rightarrow> int \<Rightarrow> lock_table \<Rightarrow> int \<Rightarrow> int \<Rightarrow> bool" where
  "widened own ty lo hi tab lo' hi' \<longleftrightarrow>
     set_range own ty lo hi tab = concat (map (cut_lock own lo' hi') tab) @
       (if ty = F_UNLCK then [] else [\<lparr>pl_owner = own, pl_type = ty, pl_start = lo', pl_end = hi'\<rparr>]) \<and>
     lo' \<le> lo \<and> hi \<le> hi' \<and> (lo' = lo \<or> (\<exists>l \<in> set tab. pl_start l = lo')) \<and>
     (\<forall>x. lo' \<le> x \<and> x \<le> hi' \<and> \<not> (lo \<le> x \<and> x \<le> hi) \<longrightarrow> (\<exists>l \<in> set tab. covers own x l \<and> pl_type l = ty))"

lemma widened_range: "\<exists>lo' hi'. widened own ty lo hi tab lo' hi'"
proof -
  let ?ls = "filter (joins own ty lo hi) tab"
  let ?A = "set (lo # map pl_start ?ls)" and ?B = "set (hi # map pl_end ?ls)"
  have A: "Min ?A \<in> ?A" "\<And>y. y \<in> ?A \<Longrightarrow> Min ?A \<le> y" by (rule Min_in; simp) (rule Min_le; simp)
  have B: "Max ?B \<in> ?B" "\<And>y. y \<in> ?B \<Longrightarrow> y \<le> Max ?B" by (rule Max_in; simp) (rule Max_ge; simp)
  have "\<exists>l \<in> set tab. covers own x l \<and> pl_type l = ty" if x: "Min ?A \<le> x" "x \<le> Max ?B" "\<not> (lo \<le> x \<and> x \<le> hi)" for x
  proof (cases "x < lo")
    case True
    then obtain l where "l \<in> set ?ls" "pl_start l = Min ?A" using A(1) x(1) by auto
    then show ?thesis using True x(1) by (intro bexI[of _ l]) (auto simp: joins_def covers_def)
  next
    case False
    then obtain l where "l \<in> set ?ls" "pl_end l = Max ?B" using B(1) x(2,3) by auto
    then show ?thesis using False x(2,3) by (intro bexI[of _ l]) (auto simp: joins_def covers_def)
  qed
  moreover have "Min ?A = lo \<or> (\<exists>l \<in> set tab. pl_start l = Min ?A)" using A(1) by auto
  moreover have "Min ?A \<le> lo" "hi \<le> Max ?B" using A(2) B(2) by auto
  ultimately have "widened own ty lo hi tab (Min ?A) (Max ?B)" by (auto simp: widened_def set_range_def Let_def)
  then show ?thesis by blast
qed

lemma set_range_holds:
  assumes ok: "table_ok tab" and ok': "table_ok (set_range own ty lo hi tab)" and lh: "lo \<le> hi"
  shows "holds (set_range own ty lo hi tab) o' x =
    (if o' = own \<and> lo \<le> x \<and> x \<le> hi then (if ty = F_UNLCK then None else Some ty) else holds tab o' x)"
proof -
  obtain lo' hi' where wd: "widened own ty lo hi tab lo' hi'" using widened_range by blast
  then have w: "set_range own ty lo hi tab = concat (map (cut_lock own lo' hi') tab) @
      (if ty = F_UNLCK then [] else [\<lparr>pl_owner = own, pl_type = ty, pl_start = lo', pl_end = hi'\<rparr>])"
    "lo' \<le> lo" "hi \<le> hi'" "lo' = lo \<or> (\<exists>l \<in> set tab. pl_start l = lo')"
    by (simp_all add: widened_def)
  have w5: "\<exists>l \<in> set tab. covers own x l \<and> pl_type l = ty" if "lo' \<le> x" "x \<le> hi'" "\<not> (lo \<le> x \<and> x \<le> hi)" for x
    using wd that unfolding widened_def by blast
  have lh': "lo' \<le> hi'" using w(2,3) lh by simp
  have un: "ty \<noteq> F_UNLCK \<or> lo' = lo \<and> hi' = hi \<or> \<not> (lo' \<le> x \<and> x \<le> hi') \<or> lo \<le> x \<and> x \<le> hi"
    using w5[of x] ok by (auto simp: table_ok_def)
  have "holds (set_range own ty lo hi tab) o' x = Some v \<longleftrightarrow>
      (if o' = own \<and> lo \<le> x \<and> x \<le> hi then (if ty = F_UNLCK then None else Some ty) else holds tab o' x) = Some v" for v
  proof -
    have "holds (set_range own ty lo hi tab) o' x = Some v \<longleftrightarrow>
        holds tab o' x = Some v \<and> \<not> (o' = own \<and> lo' \<le> x \<and> x \<le> hi') \<or> ty \<noteq> F_UNLCK \<and> v = ty \<and> o' = own \<and> lo' \<le> x \<and> x \<le> hi'"
    proof -
      have "holds (set_range own ty lo hi tab) o' x = Some v \<longleftrightarrow>
          (\<exists>l \<in> set tab. \<exists>m \<in> set (cut_lock own lo' hi' l). covers o' x m \<and> pl_type m = v) \<or>
          ty \<noteq> F_UNLCK \<and> covers o' x \<lparr>pl_owner = own, pl_type = ty, pl_start = lo', pl_end = hi'\<rparr> \<and> ty = v"
        unfolding holds_iff[OF ok'] by (auto simp: w(1))
      then show ?thesis unfolding cut_lock_covers[OF lh'] holds_iff[OF ok] by (auto simp: covers_def)
    qed
    moreover have "holds tab own x = Some ty" if "lo' \<le> x" "x \<le> hi'" "\<not> (lo \<le> x \<and> x \<le> hi)"
      using w5[OF that] holds_iff[OF ok] by blast
    ultimately show ?thesis using un w(2,3) by (cases "o' = own"; cases "lo \<le> x \<and> x \<le> hi"; cases "lo' \<le> x \<and> x \<le> hi'") auto
  qed
  then show ?thesis by (metis not_Some_eq)
qed

lemma set_range_ok:
  assumes ok: "table_ok tab" and lh: "0 \<le> lo" "lo \<le> hi"
    and nc: "ty = F_UNLCK \<or> (\<forall>l \<in> set tab. \<not> conflicts own ty lo hi l)"
  shows "table_ok (set_range own ty lo hi tab)"
proof -
  obtain lo' hi' where wd: "widened own ty lo hi tab lo' hi'" using widened_range by blast
  then have w: "set_range own ty lo hi tab = concat (map (cut_lock own lo' hi') tab) @
      (if ty = F_UNLCK then [] else [\<lparr>pl_owner = own, pl_type = ty, pl_start = lo', pl_end = hi'\<rparr>])"
    "lo' \<le> lo" "hi \<le> hi'" "lo' = lo \<or> (\<exists>l \<in> set tab. pl_start l = lo')"
    by (simp_all add: widened_def)
  have w5: "\<exists>l \<in> set tab. covers own x l \<and> pl_type l = ty" if "lo' \<le> x" "x \<le> hi'" "\<not> (lo \<le> x \<and> x \<le> hi)" for x
    using wd that unfolding widened_def by blast
  have lh': "0 \<le> lo'" "lo' \<le> hi'" using w(2-4) lh ok by (auto simp: table_ok_def)
  let ?P = "\<lambda>m. \<exists>l \<in> set tab. m \<in> set (cut_lock own lo' hi' l)"
  let ?new = "\<lparr>pl_owner = own, pl_type = ty, pl_start = lo', pl_end = hi'\<rparr>"
  have old: "0 \<le> pl_start m \<and> pl_start m \<le> pl_end m \<and> pl_type m \<noteq> F_UNLCK \<and> (pl_owner m = own \<longrightarrow> \<not> overlaps lo' hi' m)" if "?P m" for m
    using that ok cut_lock_inside[OF _ lh'(2), of m own] by (fastforce simp: table_ok_def)
  have two: "if pl_owner m = pl_owner m' then m = m' else pl_type m = F_RDLCK \<and> pl_type m' = F_RDLCK"
    if m: "?P m" "?P m'" and ov: "overlaps (pl_start m) (pl_end m) m'" for m m'
  proof -
    obtain l l' where l: "l \<in> set tab" "m \<in> set (cut_lock own lo' hi' l)" and l': "l' \<in> set tab" "m' \<in> set (cut_lock own lo' hi' l')"
      using m by blast
    have r: "pl_start l \<le> pl_end l" "pl_start l' \<le> pl_end l'" using ok l l' by (auto simp: table_ok_def)
    note c = cut_lock_inside[OF l(2) lh'(2) r(1)] and c' = cut_lock_inside[OF l'(2) lh'(2) r(2)]
    have "overlaps (pl_start l) (pl_end l) l'" using ov c(3,4) c'(3,4) by (simp add: overlaps_def)
    then have "if pl_owner l = pl_owner l' then l = l' else pl_type l = F_RDLCK \<and> pl_type l' = F_RDLCK"
      using ok l(1) l'(1) by (simp add: table_ok_def)
    then show ?thesis using c(1,2) c'(1,2) cut_lock_pieces[OF l(2) _ lh'(2) ov] l'(2) by auto
  qed
  have new: "pl_owner m \<noteq> own \<and> pl_type m = F_RDLCK \<and> ty = F_RDLCK" if m: "?P m" "overlaps lo' hi' m" "ty \<noteq> F_UNLCK" for m
  proof -
    obtain l where l: "l \<in> set tab" "m \<in> set (cut_lock own lo' hi' l)" using m(1) by blast
    have o: "pl_owner m \<noteq> own" "pl_type m \<noteq> F_UNLCK" using old[OF m(1)] m(2) by auto
    have c: "pl_owner m = pl_owner l" "pl_type m = pl_type l" "pl_start l \<le> pl_start m" "pl_end m \<le> pl_end l"
      using cut_lock_inside[OF l(2) lh'(2)] ok l(1) by (auto simp: table_ok_def)
    show ?thesis
    proof (cases "overlaps lo hi l")
      case True
      then show ?thesis using nc l(1) o c(1,2) m(3) by (cases ty; cases "pl_type l") (auto simp: conflicts_def)
    next
      case False
      define x where "x = max lo' (pl_start m)"
      have x: "lo' \<le> x" "x \<le> hi'" "pl_start l \<le> x" "x \<le> pl_end l"
        using m(2) lh'(2) c(3,4) old[OF m(1)] by (auto simp: x_def overlaps_def)
      then have "\<not> (lo \<le> x \<and> x \<le> hi)" using False by (auto simp: overlaps_def)
      then obtain k where k: "k \<in> set tab" "covers own x k" "pl_type k = ty" using w5[OF x(1,2)] by blast
      then have "overlaps (pl_start k) (pl_end k) l" using x(3,4) by (auto simp: covers_def overlaps_def)
      then have "pl_type k = F_RDLCK \<and> pl_type l = F_RDLCK"
        using ok k l(1) c(1) o(1) unfolding table_ok_def covers_def by metis
      then show ?thesis using k(3) c(2) o(1) by simp
    qed
  qed
  have sym: "overlaps (pl_start m) (pl_end m) ?new \<longleftrightarrow> overlaps lo' hi' m" for m by (auto simp: overlaps_def)
  have set: "set (set_range own ty lo hi tab) = {m. ?P m} \<union> (if ty = F_UNLCK then {} else {?new})" by (auto simp: w(1))
  show ?thesis unfolding table_ok_def set
  proof (intro conjI ballI impI)
    fix l m assume a: "l \<in> {m. ?P m} \<union> (if ty = F_UNLCK then {} else {?new})" "m \<in> {m. ?P m} \<union> (if ty = F_UNLCK then {} else {?new})"
      "overlaps (pl_start l) (pl_end l) m"
    have "?P l \<or> ty \<noteq> F_UNLCK \<and> l = ?new" "?P m \<or> ty \<noteq> F_UNLCK \<and> m = ?new" using a by (auto split: if_splits)
    then consider "?P l" "?P m" | "?P l" "ty \<noteq> F_UNLCK" "m = ?new" | "?P m" "ty \<noteq> F_UNLCK" "l = ?new" | "l = ?new" "m = ?new" by blast
    then show "if pl_owner l = pl_owner m then l = m else pl_type l = F_RDLCK \<and> pl_type m = F_RDLCK"
      by cases (use two[of l m] new[of l] new[of m] a(3) sym[of l] in auto)
  qed (use old lh' in \<open>auto split: if_splits\<close>)
qed

lemma lock_range_Inr:
  assumes "lock_range offset fsize fl = Inr (lo, hi)"
  shows "0 \<le> lo" "lo \<le> hi"
  using assms by (auto simp: lock_range_def Let_def split: if_splits)

definition blocked :: "lock_table \<Rightarrow> lock_owner \<Rightarrow> l_type \<Rightarrow> int \<Rightarrow> int \<Rightarrow> bool" where
  "blocked tab own ty lo hi \<longleftrightarrow>
     (\<exists>o' x t. o' \<noteq> own \<and> lo \<le> x \<and> x \<le> hi \<and> holds tab o' x = Some t \<and> (ty = F_WRLCK \<or> t = F_WRLCK))"

lemma blocked_iff:
  assumes ok: "table_ok tab" and lh: "lo \<le> hi"
  shows "blocked tab own ty lo hi \<longleftrightarrow> (\<exists>l \<in> set tab. conflicts own ty lo hi l)"
proof
  assume "blocked tab own ty lo hi"
  then show "\<exists>l \<in> set tab. conflicts own ty lo hi l"
    by (fastforce simp: blocked_def holds_iff[OF ok] conflicts_def covers_def overlaps_def)
next
  assume "\<exists>l \<in> set tab. conflicts own ty lo hi l"
  then obtain l where l: "l \<in> set tab" "conflicts own ty lo hi l" by blast
  then have "covers (pl_owner l) (max lo (pl_start l)) l" "max lo (pl_start l) \<le> hi"
    using ok lh by (auto simp: covers_def conflicts_def overlaps_def table_ok_def)
  then have "holds tab (pl_owner l) (max lo (pl_start l)) = Some (pl_type l)" using l(1) holds_iff[OF ok] by blast
  then show "blocked tab own ty lo hi" using l(2) \<open>max lo (pl_start l) \<le> hi\<close> unfolding blocked_def conflicts_def
    by (intro exI[of _ "pl_owner l"] exI[of _ "max lo (pl_start l)"] exI[of _ "pl_type l"]) auto
qed

text \<open>A table after a change of one range by one owner, as a map of bytes.\<close>

definition range_set :: "lock_table \<Rightarrow> lock_owner \<Rightarrow> l_type \<Rightarrow> int \<Rightarrow> int \<Rightarrow> lock_table \<Rightarrow> bool" where
  "range_set tab own ty lo hi tab' \<longleftrightarrow> table_ok tab' \<and> (\<forall>o' x. holds tab' o' x =
     (if o' = own \<and> lo \<le> x \<and> x \<le> hi then (if ty = F_UNLCK then None else Some ty) else holds tab o' x))"

lemma set_range_set:
  assumes "table_ok tab" "0 \<le> lo" "lo \<le> hi" "ty = F_UNLCK \<or> \<not> blocked tab own ty lo hi"
  shows "range_set tab own ty lo hi (set_range own ty lo hi tab)"
  using assms set_range_ok[of tab lo hi ty own] set_range_holds[of tab own ty lo hi] blocked_iff[of tab lo hi own ty]
  unfolding range_set_def by blast

lemma fcntl_find: "lo \<le> hi \<Longrightarrow> table_ok tab \<Longrightarrow>
    List.find (conflicts own ty lo hi) tab = None \<longleftrightarrow> \<not> blocked tab own ty lo hi"
  using blocked_iff[of tab lo hi own ty] by (auto simp: find_None_iff')

text \<open>Whether a request has to wait or fail.\<close>

definition refused :: "lock_table \<Rightarrow> lock_owner \<Rightarrow> l_type \<Rightarrow> int \<Rightarrow> int \<Rightarrow> bool" where
  "refused tab own ty lo hi \<longleftrightarrow> ty \<noteq> F_UNLCK \<and> blocked tab own ty lo hi"

lemma fcntl_setlk:
  assumes "table_ok tab" "lock_range offset fsize fl = Inr (lo, hi)"
  shows "fcntl_lock dl own offset fsize F_SETLK fl tab =
      (if refused tab own (l_type fl) lo hi then Lock_error EAGAIN else Lock_done fl (set_range own (l_type fl) lo hi tab))"
    "fcntl_lock dl own offset fsize F_SETLKW fl tab =
       (if refused tab own (l_type fl) lo hi then (if dl then Lock_error EDEADLK else Lock_blocks)
        else Lock_done fl (set_range own (l_type fl) lo hi tab))"
  using fcntl_find[OF lock_range_Inr(2)[OF assms(2)] assms(1), of own "l_type fl"]
  by (auto simp: fcntl_lock_def assms(2) refused_def)

lemma fcntl_getlk:
  assumes ok: "table_ok tab" and r: "lock_range offset fsize fl = Inr (lo, hi)" and t: "l_type fl \<noteq> F_UNLCK"
  shows "if refused tab own (l_type fl) lo hi
    then \<exists>l \<in> set tab. conflicts own (l_type fl) lo hi l \<and> fcntl_lock dl own offset fsize F_GETLK fl tab = Lock_done (report_lock fl l) tab
    else fcntl_lock dl own offset fsize F_GETLK fl tab = Lock_done (fl\<lparr>l_type := F_UNLCK\<rparr>) tab"
proof -
  note f = fcntl_find[OF lock_range_Inr(2)[OF r] ok, of own "l_type fl"]
  show ?thesis
  proof (cases "List.find (conflicts own (l_type fl) lo hi) tab")
    case None
    then show ?thesis using f t by (simp add: fcntl_lock_def r refused_def)
  next
    case (Some l)
    then have "l \<in> set tab" "conflicts own (l_type fl) lo hi l" by (auto dest: find_SomeD)
    then show ?thesis using f t Some by (auto simp: fcntl_lock_def r refused_def)
  qed
qed

text \<open>The last byte of a region that is given by a start and a length.\<close>

definition region_end :: "int \<Rightarrow> int \<Rightarrow> int" where
  "region_end start len = (if len = 0 then OFFSET_MAX else start + len - 1)"

lemma lock_range_region:
  assumes "0 \<le> start" "0 \<le> len" "start \<le> INT_MAX" "len \<le> INT_MAX"
  shows "lock_range off sz \<lparr>l_type = ty, l_whence = SEEK_SET, l_start = start, l_len = len, l_pid = 0\<rparr> = Inr (start, region_end start len)"
  using assms by (auto simp: lock_range_def region_end_def Let_def INT_MAX_def OFFSET_MAX_def LONG_MAX_def)

text \<open>
  C15: The functions of \<^verbatim>\<open>region_locking.c\<close> on a well-formed table, as a map of bytes to locks.  \<^verbatim>\<open>lockRegion\<close>
  succeeds exactly if no other owner has an incompatible lock on a byte of the region, and then changes the
  locks of the process on exactly these bytes; else it fails with \<^verbatim>\<open>EAGAIN\<close> and changes nothing, and
  \<^verbatim>\<open>lockRegionWait\<close> waits.  Unlocking always succeeds.  \<^verbatim>\<open>regionIsLocked\<close> returns 0 exactly if the region can be
  locked.  The tables stay well-formed.
\<close>

theorem region_locks_refine:
  assumes "table_ok tab" "0 \<le> start" "0 \<le> len" "start \<le> INT_MAX" "len \<le> INT_MAX" "\<forall>l \<in> set tab. pl_owner l \<noteq> Process 0"
  shows "(if refused tab (Process pid) ty start (region_end start len) then
        lockRegion pid off sz ty SEEK_SET start len tab = Some (-1, Some EAGAIN, tab) \<and>
        lockRegionWait False pid off sz ty SEEK_SET start len tab = None
      else \<exists>tab'. lockRegion pid off sz ty SEEK_SET start len tab = Some (0, None, tab') \<and>
        lockRegionWait False pid off sz ty SEEK_SET start len tab = Some (0, None, tab') \<and>
        range_set tab (Process pid) ty start (region_end start len) tab') \<and>
    (ty = F_UNLCK \<or> (regionIsLocked pid off sz ty SEEK_SET start len tab = 0 \<longleftrightarrow>
       \<not> refused tab (Process pid) ty start (region_end start len)))"
proof -
  let ?fl = "\<lparr>l_type = ty, l_whence = SEEK_SET, l_start = start, l_len = len, l_pid = 0\<rparr>"
  note r = lock_range_region[OF assms(2-5), of off sz ty]
  note c = fcntl_setlk[OF assms(1) r] and lh = lock_range_Inr[OF r]
  have "if refused tab (Process pid) ty start (region_end start len) then regionIsLocked pid off sz ty SEEK_SET start len tab \<noteq> 0
    else regionIsLocked pid off sz ty SEEK_SET start len tab = 0" if t: "ty \<noteq> F_UNLCK"
  proof -
    have "pl_type l \<noteq> F_UNLCK \<and> l_pid (report_lock ?fl l) \<noteq> 0" if "l \<in> set tab" for l
      using assms(1,6) that by (auto simp: table_ok_def report_lock_def split: lock_owner.splits)
    then show ?thesis using fcntl_getlk[OF assms(1) r, of "Process pid" False] t
      by (auto simp: regionIsLocked_def report_lock_def split: if_splits)
  qed
  then show ?thesis using c[of False "Process pid"] set_range_set[OF assms(1) lh, of ty "Process pid"]
    by (cases "ty = F_UNLCK") (auto simp: refused_def lockRegion_def lockRegionWait_def lockReg_def)
qed

theorem region_locks_refine_witness:
  "(if refused [] (Process 7) F_WRLCK 10 (region_end 10 5) then
      lockRegion 7 0 0 F_WRLCK SEEK_SET 10 5 [] = Some (-1, Some EAGAIN, []) \<and>
      lockRegionWait False 7 0 0 F_WRLCK SEEK_SET 10 5 [] = None
    else \<exists>tab'. lockRegion 7 0 0 F_WRLCK SEEK_SET 10 5 [] = Some (0, None, tab') \<and>
      lockRegionWait False 7 0 0 F_WRLCK SEEK_SET 10 5 [] = Some (0, None, tab') \<and>
      range_set [] (Process 7) F_WRLCK 10 (region_end 10 5) tab') \<and>
    regionIsLocked 7 0 0 F_WRLCK SEEK_SET 10 5 [\<lparr>pl_owner = Process 9, pl_type = F_RDLCK, pl_start = 3, pl_end = 12\<rparr>] = 9"
proof
  show "regionIsLocked 7 0 0 F_WRLCK SEEK_SET 10 5 [\<lparr>pl_owner = Process 9, pl_type = F_RDLCK, pl_start = 3, pl_end = 12\<rparr>] = 9"
    by code_simp
  show "if refused [] (Process 7) F_WRLCK 10 (region_end 10 5) then
      lockRegion 7 0 0 F_WRLCK SEEK_SET 10 5 [] = Some (-1, Some EAGAIN, []) \<and>
      lockRegionWait False 7 0 0 F_WRLCK SEEK_SET 10 5 [] = None
    else \<exists>tab'. lockRegion 7 0 0 F_WRLCK SEEK_SET 10 5 [] = Some (0, None, tab') \<and>
      lockRegionWait False 7 0 0 F_WRLCK SEEK_SET 10 5 [] = Some (0, None, tab') \<and>
      range_set [] (Process 7) F_WRLCK 10 (region_end 10 5) tab'"
    by (rule region_locks_refine[THEN conjunct1]) (simp_all add: table_ok_def INT_MAX_def)
qed

end
