(* ===== verification/Lock_Programs.thy ===== *)
theory Lock_Programs
  imports File_Locks "HOL-Library.Word"
begin

text \<open>
  The programs on record locks: interactive sessions of \<^verbatim>\<open>i_fcntl_locking.c\<close>, several of which run on the same
  files, and instances of a daemon that call \<^verbatim>\<open>createPidFile\<close>.
\<close>

section \<open>i_fcntl_locking.c\<close>

text \<open>Mandatory locking, from the mode of a file.\<close>

definition S_ISGID :: "16 word" where
  "S_ISGID = 0x400"

definition S_IXGRP :: "16 word" where
  "S_IXGRP = 0x8"

definition mandLockingEnabled :: "16 word \<Rightarrow> bool" where
  "mandLockingEnabled st_mode \<longleftrightarrow> and st_mode S_ISGID \<noteq> 0 \<and> and st_mode S_IXGRP = 0"

text \<open>
  \<^verbatim>\<open>sscanf\<close> with a format of characters, each after optional white space, and decimal numbers; the fields that
  were converted.
\<close>

datatype conversion = Conv_char | Conv_number

fun sscanf_fields :: "conversion list \<Rightarrow> string \<Rightarrow> (char + int) list" where
  "sscanf_fields [] s = []"
| "sscanf_fields (Conv_char # cs) s = (case dropWhile isspace s of [] \<Rightarrow> [] | c # s' \<Rightarrow> Inl c # sscanf_fields cs s')"
| "sscanf_fields (Conv_number # cs) s = (case scan_number s of None \<Rightarrow> [] | Some (n, s') \<Rightarrow> Inr n # sscanf_fields cs s')"

text \<open>The local variables that a line fills in; a field that is not converted keeps its value.\<close>

record cmd_vars =
  fileNum :: int
  cmdCh :: char
  lock :: char
  st :: int
  len :: int
  whence :: char

fun assign_fields :: "nat \<Rightarrow> (char + int) list \<Rightarrow> cmd_vars \<Rightarrow> cmd_vars" where
  "assign_fields i [] v = v"
| "assign_fields i (Inl c # fs) v =
     assign_fields (Suc i) fs (if i = 1 then v\<lparr>cmdCh := c\<rparr> else if i = 2 then v\<lparr>lock := c\<rparr> else v\<lparr>whence := c\<rparr>)"
| "assign_fields i (Inr n # fs) v =
     assign_fields (Suc i) fs (if i = 0 then v\<lparr>fileNum := to_int32 n\<rparr> else if i = 3 then v\<lparr>st := n\<rparr> else v\<lparr>len := n\<rparr>)"

text \<open>What the program answers to a line.\<close>

datatype lock_answer =
  Bad_file_number | Invalid_command | Can_be_placed | Denied l_type int int int | Got_lock | Unlocked
  | Failed_incompatible | Failed_deadlock | Failed lock_errno

text \<open>The locks and the sizes of the files, by their names; links are not modelled.\<close>

record lock_system =
  tables :: "string \<Rightarrow> lock_table"
  fsize :: "string \<Rightarrow> int"

text \<open>The request of a valid command: the owner, the command, and the lock.\<close>

definition request_of :: "int \<Rightarrow> cmd_vars \<Rightarrow> lock_owner \<times> lock_cmd \<times> flock" where
  "request_of pid v =
     (if cmdCh v \<in> set ''GSW'' then Description pid (nat (fileNum v)) else Process pid,
      if cmdCh v \<in> set ''gG'' then F_GETLK else if cmdCh v \<in> set ''sS'' then F_SETLK else F_SETLKW,
      \<lparr>l_type = (if lock v = CHR ''r'' then F_RDLCK else if lock v = CHR ''w'' then F_WRLCK else F_UNLCK),
       l_whence = (if whence v = CHR ''c'' then SEEK_CUR else if whence v = CHR ''e'' then SEEK_END else SEEK_SET),
       l_start = st v, l_len = len v, l_pid = 0\<rparr>)"

definition answer_of :: "lock_cmd \<Rightarrow> char \<Rightarrow> fcntl_result \<Rightarrow> lock_answer" where
  "answer_of cmd lockch res =
     (case (cmd, res) of
        (F_GETLK, Lock_done fl tab) \<Rightarrow>
          if l_type fl = F_UNLCK then Can_be_placed else Denied (l_type fl) (l_start fl) (l_len fl) (l_pid fl)
      | (F_GETLK, Lock_error e) \<Rightarrow> Failed e
      | (_, Lock_done fl tab) \<Rightarrow> if lockch = CHR ''u'' then Unlocked else Got_lock
      | (_, Lock_error EAGAIN) \<Rightarrow> Failed_incompatible
      | (_, Lock_error EDEADLK) \<Rightarrow> Failed_deadlock
      | (_, Lock_error e) \<Rightarrow> Failed e)"

text \<open>Performing the request of a valid command and showing the answer; no value while the call blocks.  All files are at offset 0.\<close>

definition perform_command ::
  "bool \<Rightarrow> int \<Rightarrow> string list \<Rightarrow> cmd_vars \<Rightarrow> lock_system \<Rightarrow> (lock_answer \<times> lock_system) option" where
  "perform_command deadlock pid argv v s =
     (let name = argv ! nat (fileNum v); (own, cmd, fl) = request_of pid v in
      (case fcntl_lock deadlock own 0 (fsize s name) cmd fl (tables s name) of
         Lock_blocks \<Rightarrow> None
       | Lock_done fl' tab \<Rightarrow> Some (answer_of cmd (lock v) (Lock_done fl' tab), s\<lparr>tables := (tables s)(name := tab)\<rparr>)
       | Lock_error e \<Rightarrow> Some (answer_of cmd (lock v) (Lock_error e), s)))"

text \<open>One turn of the loop, on a line that \<^verbatim>\<open>fgets\<close> has read: the answer if there is one, the variables and the files.\<close>

definition lock_line ::
  "bool \<Rightarrow> int \<Rightarrow> string list \<Rightarrow> string \<Rightarrow> cmd_vars \<Rightarrow> lock_system \<Rightarrow> (lock_answer option \<times> cmd_vars \<times> lock_system) option" where
  "lock_line deadlock pid argv raw v s =
     (let line = butlast raw; argc = length argv in
      if line = [] then Some (None, v, s)
      else if hd line = CHR ''?'' then Some (None, v, s)
      else
        let fields = sscanf_fields (if argc = 2 then [Conv_char, Conv_char, Conv_number, Conv_number, Conv_char]
              else [Conv_number, Conv_char, Conv_char, Conv_number, Conv_number, Conv_char]) line;
            numRead = length fields;
            v' = assign_fields 0 (if argc = 2 then Inr 1 # fields else fields) (v\<lparr>whence := CHR ''s''\<rparr>) in
        if fileNum v' < 1 \<or> int argc \<le> fileNum v' then Some (Some Bad_file_number, v', s)
        else if \<not> (4 \<le> numRead \<and> argc = 2 \<or> 5 \<le> numRead \<and> 2 < argc) \<or>
            cmdCh v' \<notin> set ''gswGSW'' \<or> lock v' \<notin> set ''rwu'' \<or> whence v' \<notin> set ''sce'' then Some (Some Invalid_command, v', s)
        else map_option (\<lambda>(a, s'). (Some a, v', s')) (perform_command deadlock pid argv v' s))"

text \<open>
  A session: its process ID, its arguments, the lines still to read, its variables and its answers so far.
  At the end of the input it exits, and the kernel releases its locks.
\<close>

datatype locker = Locker int "string list" "string list" cmd_vars "lock_answer list" | Left "lock_answer list"

fun owner_pid :: "lock_owner \<Rightarrow> int" where
  "owner_pid (Process p) = p"
| "owner_pid (Description p n) = p"

definition release_locks :: "int \<Rightarrow> lock_system \<Rightarrow> lock_system" where
  "release_locks pid s = s\<lparr>tables := (\<lambda>f. filter (\<lambda>l. owner_pid (pl_owner l) \<noteq> pid) (tables s f))\<rparr>"

fun locker_next :: "(lock_system \<Rightarrow> int \<Rightarrow> bool) \<Rightarrow> locker \<Rightarrow> lock_system \<Rightarrow> (locker \<times> lock_system) option" where
  "locker_next dl (Locker pid argv [] v out) s = Some (Left out, release_locks pid s)"
| "locker_next dl (Locker pid argv (raw # lines) v out) s =
     (case lock_line (dl s pid) pid argv raw v s of
        None \<Rightarrow> None
      | Some (a, v', s') \<Rightarrow> Some (Locker pid argv lines v' (case a of None \<Rightarrow> out | Some x \<Rightarrow> out @ [x]), s'))"
| "locker_next dl (Left out) s = None"

text \<open>The start: which files have mandatory locking, and the session; no value on wrong usage or if a file cannot be opened.\<close>

definition i_fcntl_main ::
  "(string \<Rightarrow> 16 word option) \<Rightarrow> cmd_vars \<Rightarrow> int \<Rightarrow> string list \<Rightarrow> string list \<Rightarrow> ((string \<times> bool) list \<times> locker) option" where
  "i_fcntl_main modes v pid argv lines =
     (if length argv < 2 \<or> argv ! 1 = ''--help'' then None
      else if list_ex (\<lambda>f. modes f = None) (tl argv) then None
      else Some (map (\<lambda>f. (f, mandLockingEnabled (the (modes f)))) (tl argv), Locker pid argv lines v []))"

section \<open>Sessions keep the locks exclusive\<close>

lemma fcntl_lock_table_ok:
  assumes "table_ok tab" "fcntl_lock dl own offset fsz cmd fl tab = Lock_done fl' tab'"
  shows "table_ok tab'"
proof -
  obtain lo hi where r: "lock_range offset fsz fl = Inr (lo, hi)"
    using assms(2) by (cases "lock_range offset fsz fl") (auto simp: fcntl_lock_def)
  show ?thesis
  proof (cases cmd)
    case F_GETLK
    then show ?thesis using assms by (auto simp: fcntl_lock_def r split: if_splits option.splits)
  qed (use assms fcntl_setlk[OF assms(1) r] set_range_set[OF assms(1) lock_range_Inr[OF r]]
      in \<open>auto simp: refused_def range_set_def split: if_splits\<close>)
qed

lemma perform_command_ok:
  assumes "\<forall>f. table_ok (tables s f)" "perform_command dl pid argv v s = Some (a, s')"
  shows "\<forall>f. table_ok (tables s' f)"
  using assms fcntl_lock_table_ok[OF assms(1)[rule_format]]
  by (auto simp: perform_command_def Let_def split: prod.splits fcntl_result.splits)

lemma lock_line_cases:
  "lock_line dl pid argv raw v s = Some (a, v', s') \<Longrightarrow> s' = s \<or> (\<exists>b. perform_command dl pid argv v' s = Some (b, s'))"
  unfolding lock_line_def Let_def by (auto simp only: split: if_split_asm option.splits prod.splits)

lemma lock_line_ok:
  "\<forall>f. table_ok (tables s f) \<Longrightarrow> lock_line dl pid argv raw v s = Some (a, v', s') \<Longrightarrow> \<forall>f. table_ok (tables s' f)"
  using perform_command_ok lock_line_cases by metis

lemma table_ok_subset: "set tab' \<subseteq> set tab \<Longrightarrow> table_ok tab \<Longrightarrow> table_ok tab'"
  unfolding table_ok_def by blast

lemma release_locks_ok: "\<forall>f. table_ok (tables s f) \<Longrightarrow> \<forall>f. table_ok (tables (release_locks pid s) f)"
  by (auto simp: release_locks_def intro: table_ok_subset[rotated])

interpretation lockers: interleaved "locker_next dl" "\<lambda>s ps. \<forall>f. table_ok (tables s f)" for dl
proof
  fix s ps i p t
  assume "\<forall>f. table_ok (tables s f)" "locker_next dl (ps ! i) s = Some (p, t)"
  then show "\<forall>f. table_ok (tables t f)"
    using lock_line_ok release_locks_ok by (cases "(dl, ps ! i, s)" rule: locker_next.cases) (auto split: option.splits)
qed

lemma table_ok_exclusive:
  assumes "table_ok tab" "holds tab a x = Some F_WRLCK" "b \<noteq> a"
  shows "holds tab b x = None"
proof (rule ccontr)
  assume "holds tab b x \<noteq> None"
  then obtain m where m: "m \<in> set tab" "covers b x m" by (auto simp: holds_None_iff)
  obtain l where l: "l \<in> set tab" "covers a x l" "pl_type l = F_WRLCK" using assms(2) holds_iff[OF assms(1)] by blast
  then have "overlaps (pl_start l) (pl_end l) m" using m by (simp add: overlaps_def covers_def)
  then show False using assms(1,3) l m unfolding table_ok_def covers_def by (metis l_type.distinct(1))
qed

section \<open>Commands are carried out as they are typed\<close>

text \<open>A command line as a user types it; with several files it begins with the number of the file.\<close>

definition command_line :: "bool \<Rightarrow> cmd_vars \<Rightarrow> string" where
  "command_line single v = (if single then [] else show_int (fileNum v) @ '' '') @ [cmdCh v, CHR '' '', lock v, CHR '' ''] @
     show_int (st v) @ '' '' @ show_int (len v) @ [CHR '' '', whence v, CHR 0x0A]"

definition valid_command :: "nat \<Rightarrow> cmd_vars \<Rightarrow> bool" where
  "valid_command argc v \<longleftrightarrow> 2 \<le> argc \<and> argc < 2 ^ 31 \<and> 1 \<le> fileNum v \<and> fileNum v < int argc \<and> cmdCh v \<in> set ''gswGSW'' \<and>
     lock v \<in> set ''rwu'' \<and> whence v \<in> set ''sce'' \<and> LONG_MIN \<le> st v \<and> st v \<le> LONG_MAX \<and> LONG_MIN \<le> len v \<and> len v \<le> LONG_MAX"

lemma sscanf_number:
  "LONG_MIN \<le> n \<Longrightarrow> n \<le> LONG_MAX \<Longrightarrow> list_all isspace sp \<Longrightarrow>
    sscanf_fields (Conv_number # cs) (sp @ show_int n @ CHR '' '' # r) = Inr n # sscanf_fields cs (CHR '' '' # r)"
  using scan_number_show[of n "CHR '' '' # r" sp] by (simp add: isdigit_def isalpha_def islower_def isupper_def)

lemma sscanf_space: "sscanf_fields (Conv_char # cs) (CHR '' '' # r) = sscanf_fields (Conv_char # cs) r"
  by (simp add: isspace_def)

lemma command_chars: "c \<in> set ''gswGSWrwusce'' \<Longrightarrow> \<not> isspace c \<and> c \<noteq> CHR ''?''"
  by (auto simp: isspace_def)

lemma sscanf_command:
  assumes "valid_command argc v"
  shows "sscanf_fields [Conv_char, Conv_char, Conv_number, Conv_number, Conv_char] (butlast (command_line True v)) =
      [Inl (cmdCh v), Inl (lock v), Inr (st v), Inr (len v), Inl (whence v)]"
    "sscanf_fields [Conv_number, Conv_char, Conv_char, Conv_number, Conv_number, Conv_char] (butlast (command_line False v)) =
      [Inr (fileNum v), Inl (cmdCh v), Inl (lock v), Inr (st v), Inr (len v), Inl (whence v)]"
proof -
  have c: "\<not> isspace (cmdCh v)" "\<not> isspace (lock v)" "\<not> isspace (whence v)"
    using assms command_chars[of "cmdCh v"] command_chars[of "lock v"] command_chars[of "whence v"] by (auto simp: valid_command_def)
  have n: "LONG_MIN \<le> st v" "st v \<le> LONG_MAX" "LONG_MIN \<le> len v" "len v \<le> LONG_MAX" "LONG_MIN \<le> fileNum v" "fileNum v \<le> LONG_MAX"
    using assms by (simp_all add: valid_command_def LONG_MIN_def LONG_MAX_def)
  have sp: "list_all isspace '' ''" "list_all isspace []" and isp: "isspace CHR '' ''" by (simp_all add: isspace_def)
  have tl: "sscanf_fields [Conv_char, Conv_char, Conv_number, Conv_number, Conv_char]
      (cmdCh v # CHR '' '' # lock v # CHR '' '' # show_int (st v) @ CHR '' '' # show_int (len v) @ '' '' @ [whence v]) =
      [Inl (cmdCh v), Inl (lock v), Inr (st v), Inr (len v), Inl (whence v)]"
    using c sscanf_number[OF n(1,2) sp(1), of "[Conv_number, Conv_char]" "show_int (len v) @ '' '' @ [whence v]"]
      sscanf_number[OF n(3,4) sp(1), of "[Conv_char]" "[whence v]"] by (simp add: isp del: sscanf_fields.simps(3))
  have b: "butlast (command_line True v) = cmdCh v # CHR '' '' # lock v # CHR '' '' # show_int (st v) @ CHR '' '' # show_int (len v) @ '' '' @ [whence v]"
    "butlast (command_line False v) = show_int (fileNum v) @ CHR '' '' # butlast (command_line True v)"
    by (simp_all add: command_line_def butlast_append)
  then show "sscanf_fields [Conv_char, Conv_char, Conv_number, Conv_number, Conv_char] (butlast (command_line True v)) =
      [Inl (cmdCh v), Inl (lock v), Inr (st v), Inr (len v), Inl (whence v)]" using tl by simp
  then show "sscanf_fields [Conv_number, Conv_char, Conv_char, Conv_number, Conv_number, Conv_char] (butlast (command_line False v)) =
      [Inr (fileNum v), Inl (cmdCh v), Inl (lock v), Inr (st v), Inr (len v), Inl (whence v)]"
    using sscanf_number[OF n(5,6) sp(2)] b(2) by (simp add: sscanf_space del: sscanf_fields.simps)
qed

lemma lock_line_command:
  assumes "valid_command (length argv) u"
  shows "lock_line dl pid argv (command_line (length argv = 2) u) v s =
    map_option (\<lambda>(a, s'). (Some a, u, s')) (perform_command dl pid argv u s)"
proof -
  let ?l = "butlast (command_line (length argv = 2) u)"
  have u: "2 \<le> length argv" "1 \<le> fileNum u" "fileNum u < int (length argv)" "to_int32 (fileNum u) = fileNum u"
    using assms by (auto simp: valid_command_def intro!: to_int32_id simp: INT_MIN_def INT_MAX_def)
  have l: "?l \<noteq> []" "hd ?l \<noteq> CHR ''?''"
  proof -
    obtain c cs where "show_nat (nat (fileNum u)) = c # cs" "isdigit c"
      using show_nat_not_empty[of "nat (fileNum u)"] show_int_chars[of "hd (show_int (fileNum u))" "fileNum u"] show_nat_is_digit_of
      by (metis hd_show_nat isdigit_char list.exhaust_sel)
    moreover have "\<not> isdigit CHR ''?''" by (simp add: isdigit_def)
    ultimately show "?l \<noteq> []" "hd ?l \<noteq> CHR ''?''"
      using u(2) assms command_chars[of "cmdCh u"] by (auto simp: command_line_def butlast_append show_int_def valid_command_def)
  qed
  define fs where "fs = [Inl (cmdCh u), Inl (lock u), Inr (st u), Inr (len u), Inl (whence u)]"
  have "assign_fields 1 fs w = w\<lparr>cmdCh := cmdCh u, lock := lock u, st := st u, len := len u, whence := whence u\<rparr>" for w
    by (simp add: fs_def)
  then have a: "assign_fields 0 (Inr (fileNum u) # fs) (v\<lparr>whence := CHR ''s''\<rparr>) = u" using u(4) by simp
  have o: "length argv = 2 \<Longrightarrow> 1 = fileNum u" using u by simp
  have f: "sscanf_fields (if length argv = 2 then [Conv_char, Conv_char, Conv_number, Conv_number, Conv_char]
      else [Conv_number, Conv_char, Conv_char, Conv_number, Conv_number, Conv_char]) ?l =
      (if length argv = 2 then fs else Inr (fileNum u) # fs)"
    using sscanf_command[OF assms] by (simp add: fs_def)
  have b: "(if length argv = 2 then Inr 1 # (if length argv = 2 then fs else Inr (fileNum u) # fs)
      else (if length argv = 2 then fs else Inr (fileNum u) # fs)) = Inr (fileNum u) # fs" using o by simp
  have n: "4 \<le> length (if length argv = 2 then fs else Inr (fileNum u) # fs) \<and> length argv = 2 \<or>
      5 \<le> length (if length argv = 2 then fs else Inr (fileNum u) # fs) \<and> 2 < length argv" using u(1) by (simp add: fs_def)
  show ?thesis unfolding lock_line_def Let_def f b a using l n u(2,3) assms by (auto simp: valid_command_def)
qed

text \<open>The answer to a command, and what it does to the locks of the file.\<close>

definition answered ::
  "bool \<Rightarrow> lock_system \<Rightarrow> string \<Rightarrow> lock_owner \<Rightarrow> lock_cmd \<Rightarrow> flock \<Rightarrow> int \<Rightarrow> int \<Rightarrow> (lock_answer \<times> lock_system) option \<Rightarrow> bool" where
  "answered dl s name own cmd fl lo hi res =
     (let tab = tables s name; ref = refused tab own (l_type fl) lo hi;
          changed = (\<exists>tab'. res = Some (if l_type fl = F_UNLCK then Unlocked else Got_lock, s\<lparr>tables := (tables s)(name := tab')\<rparr>) \<and>
            range_set tab own (l_type fl) lo hi tab') in
      (case cmd of
         F_GETLK \<Rightarrow>
           if l_type fl = F_UNLCK then res = Some (Failed EINVAL, s)
           else if ref then \<exists>l \<in> set tab. conflicts own (l_type fl) lo hi l \<and>
             (\<exists>n p. res = Some (Denied (pl_type l) (pl_start l) n p, s) \<and> (\<forall>q. pl_owner l = Process q \<longrightarrow> p = q))
           else res = Some (Can_be_placed, s)
       | F_SETLK \<Rightarrow> if ref then res = Some (Failed_incompatible, s) else changed
       | F_SETLKW \<Rightarrow> if ref then res = (if dl then Some (Failed_deadlock, s) else None) else changed))"

lemma perform_command_answered:
  assumes v: "lock v \<in> set ''rwu''" and ok: "table_ok (tables s name)" and nm: "name = argv ! nat (fileNum v)"
    and rq: "request_of pid v = (own, cmd, fl)" and r: "lock_range 0 (fsize s name) fl = Inr (lo, hi)"
  shows "answered dl s name own cmd fl lo hi (perform_command dl pid argv v s)"
proof -
  have ty: "l_type fl = F_UNLCK \<longleftrightarrow> lock v = CHR ''u''" using rq v by (auto simp: request_of_def)
  have p: "perform_command dl pid argv v s = (case fcntl_lock dl own 0 (fsize s name) cmd fl (tables s name) of
         Lock_blocks \<Rightarrow> None
       | Lock_done fl' tab \<Rightarrow> Some (answer_of cmd (lock v) (Lock_done fl' tab), s\<lparr>tables := (tables s)(name := tab)\<rparr>)
       | Lock_error e \<Rightarrow> Some (answer_of cmd (lock v) (Lock_error e), s))"
    by (simp add: perform_command_def rq nm[symmetric] Let_def)
  have same: "s\<lparr>tables := tables s\<rparr> = s" by simp
  show ?thesis
  proof (cases cmd)
    case F_GETLK
    show ?thesis
    proof (cases "l_type fl = F_UNLCK")
      case True
      then show ?thesis using F_GETLK by (simp add: answered_def p fcntl_lock_def r answer_of_def)
    next
      case False
      have t: "pl_type l \<noteq> F_UNLCK" if "l \<in> set (tables s name)" for l using ok that by (simp add: table_ok_def)
      then show ?thesis using fcntl_getlk[OF ok r False, of own dl] F_GETLK False
        by (auto simp: answered_def p answer_of_def Let_def same report_lock_def split: if_splits intro!: bexI)
    qed
  qed (use fcntl_setlk[OF ok r, of dl own] set_range_set[OF ok lock_range_Inr[OF r], of "l_type fl" own] ty
      in \<open>auto simp: answered_def p answer_of_def Let_def refused_def\<close>)
qed



definition example_command :: cmd_vars where
  "example_command = \<lparr>fileNum = 2, cmdCh = CHR ''s'', lock = CHR ''w'', st = 10, len = 5, whence = CHR ''s''\<rparr>"


text \<open>Two sessions: the first locks a range for writing, the second is refused there.\<close>

definition two_lockers :: "lock_system \<times> locker list" where
  "two_lockers = (\<lparr>tables = (\<lambda>f. []), fsize = (\<lambda>f. 0)\<rparr>,
     [Locker 7 [''i_fcntl_locking'', ''a''] [''s w 0 10'' @ [CHR 0x0A]] example_command [],
      Locker 8 [''i_fcntl_locking'', ''a''] [''s r 5 2'' @ [CHR 0x0A]] example_command []])"


end
