(* ===== verification/Pid_File.thy ===== *)
theory Pid_File
  imports Lock_Programs
begin

text \<open>
  \<^verbatim>\<open>createPidFile\<close> (\<^verbatim>\<open>tlpi-dist/filelock/create_pid_file.c\<close>): a program makes sure that only one instance of it
  runs, by a lock on a file that holds the process ID.
\<close>

section \<open>The function and its callers\<close>

text \<open>
  Instances of a program that create the same PID file.  The name refers to a file, or to none; the files
  have contents and lock tables.  An instance is a process with the flags of the call, the place in the
  function, the file it has opened, and the descriptor flag.  When it has returned from the function it
  runs for any time and then exits; the caller is asked to delete the file before, and the model has both
  callers that do and that do not.
\<close>

record pid_files =
  named :: "nat option"
  contents :: "string list"
  ltables :: "lock_table list"

datatype pid_pc = PF_open | PF_getfd | PF_setfd | PF_lock | PF_truncate | PF_write | PF_running | PF_unlinked | PF_refused | PF_gone

datatype instance_proc = Instance (ipid: int) (iflags: nat) (ipc: pid_pc) (ifile: nat) (icloexec: bool)

definition CPF_CLOEXEC :: nat where
  "CPF_CLOEXEC = 1"

definition whole_file :: "int \<Rightarrow> string \<Rightarrow> lock_table \<Rightarrow> (int \<times> lock_errno option \<times> lock_table) option" where
  "whole_file pid text tab = lockRegion pid 0 (int (length text)) F_WRLCK SEEK_SET 0 0 tab"

fun createPidFile :: "pid_pc \<Rightarrow> int \<Rightarrow> nat \<Rightarrow> nat \<Rightarrow> bool \<Rightarrow> pid_files \<Rightarrow> (instance_proc \<times> pid_files) option" where
  "createPidFile PF_open pid flags fd cl s =
     (case named s of
        Some i \<Rightarrow> Some (Instance pid flags PF_getfd i False, s)
      | None \<Rightarrow> Some (Instance pid flags PF_getfd (length (contents s)) False,
          \<lparr>named = Some (length (contents s)), contents = contents s @ [[]], ltables = ltables s @ [[]]\<rparr>))"
| "createPidFile PF_getfd pid flags fd cl s =
     Some (Instance pid flags (if flags mod 2 = CPF_CLOEXEC then PF_setfd else PF_lock) fd cl, s)"
| "createPidFile PF_setfd pid flags fd cl s = Some (Instance pid flags PF_lock fd True, s)"
| "createPidFile PF_lock pid flags fd cl s =
     (case whole_file pid (contents s ! fd) (ltables s ! fd) of
        Some (status, e, tab) \<Rightarrow>
          if status = -1 then Some (Instance pid flags PF_refused fd cl, s)
          else Some (Instance pid flags PF_truncate fd cl, s\<lparr>ltables := (ltables s)[fd := tab]\<rparr>)
      | None \<Rightarrow> None)"
| "createPidFile PF_truncate pid flags fd cl s = Some (Instance pid flags PF_write fd cl, s\<lparr>contents := (contents s)[fd := []]\<rparr>)"
| "createPidFile PF_write pid flags fd cl s =
     (let buf = show_int pid @ [CHR 0x0A] in
      Some (Instance pid flags PF_running fd cl, s\<lparr>contents := (contents s)[fd := buf @ drop (length buf) (contents s ! fd)]\<rparr>))"
| "createPidFile pc pid flags fd cl s = None"

definition exit_instance :: "int \<Rightarrow> nat \<Rightarrow> pid_files \<Rightarrow> pid_files" where
  "exit_instance pid fd s = s\<lparr>ltables := (ltables s)[fd := filter (\<lambda>l. pl_owner l \<noteq> Process pid) (ltables s ! fd)]\<rparr>"

fun instance_next :: "bool \<Rightarrow> instance_proc \<Rightarrow> pid_files \<Rightarrow> (instance_proc \<times> pid_files) option" where
  "instance_next deletes (Instance pid flags pc fd cl) s =
     (case pc of
        PF_running \<Rightarrow>
          if deletes then Some (Instance pid flags PF_unlinked fd cl, s\<lparr>named := None\<rparr>)
          else Some (Instance pid flags PF_gone fd cl, exit_instance pid fd s)
      | PF_unlinked \<Rightarrow> Some (Instance pid flags PF_gone fd cl, exit_instance pid fd s)
      | _ \<Rightarrow> createPidFile pc pid flags fd cl s)"

definition no_pid_file :: pid_files where
  "no_pid_file = \<lparr>named = None, contents = [], ltables = []\<rparr>"

definition starting :: "(int \<times> nat) list \<Rightarrow> instance_proc list" where
  "starting is = map (\<lambda>(pid, flags). Instance pid flags PF_open 0 False) is"

text \<open>An instance that has the lock.\<close>

definition owns_file :: "instance_proc \<Rightarrow> bool" where
  "owns_file p \<longleftrightarrow> ipc p \<in> {PF_truncate, PF_write, PF_running}"

definition whole_locked :: "lock_table \<Rightarrow> int \<Rightarrow> bool" where
  "whole_locked tab pid \<longleftrightarrow> (\<forall>x. 0 \<le> x \<and> x \<le> OFFSET_MAX \<longrightarrow> holds tab (Process pid) x = Some F_WRLCK)"

definition instance_ok :: "pid_files \<Rightarrow> instance_proc \<Rightarrow> bool" where
  "instance_ok s p \<longleftrightarrow> (ipc p \<noteq> PF_open \<longrightarrow> named s = Some 0 \<and> ifile p = 0) \<and> ipc p \<noteq> PF_unlinked \<and>
     (owns_file p \<longrightarrow> whole_locked (hd (ltables s)) (ipid p)) \<and>
     (ipc p = PF_write \<longrightarrow> hd (contents s) = []) \<and> (ipc p = PF_running \<longrightarrow> hd (contents s) = show_int (ipid p) @ [CHR 0x0A])"

text \<open>There is one file at most; all locks are those of instances that own it.\<close>

definition pid_inv :: "pid_files \<Rightarrow> instance_proc list \<Rightarrow> bool" where
  "pid_inv s ps \<longleftrightarrow> distinct (map ipid ps) \<and> list_all (instance_ok s) ps \<and>
     (s = no_pid_file \<or> named s = Some 0 \<and> length (contents s) = 1 \<and> length (ltables s) = 1) \<and>
     list_all table_ok (ltables s) \<and>
     (\<forall>l \<in> set (concat (ltables s)). \<exists>p \<in> set ps. owns_file p \<and> pl_owner l = Process (ipid p))"

lemma whole_file_cases:
  assumes "table_ok tab"
  shows "if blocked tab (Process pid) F_WRLCK 0 OFFSET_MAX then whole_file pid txt tab = Some (-1, Some EAGAIN, tab)
    else \<exists>tab'. whole_file pid txt tab = Some (0, None, tab') \<and> range_set tab (Process pid) F_WRLCK 0 OFFSET_MAX tab' \<and>
      tab' = set_range (Process pid) F_WRLCK 0 OFFSET_MAX tab"
proof -
  have e: "region_end 0 0 = OFFSET_MAX" by (simp add: region_end_def)
  have r: "lock_range 0 (int (length txt)) \<lparr>l_type = F_WRLCK, l_whence = SEEK_SET, l_start = 0, l_len = 0, l_pid = 0\<rparr> = Inr (0, OFFSET_MAX)"
    using lock_range_region[of 0 0] by (simp add: e INT_MAX_def)
  show ?thesis using fcntl_setlk(1)[OF assms r, of False "Process pid"] set_range_set[OF assms lock_range_Inr[OF r], of F_WRLCK "Process pid"]
    by (simp add: whole_file_def lockRegion_def lockReg_def refused_def)
qed

lemma pid_inv_owner:
  "pid_inv s ps \<Longrightarrow> l \<in> set (concat (ltables s)) \<Longrightarrow> \<exists>p \<in> set ps. owns_file p \<and> pl_owner l = Process (ipid p)"
  unfolding pid_inv_def by (elim conjE) (erule bspec)

lemma owner_unique:
  assumes "pid_inv s ps" "i < length ps" "j < length ps" "owns_file (ps ! i)" "owns_file (ps ! j)"
  shows "i = j"
proof -
  have ok: "instance_ok s (ps ! i)" "instance_ok s (ps ! j)" using assms by (simp_all add: pid_inv_def list_all_length)
  have "ipc (ps ! i) \<noteq> PF_open" using assms(4) by (auto simp: owns_file_def)
  then have "named s = Some 0" using ok(1) by (simp add: instance_ok_def)
  then have t: "table_ok (hd (ltables s))" using assms(1) by (cases "ltables s") (auto simp: pid_inv_def no_pid_file_def)
  have "holds (hd (ltables s)) (Process (ipid (ps ! k))) 0 = Some F_WRLCK" if "k = i \<or> k = j" for k
    using ok assms(4,5) that by (auto simp: instance_ok_def whole_locked_def OFFSET_MAX_def LONG_MAX_def)
  then have "ipid (ps ! i) = ipid (ps ! j)" using table_ok_exclusive[OF t] by (metis lock_owner.inject(1) option.distinct(1))
  then show ?thesis using assms(1-3) nth_eq_iff_index_eq[of "map ipid ps" i j] by (simp add: pid_inv_def)
qed

lemma pid_inv_only:
  assumes inv: "pid_inv s ps" and i: "i < length ps" and p: "ps ! i = Instance pid flags pc fd cl" "pc \<noteq> PF_open" "pc \<noteq> PF_unlinked"
  obtains c tab where "s = \<lparr>named = Some 0, contents = [c], ltables = [tab]\<rparr>" "fd = 0" "table_ok tab"
proof -
  have "instance_ok s (ps ! i)" using inv i by (simp add: pid_inv_def list_all_length)
  then have n: "named s = Some 0" "fd = 0" using p by (simp_all add: instance_ok_def)
  then have "length (contents s) = 1" "length (ltables s) = 1" using inv by (auto simp: pid_inv_def no_pid_file_def)
  then obtain c tab where "contents s = [c]" "ltables s = [tab]" by (auto simp: length_Suc_conv)
  moreover have "table_ok tab" using inv calculation by (simp add: pid_inv_def)
  ultimately show ?thesis using that n by (cases s) auto
qed

text \<open>
  A change by an instance that owns the file, or gets or loses it while no other owns it: the others need only
  the fields that are not changed.
\<close>

lemma pid_inv_change:
  assumes inv: "pid_inv s ps" and i: "i < length ps" and s: "s = \<lparr>named = Some 0, contents = [c], ltables = [tab]\<rparr>"
    and own: "\<And>j. j < length ps \<Longrightarrow> j \<noteq> i \<Longrightarrow> \<not> owns_file (ps ! j)" and pid: "ipid p = ipid (ps ! i)"
    and t: "t = \<lparr>named = Some 0, contents = [c'], ltables = [tab']\<rparr>" "instance_ok t p" "table_ok tab'"
    and l: "\<forall>l \<in> set tab'. owns_file p \<and> pl_owner l = Process (ipid p)"
  shows "pid_inv t (ps[i := p])"
proof -
  have "map ipid (ps[i := p]) = map ipid ps" using pid i by (simp add: map_update list_update_same_conv)
  moreover have "list_all (instance_ok t) (ps[i := p])"
  proof -
    have "instance_ok t (ps ! j)" if j: "j < length ps" "j \<noteq> i" for j
    proof -
      have "instance_ok s (ps ! j)" using inv j by (simp add: pid_inv_def list_all_length)
      then show ?thesis using own[OF j] s t(1) by (auto simp: instance_ok_def owns_file_def)
    qed
    then show ?thesis using t(2) i by (auto simp: list_all_length nth_list_update)
  qed
  moreover have "p \<in> set (ps[i := p])" using i by (rule set_update_memI)
  ultimately show ?thesis using inv t l unfolding pid_inv_def by auto
qed

lemma pid_inv_local:
  assumes inv: "pid_inv s ps" and i: "i < length ps" and p: "ipid p = ipid (ps ! i)" "\<not> owns_file (ps ! i)" "instance_ok s p"
  shows "pid_inv s (ps[i := p])"
proof -
  have "map ipid (ps[i := p]) = map ipid ps" using p(1) i by (simp add: map_update list_update_same_conv)
  moreover have "list_all (instance_ok s) (ps[i := p])"
    using list_all_upd[of "instance_ok s" ps p i] inv p(3) by (simp add: pid_inv_def)
  moreover have "\<exists>q \<in> set (ps[i := p]). owns_file q \<and> pl_owner l = Process (ipid q)" if l: "l \<in> set (concat (ltables s))" for l
  proof -
    obtain q where "q \<in> set ps" "owns_file q \<and> pl_owner l = Process (ipid q)" using pid_inv_owner[OF inv l] by blast
    then obtain j where j: "j < length ps" "owns_file (ps ! j)" "pl_owner l = Process (ipid (ps ! j))"
      unfolding in_set_conv_nth by blast
    then have "ps[i := p] ! j = ps ! j" using p(2) by (cases "j = i") auto
    then show ?thesis using j nth_mem[of j "ps[i := p]"] by (intro bexI[of _ "ps ! j"]) simp_all
  qed
  moreover have "distinct (map ipid ps)" "s = no_pid_file \<or> named s = Some 0 \<and> length (contents s) = 1 \<and> length (ltables s) = 1"
    "list_all table_ok (ltables s)" using inv by (simp_all add: pid_inv_def)
  ultimately show ?thesis unfolding pid_inv_def by simp
qed

lemma pid_open_step:
  assumes inv: "pid_inv s ps" and i: "i < length ps" and p: "ps ! i = Instance pid flags PF_open fd cl"
    and nx: "createPidFile PF_open pid flags fd cl s = Some (q, t)"
  shows "pid_inv t (ps[i := q])"
proof (cases "named s")
  case (Some k)
  then have "k = 0" using inv by (auto simp: pid_inv_def no_pid_file_def)
  then have q: "q = Instance pid flags PF_getfd 0 False" "t = s" using Some nx by simp_all
  show ?thesis unfolding q(2) using p q Some \<open>k = 0\<close>
    by (intro pid_inv_local[OF inv i]) (simp_all add: instance_ok_def owns_file_def)
next
  case None
  then have s: "s = no_pid_file" using inv by (auto simp: pid_inv_def)
  have "ipc (ps ! j) = PF_open" if "j < length ps" for j
    using inv that None by (auto simp: pid_inv_def list_all_length instance_ok_def)
  moreover have q: "q = Instance pid flags PF_getfd 0 False" "t = \<lparr>named = Some 0, contents = [[]], ltables = [[]]\<rparr>"
    using nx s by (simp_all add: no_pid_file_def)
  ultimately have "list_all (instance_ok t) (ps[i := q])"
    using i by (auto simp: list_all_length nth_list_update instance_ok_def owns_file_def)
  moreover have "map ipid (ps[i := q]) = map ipid ps" using p q i by (simp add: map_update list_update_same_conv)
  ultimately show ?thesis using inv q by (simp add: pid_inv_def table_ok_def)
qed

lemma pid_lock_step:
  assumes inv: "pid_inv s ps" and i: "i < length ps" and p: "ps ! i = Instance pid flags PF_lock fd cl"
    and nx: "createPidFile PF_lock pid flags fd cl s = Some (q, t)"
  shows "pid_inv t (ps[i := q])" "ipc q = PF_refused \<Longrightarrow> \<exists>j < length ps. j \<noteq> i \<and> owns_file (ps ! j)"
proof -
  obtain c tab where s: "s = \<lparr>named = Some 0, contents = [c], ltables = [tab]\<rparr>" "fd = 0" "table_ok tab"
    by (rule pid_inv_only[OF inv i p]) simp_all
  have no: "\<not> owns_file (ps ! i)" using p by (simp add: owns_file_def)
  have lo: "\<exists>j < length ps. j \<noteq> i \<and> owns_file (ps ! j)" if "tab \<noteq> []"
  proof -
    have "hd tab \<in> set (concat (ltables s))" using that s(1) by (cases tab) auto
    then obtain q where "q \<in> set ps" "owns_file q" using pid_inv_owner[OF inv] by blast
    then show ?thesis using no by (metis in_set_conv_nth)
  qed
  have "pid_inv t (ps[i := q]) \<and> (ipc q = PF_refused \<longrightarrow> (\<exists>j < length ps. j \<noteq> i \<and> owns_file (ps ! j)))"
  proof (cases "blocked tab (Process pid) F_WRLCK 0 OFFSET_MAX")
    case True
    then have q: "q = Instance pid flags PF_refused 0 cl" "t = s" using nx s whole_file_cases[OF s(3), of pid c] by simp_all
    have "tab \<noteq> []" using True by (auto simp: blocked_def holds_def)
    moreover have "pid_inv s (ps[i := q])" using no p q s by (intro pid_inv_local[OF inv i]) (simp_all add: instance_ok_def owns_file_def)
    ultimately show ?thesis using lo q by simp
  next
    case False
    then obtain tab' where tab': "whole_file pid c tab = Some (0, None, tab')" "range_set tab (Process pid) F_WRLCK 0 OFFSET_MAX tab'"
        "tab' = set_range (Process pid) F_WRLCK 0 OFFSET_MAX tab"
      using whole_file_cases[OF s(3), of pid c] by auto
    have q: "q = Instance pid flags PF_truncate 0 cl" "t = \<lparr>named = Some 0, contents = [c], ltables = [tab']\<rparr>"
      using nx s tab'(1) by simp_all
    have none: "\<not> owns_file (ps ! j)" if j: "j < length ps" "j \<noteq> i" for j
    proof
      assume o: "owns_file (ps ! j)"
      have "instance_ok s (ps ! j)" using inv j by (simp add: pid_inv_def list_all_length)
      then have "holds tab (Process (ipid (ps ! j))) 0 = Some F_WRLCK"
        using o s(1) by (simp add: instance_ok_def whole_locked_def OFFSET_MAX_def LONG_MAX_def)
      moreover have "ipid (ps ! j) \<noteq> pid"
        using inv i j p nth_eq_iff_index_eq[of "map ipid ps" i j] by (auto simp: pid_inv_def)
      ultimately show False using False unfolding blocked_def by (auto simp: OFFSET_MAX_def LONG_MAX_def)
    qed
    then have "tab = []" using lo by auto
    then have l: "\<forall>l \<in> set tab'. owns_file q \<and> pl_owner l = Process (ipid q)"
      using tab'(3) q(1) by (auto simp: set_range_def Let_def owns_file_def)
    have "pid_inv t (ps[i := q])"
      by (rule pid_inv_change[OF inv i s(1) none _ q(2) _ _ l])
        (use p q tab'(2) in \<open>auto simp: instance_ok_def whole_locked_def range_set_def owns_file_def\<close>)
    then show ?thesis using q by simp
  qed
  then show "pid_inv t (ps[i := q])" "ipc q = PF_refused \<Longrightarrow> \<exists>j < length ps. j \<noteq> i \<and> owns_file (ps ! j)" by simp_all
qed

lemma only_owner:
  assumes "pid_inv s ps" "i < length ps" "owns_file (ps ! i)" "j < length ps" "j \<noteq> i"
  shows "\<not> owns_file (ps ! j)"
  using owner_unique[OF assms(1,2,4) assms(3)] assms(5) by blast

lemma owner_locks:
  assumes inv: "pid_inv s ps" and i: "i < length ps" "owns_file (ps ! i)" and l: "l \<in> set (concat (ltables s))"
  shows "pl_owner l = Process (ipid (ps ! i))"
proof -
  obtain q where q: "q \<in> set ps" "owns_file q \<and> pl_owner l = Process (ipid q)" using pid_inv_owner[OF inv l] by blast
  then obtain j where "j < length ps" "q = ps ! j" unfolding in_set_conv_nth by blast
  then show ?thesis using only_owner[OF inv i, of j] q by (cases "j = i") auto
qed

lemma pid_owner_step:
  assumes inv: "pid_inv s ps" and i: "i < length ps" and p: "ps ! i = Instance pid flags pc fd cl" "pc = PF_truncate \<or> pc = PF_write \<or> pc = PF_running"
    and nx: "instance_next False (Instance pid flags pc fd cl) s = Some (q, t)"
  shows "pid_inv t (ps[i := q])"
proof -
  have pc: "pc \<noteq> PF_open" "pc \<noteq> PF_unlinked" using p(2) by auto
  obtain c tab where s: "s = \<lparr>named = Some 0, contents = [c], ltables = [tab]\<rparr>" "fd = 0" "table_ok tab"
    by (rule pid_inv_only[OF inv i p(1) pc])
  have own: "owns_file (ps ! i)" using p by (auto simp: owns_file_def)
  have ok: "instance_ok s (ps ! i)" using inv i by (simp add: pid_inv_def list_all_length)
  have wl: "whole_locked tab pid" using ok own p(1) s(1) by (simp add: instance_ok_def)
  have l: "\<forall>l \<in> set tab. pl_owner l = Process pid" using owner_locks[OF inv i own] s(1) p(1) by simp
  note change = pid_inv_change[OF inv i s(1) only_owner[OF inv i own]]
  from p(2) show ?thesis
  proof (elim disjE)
    assume "pc = PF_truncate"
    then have q: "q = Instance pid flags PF_write 0 cl" "t = \<lparr>named = Some 0, contents = [[]], ltables = [tab]\<rparr>" using nx s by simp_all
    show ?thesis by (rule change[OF _ _ _ q(2)]) (use q p s wl l in \<open>simp_all add: instance_ok_def owns_file_def\<close>)
  next
    assume pw: "pc = PF_write"
    then have "c = []" using ok p(1) s(1) by (simp add: instance_ok_def)
    then have q: "q = Instance pid flags PF_running 0 cl" "t = \<lparr>named = Some 0, contents = [show_int pid @ [CHR 0x0A]], ltables = [tab]\<rparr>"
      using nx s pw by (simp_all add: Let_def)
    show ?thesis by (rule change[OF _ _ _ q(2)]) (use q p s wl l in \<open>simp_all add: instance_ok_def owns_file_def\<close>)
  next
    assume "pc = PF_running"
    then have q: "q = Instance pid flags PF_gone 0 cl" "t = \<lparr>named = Some 0, contents = [c], ltables = [[]]\<rparr>"
      using nx s l by (simp_all add: exit_instance_def)
    show ?thesis by (rule change[OF _ _ _ q(2)]) (use q p s in \<open>simp_all add: instance_ok_def owns_file_def table_ok_def\<close>)
  qed
qed

lemma pid_step:
  assumes inv: "pid_inv s ps" and i: "i < length ps" and nx: "instance_next False (ps ! i) s = Some (q, t)"
  shows "pid_inv t (ps[i := q])"
proof -
  obtain pid flags pc fd cl where p: "ps ! i = Instance pid flags pc fd cl" by (cases "ps ! i")
  have ok: "instance_ok s (ps ! i)" using inv i by (simp add: pid_inv_def list_all_length)
  consider "pc = PF_open" | "pc = PF_getfd \<or> pc = PF_setfd" | "pc = PF_lock" | "pc = PF_truncate \<or> pc = PF_write \<or> pc = PF_running"
    | "pc \<in> {PF_unlinked, PF_refused, PF_gone}" by (cases pc) auto
  then show ?thesis
  proof cases
    case 1
    then show ?thesis using pid_open_step[OF inv i] p nx by simp
  next
    case 2
    then have q: "t = s" "ipid q = pid" "ifile q = fd" "ipc q = PF_setfd \<or> ipc q = PF_lock" using nx p by (auto split: if_splits)
    show ?thesis unfolding q(1) using 2 p ok q by (intro pid_inv_local[OF inv i]) (auto simp: instance_ok_def owns_file_def)
  next
    case 3
    then show ?thesis using pid_lock_step(1)[OF inv i] p nx by simp
  next
    case 4
    then show ?thesis using pid_owner_step[OF inv i p] nx p by simp
  next
    case 5
    then show ?thesis using nx p ok by (auto simp: instance_ok_def)
  qed
qed

interpretation pid_instances: interleaved "instance_next False" pid_inv
  by unfold_locales (rule pid_step)

lemma starting_inv: "distinct (map fst is) \<Longrightarrow> pid_inv no_pid_file (starting is)"
  by (auto simp: pid_inv_def starting_def no_pid_file_def instance_ok_def owns_file_def list_all_iff comp_def case_prod_beta)




end
