(* ===== verification/Getopt.thy ===== *)
theory Getopt
  imports C_Strings
begin

text \<open>
  \<^verbatim>\<open>getopt\<close> as the programs use it: the options of a command line in the order in which the calls return
  them, and the arguments that are left from \<^verbatim>\<open>optind\<close> on.  A specification that begins with a plus stops at the
  first argument that is no option; otherwise such arguments are moved behind the options.
\<close>

section \<open>The scan\<close>

datatype opt_result = Opt char "string option" | Bad_opt char | No_arg char

text \<open>Whether a character is an option, and whether it takes an argument.\<close>

fun spec_find :: "string \<Rightarrow> char \<Rightarrow> bool option" where
  "spec_find [] c = None"
| "spec_find (d # ds) c = (if d = c \<and> c \<noteq> CHR '':'' then Some (ds \<noteq> [] \<and> hd ds = CHR '':'') else spec_find ds c)"

text \<open>The characters of one argument, with the arguments that follow it.\<close>

fun getopt_cluster :: "string \<Rightarrow> string \<Rightarrow> string list \<Rightarrow> opt_result list \<times> string list" where
  "getopt_cluster spec [] as = ([], as)"
| "getopt_cluster spec (c # cs) as =
     (case spec_find spec c of
        None \<Rightarrow> (case getopt_cluster spec cs as of (rs, as') \<Rightarrow> (Bad_opt c # rs, as'))
      | Some False \<Rightarrow> (case getopt_cluster spec cs as of (rs, as') \<Rightarrow> (Opt c None # rs, as'))
      | Some True \<Rightarrow>
          if cs \<noteq> [] then ([Opt c (Some cs)], as)
          else (case as of [] \<Rightarrow> ([No_arg c], []) | a # as' \<Rightarrow> ([Opt c (Some a)], as')))"

lemma getopt_cluster_length: "length (snd (getopt_cluster spec cs as)) \<le> length as"
  by (induction spec cs as rule: getopt_cluster.induct) (auto split: option.splits bool.splits prod.splits list.splits)

lemma getopt_cluster_shorter: "(rs, as') = getopt_cluster spec cs as \<Longrightarrow> length as' \<le> length as"
  using getopt_cluster_length[of spec cs as] by (metis snd_conv)

definition is_option :: "string \<Rightarrow> bool" where
  "is_option a \<longleftrightarrow> (case a of c # d # cs \<Rightarrow> c = CHR ''-'' | _ \<Rightarrow> False)"

function getopt_scan :: "bool \<Rightarrow> string \<Rightarrow> string list \<Rightarrow> opt_result list \<times> string list" where
  "getopt_scan posix spec [] = ([], [])"
| "getopt_scan posix spec (a # as) =
     (if a = ''--'' then ([], as)
      else if is_option a then
        (case getopt_cluster spec (tl a) as of (rs, as') \<Rightarrow>
         (case getopt_scan posix spec as' of (rs', ops) \<Rightarrow> (rs @ rs', ops)))
      else if posix then ([], a # as)
      else (case getopt_scan posix spec as of (rs, ops) \<Rightarrow> (rs, a # ops)))"
  by pat_completeness auto
termination
  by (relation "measure (\<lambda>(p, s, as). length as)") (auto simp: less_Suc_eq_le dest: getopt_cluster_shorter)

definition getopt :: "string \<Rightarrow> string list \<Rightarrow> opt_result list \<times> string list" where
  "getopt spec argv =
     (if spec \<noteq> [] \<and> hd spec = CHR ''+'' then getopt_scan True (tl spec) (tl argv) else getopt_scan False spec (tl argv))"

section \<open>Command lines that are written from options\<close>

text \<open>Some options without an argument in one word, or an option with its argument, attached or not.\<close>

datatype opt_word = Flags string | With_arg char string bool

fun opt_words :: "opt_word \<Rightarrow> string list" where
  "opt_words (Flags cs) = [CHR ''-'' # cs]"
| "opt_words (With_arg c v att) = (if att then [CHR ''-'' # c # v] else [[CHR ''-'', c], v])"

fun word_options :: "opt_word \<Rightarrow> opt_result list" where
  "word_options (Flags cs) = map (\<lambda>c. Opt c None) cs"
| "word_options (With_arg c v att) = [Opt c (Some v)]"

fun word_ok :: "string \<Rightarrow> opt_word \<Rightarrow> bool" where
  "word_ok spec (Flags cs) = (cs \<noteq> [] \<and> CHR ''-'' \<notin> set cs \<and> list_all (\<lambda>c. spec_find spec c = Some False) cs)"
| "word_ok spec (With_arg c v att) = (c \<noteq> CHR ''-'' \<and> spec_find spec c = Some True \<and> (att \<longrightarrow> v \<noteq> []))"

lemma cluster_flags: "list_all (\<lambda>c. spec_find spec c = Some False) cs \<Longrightarrow> getopt_cluster spec cs as = (map (\<lambda>c. Opt c None) cs, as)"
  by (induction cs) auto

lemma scan_word:
  assumes "word_ok spec w"
  shows "getopt_scan posix spec (opt_words w @ as) = (case getopt_scan posix spec as of (rs, ops) \<Rightarrow> (word_options w @ rs, ops))"
proof (cases w)
  case (Flags cs)
  moreover have "is_option (CHR ''-'' # cs)" "CHR ''-'' # cs \<noteq> ''--''" using assms Flags by (cases cs; auto simp: is_option_def)+
  ultimately show ?thesis using assms cluster_flags[of spec cs as] by simp
next
  case (With_arg c v att)
  then show ?thesis using assms by (auto simp: is_option_def)
qed

lemma scan_words:
  assumes "list_all (word_ok spec) ws"
  shows "getopt_scan posix spec (concat (map opt_words ws) @ as) =
    (case getopt_scan posix spec as of (rs, ops) \<Rightarrow> (concat (map word_options ws) @ rs, ops))"
  using assms by (induction ws) (auto simp: scan_word split: prod.splits)

lemma scan_operands:
  "list_all (\<lambda>a. \<not> is_option a) ops \<Longrightarrow> getopt_scan posix spec ops = ([], ops)"
  by (induction ops) (auto simp: is_option_def)

lemma scan_command: "\<not> is_option c \<Longrightarrow> getopt_scan True spec (c # as) = ([], c # as)"
  by (auto simp: is_option_def)

text \<open>All ways to write options before operands, or before a command with its own options, are understood.\<close>

lemma getopt_written:
  assumes "list_all (word_ok spec) ws" "list_all (\<lambda>a. \<not> is_option a) ops" "spec = [] \<or> hd spec \<noteq> CHR ''+''"
  shows "getopt spec (prog # concat (map opt_words ws) @ ops) = (concat (map word_options ws), ops)"
  using assms by (auto simp: getopt_def scan_words scan_operands)

lemma getopt_command:
  assumes "list_all (word_ok spec) ws" "\<not> is_option c"
  shows "getopt (CHR ''+'' # spec) (prog # concat (map opt_words ws) @ c # as) = (concat (map word_options ws), c # as)"
  using assms by (simp add: getopt_def scan_words scan_command del: getopt_scan.simps)

end
