(* ===== verification/Capabilities.thy ===== *)
theory Capabilities
  imports Getopt "HOL-Library.Word"
begin

unbundle bit_operations_syntax

text \<open>
  Capabilities (\<^verbatim>\<open>tlpi-dist/cap\<close>): the functions of \<^verbatim>\<open>cap_functions.c\<close>, the programs \<^verbatim>\<open>cap_text.c\<close>,
  \<^verbatim>\<open>cap_launcher.c\<close>, \<^verbatim>\<open>show_secbits.c\<close> and \<^verbatim>\<open>check_password_caps.c\<close>, and \<^verbatim>\<open>cred_launcher.c\<close> (\<^verbatim>\<open>tlpi-dist/namespaces\<close>).
  The credentials of a process and the system calls on them follow the documented rules of the kernel.
  Capability names are translated by \<^verbatim>\<open>libcap\<close>, which is a parameter where it is used.
\<close>

section \<open>Credentials and the system calls on them\<close>

definition CAP_LAST_CAP :: nat where
  "CAP_LAST_CAP = 40"

definition CAP_SETGID :: nat where
  "CAP_SETGID = 6"

definition CAP_SETUID :: nat where
  "CAP_SETUID = 7"

definition CAP_SETPCAP :: nat where
  "CAP_SETPCAP = 8"

record cred =
  permitted :: "nat set"
  effective :: "nat set"
  inheritable :: "nat set"
  bounding :: "nat set"
  ambient :: "nat set"
  securebits :: "32 word"
  uids :: "nat \<times> nat \<times> nat"
  gids :: "nat \<times> nat \<times> nat"
  groups :: "nat list"

definition SECBIT_NOROOT :: "32 word" where
  "SECBIT_NOROOT = 0x1"

definition SECBIT_NOROOT_LOCKED :: "32 word" where
  "SECBIT_NOROOT_LOCKED = 0x2"

definition SECBIT_NO_SETUID_FIXUP :: "32 word" where
  "SECBIT_NO_SETUID_FIXUP = 0x4"

definition SECBIT_NO_SETUID_FIXUP_LOCKED :: "32 word" where
  "SECBIT_NO_SETUID_FIXUP_LOCKED = 0x8"

definition SECBIT_KEEP_CAPS :: "32 word" where
  "SECBIT_KEEP_CAPS = 0x10"

definition SECBIT_KEEP_CAPS_LOCKED :: "32 word" where
  "SECBIT_KEEP_CAPS_LOCKED = 0x20"

definition SECBIT_NO_CAP_AMBIENT_RAISE :: "32 word" where
  "SECBIT_NO_CAP_AMBIENT_RAISE = 0x40"

definition SECBIT_NO_CAP_AMBIENT_RAISE_LOCKED :: "32 word" where
  "SECBIT_NO_CAP_AMBIENT_RAISE_LOCKED = 0x80"

lemmas secbit_defs = SECBIT_NOROOT_def SECBIT_NOROOT_LOCKED_def SECBIT_NO_SETUID_FIXUP_def SECBIT_NO_SETUID_FIXUP_LOCKED_def
  SECBIT_KEEP_CAPS_def SECBIT_KEEP_CAPS_LOCKED_def SECBIT_NO_CAP_AMBIENT_RAISE_def SECBIT_NO_CAP_AMBIENT_RAISE_LOCKED_def

definition SECURE_ALL_LOCKS :: "32 word" where
  "SECURE_ALL_LOCKS = 0xAA"

definition secure :: "32 word \<Rightarrow> cred \<Rightarrow> bool" where
  "secure b c \<longleftrightarrow> securebits c AND b \<noteq> 0"

text \<open>\<^verbatim>\<open>capset\<close>; a system call that the kernel refuses has no value.\<close>

definition capset :: "nat set \<Rightarrow> nat set \<Rightarrow> nat set \<Rightarrow> cred \<Rightarrow> cred option" where
  "capset p e i c =
     (if (CAP_SETPCAP \<in> effective c \<or> i \<subseteq> inheritable c \<union> permitted c) \<and> i \<subseteq> inheritable c \<union> bounding c \<and>
         p \<subseteq> permitted c \<and> e \<subseteq> p
      then Some (c\<lparr>permitted := p, effective := e, inheritable := i, ambient := ambient c \<inter> p \<inter> i\<rparr>) else None)"

definition ambient_raise :: "nat \<Rightarrow> cred \<Rightarrow> cred option" where
  "ambient_raise cap c =
     (if cap \<le> CAP_LAST_CAP \<and> cap \<in> permitted c \<and> cap \<in> inheritable c \<and> \<not> secure SECBIT_NO_CAP_AMBIENT_RAISE c
      then Some (c\<lparr>ambient := insert cap (ambient c)\<rparr>) else None)"

definition ambient_lower :: "nat \<Rightarrow> cred \<Rightarrow> cred option" where
  "ambient_lower cap c = (if cap \<le> CAP_LAST_CAP then Some (c\<lparr>ambient := ambient c - {cap}\<rparr>) else None)"

definition capbset_drop :: "nat \<Rightarrow> cred \<Rightarrow> cred option" where
  "capbset_drop cap c =
     (if CAP_SETPCAP \<in> effective c \<and> cap \<le> CAP_LAST_CAP then Some (c\<lparr>bounding := bounding c - {cap}\<rparr>) else None)"

definition set_securebits_call :: "32 word \<Rightarrow> cred \<Rightarrow> cred option" where
  "set_securebits_call b c =
     (if drop_bit 1 (securebits c AND SECURE_ALL_LOCKS) AND (securebits c XOR b) \<noteq> 0 \<or>
         securebits c AND SECURE_ALL_LOCKS AND NOT b \<noteq> 0 \<or> b AND NOT 0xFF \<noteq> 0 \<or> CAP_SETPCAP \<notin> effective c
      then None else Some (c\<lparr>securebits := b\<rparr>))"

text \<open>The change of capabilities when user IDs change from or to zero.\<close>

definition setuid_fixup :: "cred \<Rightarrow> cred \<Rightarrow> cred" where
  "setuid_fixup old c =
     (if secure SECBIT_NO_SETUID_FIXUP old then c
      else
        let (r, e, s) = uids old; (r', e', s') = uids c;
            c1 = (if (r = 0 \<or> e = 0 \<or> s = 0) \<and> r' \<noteq> 0 \<and> e' \<noteq> 0 \<and> s' \<noteq> 0 then
                    (if secure SECBIT_KEEP_CAPS old then c\<lparr>ambient := {}\<rparr> else c\<lparr>permitted := {}, effective := {}, ambient := {}\<rparr>)
                  else c);
            c2 = (if e = 0 \<and> e' \<noteq> 0 then c1\<lparr>effective := {}\<rparr> else c1)
        in if e \<noteq> 0 \<and> e' = 0 then c2\<lparr>effective := permitted c2\<rparr> else c2)"

text \<open>An ID of -1 stands for the old one.\<close>

definition new_id :: "nat \<Rightarrow> nat \<Rightarrow> nat" where
  "new_id i old = (if i = 2 ^ 32 - 1 then old else i)"

definition setresuid :: "nat \<Rightarrow> nat \<Rightarrow> nat \<Rightarrow> cred \<Rightarrow> cred option" where
  "setresuid r e s c =
     (let (r0, e0, s0) = uids c; ids = (new_id r r0, new_id e e0, new_id s s0) in
      if CAP_SETUID \<in> effective c \<or> {new_id r r0, new_id e e0, new_id s s0} \<subseteq> {r0, e0, s0}
      then Some (setuid_fixup c (c\<lparr>uids := ids\<rparr>)) else None)"

definition setresgid :: "nat \<Rightarrow> nat \<Rightarrow> nat \<Rightarrow> cred \<Rightarrow> cred option" where
  "setresgid r e s c =
     (let (r0, e0, s0) = gids c in
      if CAP_SETGID \<in> effective c \<or> {new_id r r0, new_id e e0, new_id s s0} \<subseteq> {r0, e0, s0}
      then Some (c\<lparr>gids := (new_id r r0, new_id e e0, new_id s s0)\<rparr>) else None)"

definition setgroups :: "nat list \<Rightarrow> cred \<Rightarrow> cred option" where
  "setgroups gs c = (if CAP_SETGID \<in> effective c then Some (c\<lparr>groups := gs\<rparr>) else None)"

text \<open>Executing a program file that has no capabilities and no set-ID bits.\<close>

definition exec_plain :: "cred \<Rightarrow> cred" where
  "exec_plain c =
     (let (r, e, s) = uids c; root = (\<not> secure SECBIT_NOROOT c \<and> (r = 0 \<or> e = 0));
          p = (if root then inheritable c \<union> bounding c \<union> ambient c else ambient c)
      in c\<lparr>permitted := p, effective := (if root \<and> e = 0 then p else ambient c),
           securebits := securebits c AND NOT SECBIT_KEEP_CAPS, uids := (r, e, e)\<rparr>)"

section \<open>cap\_functions.c\<close>

datatype cap_flag = CAP_EFFECTIVE | CAP_PERMITTED | CAP_INHERITABLE

text \<open>The capability changed in one set of the caller's, and pushed back to the kernel; no value for -1.\<close>

definition modifyCapSetting :: "cap_flag \<Rightarrow> nat \<Rightarrow> bool \<Rightarrow> cred \<Rightarrow> cred option" where
  "modifyCapSetting flag cap set_it c =
     (if CAP_LAST_CAP < cap then None
      else
        let upd = (\<lambda>f s. if flag = f then (if set_it then insert cap s else s - {cap}) else s)
        in capset (upd CAP_PERMITTED (permitted c)) (upd CAP_EFFECTIVE (effective c)) (upd CAP_INHERITABLE (inheritable c)) c)"

definition secbitInfoList :: "(32 word \<times> string \<times> char) list" where
  "secbitInfoList =
     [(SECBIT_NO_CAP_AMBIENT_RAISE, ''NO_CAP_AMBIENT_RAISE'', CHR ''a''),
      (SECBIT_NO_CAP_AMBIENT_RAISE_LOCKED, ''NO_CAP_AMBIENT_RAISE_LOCKED'', CHR ''A''),
      (SECBIT_KEEP_CAPS, ''KEEP_CAPS'', CHR ''k''),
      (SECBIT_KEEP_CAPS_LOCKED, ''KEEP_CAPS_LOCKED'', CHR ''K''),
      (SECBIT_NOROOT, ''NOROOT'', CHR ''r''),
      (SECBIT_NOROOT_LOCKED, ''NOROOT_LOCKED'', CHR ''R''),
      (SECBIT_NO_SETUID_FIXUP, ''NO_SETUID_FIXUP'', CHR ''s''),
      (SECBIT_NO_SETUID_FIXUP_LOCKED, ''NO_SETUID_FIXUP_LOCKED'', CHR ''S'')]"

fun verbose_names :: "32 word \<Rightarrow> nat \<Rightarrow> (32 word \<times> string \<times> char) list \<Rightarrow> string" where
  "verbose_names b printed [] = []"
| "verbose_names b printed ((flag, name, letter) # is) =
     (if b AND flag \<noteq> 0 then (if 0 < printed then '', '' else []) @ name @ verbose_names b (Suc printed) is
      else verbose_names b printed is)"

definition printSecbits :: "32 word \<Rightarrow> bool \<Rightarrow> string" where
  "printSecbits b verbose =
     (if verbose then ''['' @ verbose_names b 0 secbitInfoList @ '']''
      else map (\<lambda>(flag, name, letter). if b AND flag \<noteq> 0 then letter else CHR ''-'') secbitInfoList)"

definition show_secbits_main :: "string list \<Rightarrow> cred \<Rightarrow> 32 word \<times> string" where
  "show_secbits_main argv c = (securebits c, printSecbits (securebits c) (length argv = 1))"

section \<open>cap\_text.c\<close>

text \<open>Three sets of a text form, as \<^verbatim>\<open>libcap\<close> gives them: permitted, effective and inheritable.\<close>

record cap_sets =
  cs_permitted :: "nat set"
  cs_effective :: "nat set"
  cs_inheritable :: "nat set"

definition PRCAP_SHOW_ALL :: "32 word" where
  "PRCAP_SHOW_ALL = 1"

definition PRCAP_SHOW_UNRECOGNIZED :: "32 word" where
  "PRCAP_SHOW_UNRECOGNIZED = 2"

definition pad_name :: "string \<Rightarrow> string" where
  "pad_name n = n @ replicate (22 - length n) CHR '' ''"

text \<open>The line for one capability, if one is printed; \<^verbatim>\<open>libcap\<close> knows the capabilities up to a number.\<close>

definition printCap :: "nat \<Rightarrow> cap_sets \<Rightarrow> nat \<Rightarrow> string \<Rightarrow> 32 word \<Rightarrow> string option" where
  "printCap libmax cs cap capStrName flags =
     (if cap \<le> libmax then
        (if flags AND PRCAP_SHOW_ALL \<noteq> 0 \<or> cap \<in> cs_permitted cs \<or> cap \<in> cs_effective cs \<or> cap \<in> cs_inheritable cs then
           Some (pad_name capStrName @ '' '' @ (if cap \<in> cs_permitted cs then ''p'' else '' '') @
             (if cap \<in> cs_effective cs then ''e'' else '' '') @ (if cap \<in> cs_inheritable cs then ''i'' else '' ''))
         else None)
      else if flags AND PRCAP_SHOW_UNRECOGNIZED \<noteq> 0 then Some (pad_name capStrName @ '' unrecognized by libcap'')
      else None)"

definition all_caps :: "(nat \<times> string) list" where
  "all_caps =
     [(30, ''CAP_AUDIT_CONTROL''), (37, ''CAP_AUDIT_READ''), (29, ''CAP_AUDIT_WRITE''), (39, ''CAP_BPF''),
      (36, ''CAP_BLOCK_SUSPEND''), (40, ''CAP_CHECKPOINT_RESTORE''), (0, ''CAP_CHOWN''), (1, ''CAP_DAC_OVERRIDE''),
      (2, ''CAP_DAC_READ_SEARCH''), (3, ''CAP_FOWNER''), (4, ''CAP_FSETID''), (14, ''CAP_IPC_LOCK''), (15, ''CAP_IPC_OWNER''),
      (5, ''CAP_KILL''), (28, ''CAP_LEASE''), (9, ''CAP_LINUX_IMMUTABLE''), (33, ''CAP_MAC_ADMIN''), (32, ''CAP_MAC_OVERRIDE''),
      (27, ''CAP_MKNOD''), (12, ''CAP_NET_ADMIN''), (10, ''CAP_NET_BIND_SERVICE''), (11, ''CAP_NET_BROADCAST''),
      (13, ''CAP_NET_RAW''), (38, ''CAP_PERFMON''), (6, ''CAP_SETGID''), (31, ''CAP_SETFCAP''), (8, ''CAP_SETPCAP''),
      (7, ''CAP_SETUID''), (21, ''CAP_SYS_ADMIN''), (22, ''CAP_SYS_BOOT''), (18, ''CAP_SYS_CHROOT''), (16, ''CAP_SYS_MODULE''),
      (23, ''CAP_SYS_NICE''), (20, ''CAP_SYS_PACCT''), (19, ''CAP_SYS_PTRACE''), (17, ''CAP_SYS_RAWIO''),
      (24, ''CAP_SYS_RESOURCE''), (25, ''CAP_SYS_TIME''), (26, ''CAP_SYS_TTY_CONFIG''), (34, ''CAP_SYSLOG''), (35, ''CAP_WAKE_ALARM'')]"

definition printAllCaps :: "nat \<Rightarrow> cap_sets \<Rightarrow> 32 word \<Rightarrow> string list" where
  "printAllCaps libmax cs flags = List.map_filter (\<lambda>(cap, name). printCap libmax cs cap name flags) all_caps"

definition cap_text_main :: "nat \<Rightarrow> (string \<Rightarrow> cap_sets option) \<Rightarrow> (cap_sets \<Rightarrow> string option) \<Rightarrow> string list \<Rightarrow> (string \<times> string list) option" where
  "cap_text_main libmax cap_from_text cap_to_text argv =
     (if length argv \<noteq> 2 then None
      else (case cap_from_text (argv ! 1) of
              None \<Rightarrow> None
            | Some cs \<Rightarrow> map_option (\<lambda>t. (t, printAllCaps libmax cs PRCAP_SHOW_ALL)) (cap_to_text cs)))"

section \<open>cap\_launcher.c\<close>

text \<open>How a program that executes a command ends: with the command and its credentials, with the usage message, or at a failing step.\<close>

datatype launch = Launched cred "string list" | Usage_error | Failure string

text \<open>\<^verbatim>\<open>strtok\<close> until it returns NULL: the parts between delimiters that are not empty.\<close>

function strtok_all :: "string \<Rightarrow> string \<Rightarrow> string list" where
  "strtok_all ds s =
     (let t = dropWhile (\<lambda>c. c \<in> set ds) s in
      if t = [] then []
      else takeWhile (\<lambda>c. c \<notin> set ds) t # strtok_all ds (dropWhile (\<lambda>c. c \<notin> set ds) t))"
  by pat_completeness auto
termination
proof (relation "measure (\<lambda>(ds, s). length s)")
  fix ds s t :: string
  assume t: "t = dropWhile (\<lambda>c. c \<in> set ds) s" "t \<noteq> []"
  obtain c u where u: "t = c # u" using t(2) unfolding neq_Nil_conv by blast
  then have "c \<notin> set ds" using t hd_dropWhile[of "\<lambda>c. c \<in> set ds" s] by (metis list.sel(1))
  have "length (dropWhile (\<lambda>c. c \<notin> set ds) t) \<le> length u" using u \<open>c \<notin> set ds\<close> length_dropWhile_le[of _ u] by simp
  also have "\<dots> < length s" using t(1) u length_dropWhile_le[of "\<lambda>c. c \<in> set ds" s] by (metis Suc_le_lessD length_Cons)
  finally show "((ds, dropWhile (\<lambda>c. c \<notin> set ds) t), ds, s) \<in> measure (\<lambda>(ds, s). length s)" by simp
qed simp

declare strtok_all.simps [simp del]

text \<open>The user database gives the IDs of a user and the groups for a user and a group ID.\<close>

record user_db =
  getpwnam :: "string \<Rightarrow> (nat \<times> nat) option"
  getgrouplist :: "string \<Rightarrow> nat \<Rightarrow> nat list"

definition setSupplementaryGroupList :: "user_db \<Rightarrow> string \<Rightarrow> nat \<Rightarrow> cred \<Rightarrow> cred option" where
  "setSupplementaryGroupList db user gid c = setgroups (getgrouplist db user gid) c"

definition setCredentials :: "user_db \<Rightarrow> string \<Rightarrow> cred \<Rightarrow> cred option" where
  "setCredentials db user c =
     (case getpwnam db user of
        None \<Rightarrow> None
      | Some (uid, gid) \<Rightarrow>
          (case setSupplementaryGroupList db user gid c of
             None \<Rightarrow> None
           | Some c1 \<Rightarrow> (case setresgid gid gid gid c1 of None \<Rightarrow> None | Some c2 \<Rightarrow> setresuid uid uid uid c2)))"

definition raiseCap :: "nat \<Rightarrow> bool \<Rightarrow> cred \<Rightarrow> cred option" where
  "raiseCap cap raiseAmbient c =
     (case modifyCapSetting CAP_INHERITABLE cap True c of
        None \<Rightarrow> None
      | Some c1 \<Rightarrow> if raiseAmbient then ambient_raise cap c1 else Some c1)"

fun raise_named :: "(string \<Rightarrow> nat option) \<Rightarrow> bool \<Rightarrow> string list \<Rightarrow> cred \<Rightarrow> cred option" where
  "raise_named cap_from_name raiseAmbient [] c = Some c"
| "raise_named cap_from_name raiseAmbient (n # ns) c =
     (case cap_from_name n of
        None \<Rightarrow> None
      | Some cap \<Rightarrow> (case raiseCap cap raiseAmbient c of None \<Rightarrow> None | Some c1 \<Rightarrow> raise_named cap_from_name raiseAmbient ns c1))"

definition launcher_raise_caps :: "(string \<Rightarrow> nat option) \<Rightarrow> string \<Rightarrow> bool \<Rightarrow> cred \<Rightarrow> cred option" where
  "launcher_raise_caps cap_from_name capList raiseAmbient c = raise_named cap_from_name raiseAmbient (strtok_all '','' capList) c"

definition is_bad :: "opt_result \<Rightarrow> bool" where
  "is_bad r = (case r of Opt c a \<Rightarrow> False | _ \<Rightarrow> True)"

definition cap_launcher_main :: "user_db \<Rightarrow> (string \<Rightarrow> nat option) \<Rightarrow> string list \<Rightarrow> cred \<Rightarrow> launch" where
  "cap_launcher_main db cap_from_name argv c =
     (case getopt ''A'' argv of (rs, ops) \<Rightarrow>
      let raiseAmbient = (Opt CHR ''A'' None \<notin> set rs) in
      if list_ex is_bad rs \<or> length ops < 3 then Usage_error
      else if fst (snd (uids c)) \<noteq> 0 then Failure ''Must be run as root''
      else
        (case set_securebits_call SECBIT_NO_SETUID_FIXUP c of
           None \<Rightarrow> Failure ''prctl''
         | Some c1 \<Rightarrow>
             (case setCredentials db (ops ! 0) c1 of
                None \<Rightarrow> Failure ''credentials''
              | Some c2 \<Rightarrow>
                  (case launcher_raise_caps cap_from_name (ops ! 1) raiseAmbient c2 of
                     None \<Rightarrow> Failure ''capabilities''
                   | Some c3 \<Rightarrow> Launched c3 (drop 2 ops)))))"

section \<open>check\_password\_caps.c\<close>

definition CAP_DAC_READ_SEARCH :: nat where
  "CAP_DAC_READ_SEARCH = 2"

text \<open>The password database, the shadow file, which only a process with the capability can read, and \<^verbatim>\<open>crypt\<close>.\<close>

record auth_db =
  pw_record :: "string \<Rightarrow> (string \<times> nat) option"
  sp_record :: "string \<Rightarrow> string option"
  crypt :: "string \<Rightarrow> string \<Rightarrow> string option"

definition modifyCap :: "nat \<Rightarrow> bool \<Rightarrow> cred \<Rightarrow> cred option" where
  "modifyCap cap set_it c =
     (if CAP_LAST_CAP < cap then None
      else capset (permitted c) (if set_it then insert cap (effective c) else effective c - {cap}) (inheritable c) c)"

definition raise_effective :: "nat \<Rightarrow> cred \<Rightarrow> cred option" where
  "raise_effective cap c = modifyCap cap True c"

definition dropAllCaps :: "cred \<Rightarrow> cred option" where
  "dropAllCaps c = capset {} {} {} c"

definition getspnam :: "auth_db \<Rightarrow> string \<Rightarrow> cred \<Rightarrow> string option option" where
  "getspnam db user c = (if CAP_DAC_READ_SEARCH \<in> effective c then Some (sp_record db user) else None)"

text \<open>The result, with the credentials while the password is read and later.\<close>

datatype auth = Authenticated nat cred | Incorrect cred | Auth_failure string

definition check_password_main :: "auth_db \<Rightarrow> nat \<Rightarrow> string \<Rightarrow> string \<Rightarrow> cred \<Rightarrow> auth" where
  "check_password_main db lnmax line password c =
     (if line = [] then Auth_failure ''end of file''
      else
        let buf = take (lnmax - 1) line; username = (if last buf = CHR 0x0A then butlast buf else buf) in
        (case pw_record db username of
           None \<Rightarrow> Auth_failure ''couldn't get password record''
         | Some (pw_passwd, pw_uid) \<Rightarrow>
             (case raise_effective CAP_DAC_READ_SEARCH c of
                None \<Rightarrow> Auth_failure ''raiseCap() failed''
              | Some c1 \<Rightarrow>
                  (case getspnam db username c1 of
                     None \<Rightarrow> Auth_failure ''no permission to read shadow password file''
                   | Some sp \<Rightarrow>
                       (case dropAllCaps c1 of
                          None \<Rightarrow> Auth_failure ''dropAllCaps() failed''
                        | Some c2 \<Rightarrow>
                            let hashed = (case sp of None \<Rightarrow> pw_passwd | Some h \<Rightarrow> h) in
                            (case crypt db password hashed of
                               None \<Rightarrow> Auth_failure ''crypt''
                             | Some e \<Rightarrow> if e = hashed then Authenticated pw_uid c2 else Incorrect c2))))))"

section \<open>cred\_launcher.c\<close>

record cred_opts =
  newuid :: nat
  newgid :: nat
  suppGids :: "string option"

definition NO_ID :: nat where
  "NO_ID = 2 ^ 32 - 1"

definition NGROUPS_MAX :: nat where
  "NGROUPS_MAX = 65536"

definition id_of_arg :: "string \<Rightarrow> nat" where
  "id_of_arg a = nat (to_uint32 (atoi a))"

fun cred_options :: "opt_result list \<Rightarrow> cred_opts \<Rightarrow> cred_opts option" where
  "cred_options [] o1 = Some o1"
| "cred_options (Opt c (Some a) # rs) o1 =
     (if c = CHR ''g'' then cred_options rs (o1\<lparr>newgid := id_of_arg a\<rparr>)
      else if c = CHR ''u'' then cred_options rs (o1\<lparr>newuid := id_of_arg a\<rparr>)
      else if c = CHR ''G'' then cred_options rs (o1\<lparr>suppGids := Some a\<rparr>)
      else None)"
| "cred_options (Opt c None # rs) o1 = (if c = CHR ''v'' then cred_options rs o1 else None)"
| "cred_options (r # rs) o1 = None"

definition cred_launcher_main :: "string list \<Rightarrow> cred \<Rightarrow> launch" where
  "cred_launcher_main argv c =
     (case getopt ''+g:u:G:v'' argv of (rs, ops) \<Rightarrow>
      (case cred_options rs \<lparr>newuid = NO_ID, newgid = NO_ID, suppGids = None\<rparr> of
         None \<Rightarrow> Usage_error
       | Some o1 \<Rightarrow>
           if ops = [] then Usage_error
           else
             (case (case suppGids o1 of
                      None \<Rightarrow> Some c
                    | Some g \<Rightarrow>
                        let gs = map id_of_arg (strtok_all '' ,'' g) in
                        if NGROUPS_MAX < length gs then None else setgroups gs c) of
                None \<Rightarrow> Failure ''setgroups''
              | Some c1 \<Rightarrow>
                  (case (if newgid o1 \<noteq> NO_ID then setresgid (newgid o1) (newgid o1) (newgid o1) c1 else Some c1) of
                     None \<Rightarrow> Failure ''setresgid''
                   | Some c2 \<Rightarrow>
                       (case (if newuid o1 \<noteq> NO_ID then setresuid (newuid o1) (newuid o1) (newuid o1) c2 else Some c2) of
                          None \<Rightarrow> Failure ''setresuid''
                        | Some c3 \<Rightarrow> Launched c3 ops)))))"

section \<open>No call gains privilege\<close>

text \<open>The invariant of credentials that the kernel keeps.\<close>

definition cred_ok :: "cred \<Rightarrow> bool" where
  "cred_ok c \<longleftrightarrow> effective c \<subseteq> permitted c \<and> ambient c \<subseteq> permitted c \<inter> inheritable c"

text \<open>A call that keeps the invariant and never adds to the permitted and the bounding set.\<close>

locale cred_call =
  fixes call :: "cred \<Rightarrow> cred option"
  assumes call_ok: "cred_ok c \<Longrightarrow> call c = Some c' \<Longrightarrow> cred_ok c'"
    and call_permitted: "cred_ok c \<Longrightarrow> call c = Some c' \<Longrightarrow> permitted c' \<subseteq> permitted c"
    and call_bounding: "cred_ok c \<Longrightarrow> call c = Some c' \<Longrightarrow> bounding c' \<subseteq> bounding c"
begin

lemma call_then:
  assumes "cred_call next_call"
  shows "cred_call (\<lambda>c. case call c of None \<Rightarrow> None | Some c' \<Rightarrow> next_call c')"
proof
  fix c c'
  assume c: "cred_ok c" "(case call c of None \<Rightarrow> None | Some c' \<Rightarrow> next_call c') = Some c'"
  then obtain d where d: "call c = Some d" "next_call d = Some c'" by (auto split: option.splits)
  note ok = call_ok[OF c(1) d(1)]
  show "cred_ok c'" by (rule cred_call.call_ok[OF assms ok d(2)])
  show "permitted c' \<subseteq> permitted c"
    using cred_call.call_permitted[OF assms ok d(2)] call_permitted[OF c(1) d(1)] by (rule subset_trans)
  show "bounding c' \<subseteq> bounding c"
    using cred_call.call_bounding[OF assms ok d(2)] call_bounding[OF c(1) d(1)] by (rule subset_trans)
qed

end

interpretation capset: cred_call "capset p e i" for p e i
  by unfold_locales (auto simp: capset_def cred_ok_def split: if_splits)

interpretation ambient_raise: cred_call "ambient_raise cap" for cap
  by unfold_locales (auto simp: ambient_raise_def cred_ok_def split: if_splits)

interpretation ambient_lower: cred_call "ambient_lower cap" for cap
  by unfold_locales (auto simp: ambient_lower_def cred_ok_def split: if_splits)

interpretation capbset_drop: cred_call "capbset_drop cap" for cap
  by unfold_locales (auto simp: capbset_drop_def cred_ok_def split: if_splits)

interpretation securebits_call: cred_call "set_securebits_call b" for b
  by unfold_locales (auto simp: set_securebits_call_def cred_ok_def split: if_splits)

interpretation setgroups: cred_call "setgroups gs" for gs
  by unfold_locales (auto simp: setgroups_def cred_ok_def split: if_splits)

interpretation setresgid: cred_call "setresgid r e s" for r e s
  by unfold_locales (auto simp: setresgid_def cred_ok_def split: if_splits prod.splits)

lemma setuid_fixup_ok:
  assumes "cred_ok c"
  shows "cred_ok (setuid_fixup c (c\<lparr>uids := u\<rparr>))" "permitted (setuid_fixup c (c\<lparr>uids := u\<rparr>)) \<subseteq> permitted c"
    "bounding (setuid_fixup c (c\<lparr>uids := u\<rparr>)) = bounding c"
  using assms by (cases "uids c"; cases u; simp add: setuid_fixup_def cred_ok_def Let_def; blast?)+

lemma setresuid_fixup:
  assumes "setresuid r e s c = Some c'"
  obtains u where "c' = setuid_fixup c (c\<lparr>uids := u\<rparr>)"
  using assms by (cases "uids c") (auto simp: setresuid_def Let_def split: if_split_asm)

interpretation setresuid: cred_call "setresuid r e s" for r e s
proof
  fix c c'
  assume c: "cred_ok c" "setresuid r e s c = Some c'"
  obtain u where u: "c' = setuid_fixup c (c\<lparr>uids := u\<rparr>)" using c(2) by (rule setresuid_fixup)
  show "cred_ok c'" "permitted c' \<subseteq> permitted c" "bounding c' \<subseteq> bounding c"
    using setuid_fixup_ok[OF c(1), of u] u by simp_all
qed

interpretation modify_setting: cred_call "modifyCapSetting flag cap b" for flag cap b
proof
  fix c c'
  assume c: "cred_ok c" "modifyCapSetting flag cap b c = Some c'"
  then obtain p e i where "capset p e i c = Some c'" by (auto simp: modifyCapSetting_def Let_def split: if_splits)
  then show "cred_ok c'" "permitted c' \<subseteq> permitted c" "bounding c' \<subseteq> bounding c"
    by (rule capset.call_ok[OF c(1)] capset.call_permitted[OF c(1)] capset.call_bounding[OF c(1)])+
qed

interpretation keep_cred: cred_call Some
  by unfold_locales auto

lemma raiseCap_call: "cred_call (raiseCap cap amb)"
  unfolding raiseCap_def[abs_def]
  by (rule modify_setting.call_then) (cases amb; simp add: ambient_raise.cred_call_axioms keep_cred.cred_call_axioms)

lemma raise_named_call: "cred_call (raise_named names amb ns)"
proof (induction ns)
  case Nil
  have "raise_named names amb [] = Some" by (rule ext) simp
  then show ?case using keep_cred.cred_call_axioms by simp
next
  case (Cons n ns)
  show ?case
  proof (cases "names n")
    case None
    then have "raise_named names amb (n # ns) c = None" for c by simp
    then show ?thesis by unfold_locales simp_all
  next
    case (Some cap)
    then have "raise_named names amb (n # ns) = (\<lambda>c. case raiseCap cap amb c of None \<Rightarrow> None | Some c1 \<Rightarrow> raise_named names amb ns c1)"
      by (intro ext) simp
    then show ?thesis using cred_call.call_then[OF raiseCap_call[of cap amb] Cons] by simp
  qed
qed

section \<open>The launcher gives exactly the named capabilities\<close>

lemma raiseCap_result:
  assumes "cred_ok c" "CAP_SETPCAP \<in> effective c" "\<not> secure SECBIT_NO_CAP_AMBIENT_RAISE c"
  shows "raiseCap cap amb c =
    (if cap \<le> CAP_LAST_CAP \<and> cap \<in> inheritable c \<union> bounding c \<and> (amb \<longrightarrow> cap \<in> permitted c)
     then Some (c\<lparr>inheritable := insert cap (inheritable c), ambient := (if amb then insert cap (ambient c) else ambient c)\<rparr>) else None)"
proof -
  have a: "ambient c \<inter> permitted c \<inter> insert cap (inheritable c) = ambient c" using assms(1) by (auto simp: cred_ok_def)
  have m: "modifyCapSetting CAP_INHERITABLE cap True c =
      (if cap \<le> CAP_LAST_CAP \<and> cap \<in> inheritable c \<union> bounding c then Some (c\<lparr>inheritable := insert cap (inheritable c)\<rparr>) else None)"
    using assms(1,2) a by (auto simp: modifyCapSetting_def capset_def cred_ok_def)
  show ?thesis using assms(3) by (auto simp: raiseCap_def m ambient_raise_def secure_def)
qed

definition raisable :: "bool \<Rightarrow> cred \<Rightarrow> nat \<Rightarrow> bool" where
  "raisable amb c cap \<longleftrightarrow> cap \<le> CAP_LAST_CAP \<and> cap \<in> inheritable c \<union> bounding c \<and> (amb \<longrightarrow> cap \<in> permitted c)"

definition with_caps :: "bool \<Rightarrow> nat set \<Rightarrow> cred \<Rightarrow> cred" where
  "with_caps amb caps c = c\<lparr>inheritable := inheritable c \<union> caps, ambient := (if amb then ambient c \<union> caps else ambient c)\<rparr>"

lemma raise_named_result:
  assumes "cred_ok c" "CAP_SETPCAP \<in> effective c" "\<not> secure SECBIT_NO_CAP_AMBIENT_RAISE c"
  shows "raise_named names amb ns c =
    (if list_all (\<lambda>n. \<exists>cap. names n = Some cap \<and> raisable amb c cap) ns
     then Some (with_caps amb (set (map (the \<circ> names) ns)) c) else None)"
  using assms
proof (induction ns arbitrary: c)
  case (Cons n ns)
  show ?case
  proof (cases "\<exists>cap. names n = Some cap \<and> raisable amb c cap")
    case True
    then obtain cap where cap: "names n = Some cap" "raisable amb c cap" by blast
    let ?c = "c\<lparr>inheritable := insert cap (inheritable c), ambient := (if amb then insert cap (ambient c) else ambient c)\<rparr>"
    have r: "raiseCap cap amb c = Some ?c" using raiseCap_result[OF Cons.prems, of cap amb] cap(2) by (simp add: raisable_def)
    have ok: "cred_ok ?c" using cred_call.call_ok[OF raiseCap_call Cons.prems(1) r] .
    have "raisable amb ?c x = raisable amb c x" for x using cap(2) by (auto simp: raisable_def)
    then show ?thesis using Cons.IH[OF ok] Cons.prems(2,3) cap r by (auto simp: secure_def with_caps_def)
  next
    case False
    then show ?thesis using raiseCap_result[OF Cons.prems] by (auto simp: raisable_def split: option.splits)
  qed
qed (simp add: with_caps_def)

text \<open>A root process with the capabilities for the job and no locked secure bits.\<close>

definition root_cred :: "cred \<Rightarrow> bool" where
  "root_cred c \<longleftrightarrow> cred_ok c \<and> {CAP_SETPCAP, CAP_SETUID, CAP_SETGID} \<subseteq> effective c \<and> uids c = (0, 0, 0) \<and> securebits c = 0"

definition switched :: "nat \<Rightarrow> nat \<Rightarrow> nat list \<Rightarrow> cred \<Rightarrow> cred" where
  "switched uid gid gs c = c\<lparr>securebits := SECBIT_NO_SETUID_FIXUP, uids := (uid, uid, uid), gids := (gid, gid, gid), groups := gs\<rparr>"

lemma setCredentials_root:
  assumes c: "root_cred c" and u: "getpwnam db user = Some (uid, gid)" "uid \<noteq> 2 ^ 32 - 1" "gid \<noteq> 2 ^ 32 - 1"
  shows "set_securebits_call SECBIT_NO_SETUID_FIXUP c = Some (c\<lparr>securebits := SECBIT_NO_SETUID_FIXUP\<rparr>)"
    "setCredentials db user (c\<lparr>securebits := SECBIT_NO_SETUID_FIXUP\<rparr>) = Some (switched uid gid (getgrouplist db user gid) c)"
proof -
  have e: "CAP_SETPCAP \<in> effective c" "CAP_SETUID \<in> effective c" "CAP_SETGID \<in> effective c" "securebits c = 0" "uids c = (0, 0, 0)"
    using c by (simp_all add: root_cred_def)
  have "SECBIT_NO_SETUID_FIXUP AND NOT 0xFF = 0" by (simp add: SECBIT_NO_SETUID_FIXUP_def)
  then show "set_securebits_call SECBIT_NO_SETUID_FIXUP c = Some (c\<lparr>securebits := SECBIT_NO_SETUID_FIXUP\<rparr>)"
    using e by (simp add: set_securebits_call_def)
  have f: "SECBIT_NO_SETUID_FIXUP AND SECBIT_NO_SETUID_FIXUP \<noteq> 0" by (simp add: SECBIT_NO_SETUID_FIXUP_def)
  obtain g1 g2 g3 where g: "gids c = (g1, g2, g3)" by (cases "gids c")
  show "setCredentials db user (c\<lparr>securebits := SECBIT_NO_SETUID_FIXUP\<rparr>) = Some (switched uid gid (getgrouplist db user gid) c)"
    using e u f g by (simp add: setCredentials_def setSupplementaryGroupList_def setgroups_def setresgid_def setresuid_def new_id_def
        setuid_fixup_def secure_def switched_def Let_def)
qed

text \<open>
  C20: \<^verbatim>\<open>cap_launcher\<close>, run by root for an ordinary user: it starts the command exactly if all names are known and the
  capabilities are in reach, with the IDs and groups of the user.  By the rules for executing a plain program
  the command then has exactly the named capabilities, beside those that were ambient before; with the
  option it has them only in its inheritable set.
\<close>

theorem cap_launcher_exact:
  assumes "root_cred c" "getpwnam db user = Some (uid, gid)" "uid \<noteq> 2 ^ 32 - 1" "gid \<noteq> 2 ^ 32 - 1" "uid \<noteq> 0"
    "getopt ''A'' argv = (rs, user # caplist # cmd # args)" "\<not> list_ex is_bad rs"
  shows "let amb = Opt CHR ''A'' None \<notin> set rs; ns = strtok_all '','' caplist; caps = set (map (the \<circ> names) ns) in
    if list_all (\<lambda>n. \<exists>cap. names n = Some cap \<and> raisable amb c cap) ns
    then \<exists>c'. cap_launcher_main db names argv c = Launched c' (cmd # args) \<and>
      permitted (exec_plain c') = ambient c \<union> (if amb then caps else {}) \<and> effective (exec_plain c') = permitted (exec_plain c') \<and>
      inheritable (exec_plain c') = inheritable c \<union> caps \<and>
      uids (exec_plain c') = (uid, uid, uid) \<and> gids (exec_plain c') = (gid, gid, gid) \<and> groups (exec_plain c') = getgrouplist db user gid
    else cap_launcher_main db names argv c = Failure ''capabilities''"
proof -
  let ?s = "switched uid gid (getgrouplist db user gid) c"
  define amb where "amb = (Opt CHR ''A'' None \<notin> set rs)"
  define ns where "ns = strtok_all '','' caplist"
  let ?c = "with_caps amb (set (map (the \<circ> names) ns)) ?s"
  have s: "cred_ok ?s" "CAP_SETPCAP \<in> effective ?s" "\<not> secure SECBIT_NO_CAP_AMBIENT_RAISE ?s"
    using assms(1) by (simp_all add: switched_def root_cred_def cred_ok_def secure_def secbit_defs)
  have "raisable amb ?s x = raisable amb c x" for x by (simp add: raisable_def switched_def)
  then have m: "cap_launcher_main db names argv c =
    (if list_all (\<lambda>n. \<exists>cap. names n = Some cap \<and> raisable amb c cap) ns then Launched ?c (cmd # args) else Failure ''capabilities'')"
    using raise_named_result[OF s, of names amb ns] setCredentials_root[OF assms(1-4)] assms(1,6,7)
    by (simp add: cap_launcher_main_def launcher_raise_caps_def amb_def ns_def root_cred_def)
  have "permitted (exec_plain ?c) = ambient c \<union> (if amb then set (map (the \<circ> names) ns) else {})"
    "effective (exec_plain ?c) = permitted (exec_plain ?c)" "inheritable (exec_plain ?c) = inheritable c \<union> set (map (the \<circ> names) ns)"
    "uids (exec_plain ?c) = (uid, uid, uid)" "gids (exec_plain ?c) = (gid, gid, gid)" "groups (exec_plain ?c) = getgrouplist db user gid"
    using assms(5) by (simp_all add: exec_plain_def with_caps_def switched_def)
  then show ?thesis unfolding Let_def amb_def[symmetric] ns_def[symmetric] using m by simp
qed

definition example_root :: cred where
  "example_root = \<lparr>permitted = {0..<41}, effective = {0..<41}, inheritable = {}, bounding = {0..<41}, ambient = {}, securebits = 0,
     uids = (0, 0, 0), gids = (0, 0, 0), groups = []\<rparr>"

definition example_db :: user_db where
  "example_db = \<lparr>getpwnam = (\<lambda>u. if u = ''mtk'' then Some (1000, 100) else None), getgrouplist = (\<lambda>u g. [g, 4])\<rparr>"

definition example_names :: "string \<Rightarrow> nat option" where
  "example_names n = (if n = ''cap_kill'' then Some 5 else if n = ''cap_setuid'' then Some 7 else None)"

theorem cap_launcher_exact_witness:
  "\<exists>c'. cap_launcher_main example_db example_names [''cap_launcher'', ''mtk'', ''cap_kill,cap_setuid'', ''sleep'', ''5''] example_root =
      Launched c' [''sleep'', ''5''] \<and> permitted (exec_plain c') = {5, 7} \<and> uids (exec_plain c') = (1000, 1000, 1000)"
proof -
  have g: "getopt ''A'' [''cap_launcher'', ''mtk'', ''cap_kill,cap_setuid'', ''sleep'', ''5''] =
      ([], ''mtk'' # ''cap_kill,cap_setuid'' # ''sleep'' # [''5''])" by code_simp
  have n: "strtok_all '','' ''cap_kill,cap_setuid'' = [''cap_kill'', ''cap_setuid'']" by code_simp
  have "root_cred example_root" by (simp add: root_cred_def example_root_def cred_ok_def CAP_SETPCAP_def CAP_SETUID_def CAP_SETGID_def)
  from cap_launcher_exact[OF this _ _ _ _ g, where db = example_db and uid = 1000 and gid = 100 and names = example_names]
  show ?thesis unfolding n
    by (simp add: example_db_def example_names_def raisable_def example_root_def CAP_LAST_CAP_def)
      (metis insert_commute)
qed

section \<open>The other programs\<close>

text \<open>\<^verbatim>\<open>cap_text\<close> prints every capability exactly once, with the letters of the sets that have it.\<close>

lemma all_caps_complete: "distinct (map fst all_caps)" "set (map fst all_caps) = {0..CAP_LAST_CAP}" "distinct (map snd all_caps)"
  by code_simp+

lemma printAllCaps_complete:
  assumes "CAP_LAST_CAP \<le> libmax"
  shows "printAllCaps libmax cs PRCAP_SHOW_ALL = map (\<lambda>(cap, name). pad_name name @ '' '' @ (if cap \<in> cs_permitted cs then ''p'' else '' '') @
    (if cap \<in> cs_effective cs then ''e'' else '' '') @ (if cap \<in> cs_inheritable cs then ''i'' else '' '')) all_caps"
proof -
  have "cap \<le> libmax" if "(cap, name) \<in> set all_caps" for cap name
    using all_caps_complete(2) that assms by (metis atLeastAtMost_iff fst_conv image_eqI list.set_map order_trans)
  moreover have "(1 :: 32 word) AND 1 \<noteq> 0" by simp
  ultimately have p: "printCap libmax cs cap name PRCAP_SHOW_ALL = Some (pad_name name @ '' '' @ (if cap \<in> cs_permitted cs then ''p'' else '' '') @
    (if cap \<in> cs_effective cs then ''e'' else '' '') @ (if cap \<in> cs_inheritable cs then ''i'' else '' ''))" if "(cap, name) \<in> set all_caps" for cap name
    using that unfolding printCap_def PRCAP_SHOW_ALL_def by auto
  have "List.map_filter f xs = map g xs" if "\<And>x. x \<in> set xs \<Longrightarrow> f x = Some (g x)" for f :: "nat \<times> string \<Rightarrow> string option" and g xs
    using that by (induction xs) (auto simp: List.map_filter_def)
  then show ?thesis unfolding printAllCaps_def using p by (auto simp: case_prod_beta)
qed


definition example_auth :: auth_db where
  "example_auth = \<lparr>pw_record = (\<lambda>u. if u = ''mtk'' then Some (''x'', 1000) else None), sp_record = (\<lambda>u. Some ''ab''),
     crypt = (\<lambda>p h. Some (take 1 h @ take 1 p))\<rparr>"


text \<open>The changes that \<^verbatim>\<open>cred_launcher\<close> makes, for each option that is given.\<close>

definition changed_ids :: "cred_opts \<Rightarrow> cred \<Rightarrow> cred" where
  "changed_ids o1 c = c
     \<lparr>groups := (case suppGids o1 of None \<Rightarrow> groups c | Some g \<Rightarrow> map id_of_arg (strtok_all '' ,'' g)),
      gids := (if newgid o1 = NO_ID then gids c else (newgid o1, newgid o1, newgid o1)),
      uids := (if newuid o1 = NO_ID then uids c else (newuid o1, newuid o1, newuid o1))\<rparr>"

text \<open>
  \<^verbatim>\<open>cred_launcher\<close>, with the capabilities to change IDs: all IDs that were asked for are set, since the user IDs
  are changed last, and the command is executed; the capabilities follow the rules for a change of user IDs.
\<close>

theorem cred_launcher_sets_ids:
  assumes "getopt ''+g:u:G:v'' argv = (rs, cmd # args)" "cred_options rs \<lparr>newuid = NO_ID, newgid = NO_ID, suppGids = None\<rparr> = Some o1"
    "CAP_SETUID \<in> effective c" "CAP_SETGID \<in> effective c" "\<forall>g. suppGids o1 = Some g \<longrightarrow> length (strtok_all '' ,'' g) \<le> NGROUPS_MAX"
  shows "\<exists>c'. cred_launcher_main argv c = Launched c' (cmd # args) \<and> uids c' = uids (changed_ids o1 c) \<and>
    gids c' = gids (changed_ids o1 c) \<and> groups c' = groups (changed_ids o1 c) \<and>
    c' = (if newuid o1 = NO_ID then changed_ids o1 c else setuid_fixup c (changed_ids o1 c))"
proof -
  define c1 where "c1 = c\<lparr>groups := groups (changed_ids o1 c)\<rparr>"
  define c2 where "c2 = c1\<lparr>gids := gids (changed_ids o1 c)\<rparr>"
  have s1: "(case suppGids o1 of None \<Rightarrow> Some c | Some g \<Rightarrow>
      let gs = map id_of_arg (strtok_all '' ,'' g) in if NGROUPS_MAX < length gs then None else setgroups gs c) = Some c1"
    using assms(4,5) by (auto simp: c1_def changed_ids_def setgroups_def Let_def split: option.splits)
  have s2: "(if newgid o1 \<noteq> NO_ID then setresgid (newgid o1) (newgid o1) (newgid o1) c1 else Some c1) = Some c2"
    using assms(4) by (cases "gids c") (auto simp: c2_def c1_def changed_ids_def setresgid_def new_id_def NO_ID_def)
  have e: "effective c2 = effective c" "uids c2 = uids c" "c2\<lparr>uids := uids (changed_ids o1 c)\<rparr> = changed_ids o1 c"
    by (simp_all add: c2_def c1_def changed_ids_def)
  have fx: "setuid_fixup c2 d = setuid_fixup c d" for d using e(2) by (simp add: setuid_fixup_def secure_def c2_def c1_def)
  have s3: "(if newuid o1 \<noteq> NO_ID then setresuid (newuid o1) (newuid o1) (newuid o1) c2 else Some c2) =
      Some (if newuid o1 = NO_ID then changed_ids o1 c else setuid_fixup c (changed_ids o1 c))"
  proof (cases "newuid o1 = NO_ID")
    case True
    then show ?thesis using e(3) by (simp add: c2_def c1_def changed_ids_def)
  next
    case False
    then have "uids (changed_ids o1 c) = (newuid o1, newuid o1, newuid o1)" by (simp add: changed_ids_def)
    then show ?thesis using False e fx assms(3) by (cases "uids c") (simp add: setresuid_def new_id_def NO_ID_def)
  qed
  have "uids (setuid_fixup c d) = uids d" "gids (setuid_fixup c d) = gids d" "groups (setuid_fixup c d) = groups d" for d
    by (simp_all add: setuid_fixup_def Let_def split: prod.split)
  then show ?thesis using s1 s2 s3 assms(1,2) by (simp add: cred_launcher_main_def)
qed

theorem cred_launcher_sets_ids_witness:
  "\<exists>c'. cred_launcher_main [''cred_launcher'', ''-u'', ''9'', ''-G'', ''4,5'', ''id'', ''-a''] example_root = Launched c' [''id'', ''-a''] \<and>
    uids c' = (9, 9, 9) \<and> groups c' = [4, 5] \<and> permitted c' = {}"
proof -
  let ?o = "\<lparr>newuid = 9, newgid = NO_ID, suppGids = Some ''4,5''\<rparr>"
  have g: "getopt ''+g:u:G:v'' [''cred_launcher'', ''-u'', ''9'', ''-G'', ''4,5'', ''id'', ''-a''] =
      ([Opt CHR ''u'' (Some ''9''), Opt CHR ''G'' (Some ''4,5'')], ''id'' # [''-a''])" by code_simp
  have a: "id_of_arg ''9'' = 9" "map id_of_arg (strtok_all '' ,'' ''4,5'') = [4, 5]" by code_simp+
  have o: "cred_options [Opt CHR ''u'' (Some ''9''), Opt CHR ''G'' (Some ''4,5'')] \<lparr>newuid = NO_ID, newgid = NO_ID, suppGids = None\<rparr> = Some ?o"
    by (simp add: a)
  have "length (strtok_all '' ,'' ''4,5'') = 2" by code_simp
  then have n: "length (strtok_all '' ,'' ''4,5'') \<le> NGROUPS_MAX" by (simp add: NGROUPS_MAX_def)
  have "CAP_SETUID \<in> effective example_root" "CAP_SETGID \<in> effective example_root"
    by (simp_all add: example_root_def CAP_SETUID_def CAP_SETGID_def)
  from cred_launcher_sets_ids[OF g o this] n a(2) show ?thesis
    by (auto simp: changed_ids_def NO_ID_def setuid_fixup_def secure_def example_root_def)
qed

end
