(* ===== verification/Ns_Exec.thy ===== *)
theory Ns_Exec
  imports Capabilities
begin

text \<open>
  Programs that run a command in other namespaces (\<^verbatim>\<open>tlpi-dist/namespaces\<close>): \<^verbatim>\<open>ns_child_exec.c\<close>, \<^verbatim>\<open>unshare.c\<close>,
  \<^verbatim>\<open>ns_exec.c\<close> and \<^verbatim>\<open>ns_run.c\<close>.
\<close>

section \<open>Namespace flags\<close>

definition CLONE_NEWTIME :: "32 word" where
  "CLONE_NEWTIME = 0x80"

definition CLONE_NEWNS :: "32 word" where
  "CLONE_NEWNS = 0x20000"

definition CLONE_NEWCGROUP :: "32 word" where
  "CLONE_NEWCGROUP = 0x2000000"

definition CLONE_NEWUTS :: "32 word" where
  "CLONE_NEWUTS = 0x4000000"

definition CLONE_NEWIPC :: "32 word" where
  "CLONE_NEWIPC = 0x8000000"

definition CLONE_NEWUSER :: "32 word" where
  "CLONE_NEWUSER = 0x10000000"

definition CLONE_NEWPID :: "32 word" where
  "CLONE_NEWPID = 0x20000000"

definition CLONE_NEWNET :: "32 word" where
  "CLONE_NEWNET = 0x40000000"

lemmas clone_defs = CLONE_NEWTIME_def CLONE_NEWNS_def CLONE_NEWCGROUP_def CLONE_NEWUTS_def CLONE_NEWIPC_def CLONE_NEWUSER_def
  CLONE_NEWPID_def CLONE_NEWNET_def

section \<open>ns\_child\_exec.c, unshare.c, ns\_exec.c and ns\_run.c\<close>

text \<open>What a program does, in order; each system call can be refused by the kernel.\<close>

datatype ns_event = Cloned "32 word" | Unshared "32 word" | Joined string | Forked | Execd "string list"

datatype ns_end = Ns_usage | Ns_failed | Ns_started

record ns_kernel =
  may_clone :: "32 word \<Rightarrow> bool"
  may_unshare :: "32 word \<Rightarrow> bool"
  may_join :: "string \<Rightarrow> bool"

fun ns_child_options :: "opt_result list \<Rightarrow> 32 word \<Rightarrow> 32 word option" where
  "ns_child_options [] flags = Some flags"
| "ns_child_options (Opt c a # rs) flags =
     (if c = CHR ''C'' then ns_child_options rs (flags OR CLONE_NEWCGROUP)
      else if c = CHR ''i'' then ns_child_options rs (flags OR CLONE_NEWIPC)
      else if c = CHR ''m'' then ns_child_options rs (flags OR CLONE_NEWNS)
      else if c = CHR ''n'' then ns_child_options rs (flags OR CLONE_NEWNET)
      else if c = CHR ''p'' then ns_child_options rs (flags OR CLONE_NEWPID)
      else if c = CHR ''u'' then ns_child_options rs (flags OR CLONE_NEWUTS)
      else if c = CHR ''U'' then ns_child_options rs (flags OR CLONE_NEWUSER)
      else if c = CHR ''v'' then ns_child_options rs flags
      else None)"
| "ns_child_options (r # rs) flags = None"

definition ns_child_exec_main :: "ns_kernel \<Rightarrow> string list \<Rightarrow> ns_event list \<times> ns_end" where
  "ns_child_exec_main k argv =
     (case getopt ''+CimnpuUv'' argv of (rs, ops) \<Rightarrow>
      (case ns_child_options rs 0 of
         None \<Rightarrow> ([], Ns_usage)
       | Some flags \<Rightarrow>
           if ops = [] then ([], Ns_usage)
           else if \<not> may_clone k flags then ([], Ns_failed)
           else ([Cloned flags, Execd ops], Ns_started)))"

fun unshare_options :: "opt_result list \<Rightarrow> 32 word \<Rightarrow> bool \<Rightarrow> (32 word \<times> bool) option" where
  "unshare_options [] flags do_fork = Some (flags, do_fork)"
| "unshare_options (Opt c a # rs) flags do_fork =
     (if c = CHR ''f'' then unshare_options rs flags True
      else if c = CHR ''C'' then unshare_options rs (flags OR CLONE_NEWCGROUP) do_fork
      else if c = CHR ''i'' then unshare_options rs (flags OR CLONE_NEWIPC) do_fork
      else if c = CHR ''m'' then unshare_options rs (flags OR CLONE_NEWNS) do_fork
      else if c = CHR ''n'' then unshare_options rs (flags OR CLONE_NEWNET) do_fork
      else if c = CHR ''p'' then unshare_options rs (flags OR CLONE_NEWPID) do_fork
      else if c = CHR ''T'' then unshare_options rs (flags OR CLONE_NEWTIME) do_fork
      else if c = CHR ''u'' then unshare_options rs (flags OR CLONE_NEWUTS) do_fork
      else if c = CHR ''U'' then unshare_options rs (flags OR CLONE_NEWUSER) do_fork
      else None)"
| "unshare_options (r # rs) flags do_fork = None"

definition unshare_main :: "ns_kernel \<Rightarrow> string list \<Rightarrow> ns_event list \<times> ns_end" where
  "unshare_main k argv =
     (case getopt ''+CfimnpTuU'' argv of (rs, ops) \<Rightarrow>
      (case unshare_options rs 0 False of
         None \<Rightarrow> ([], Ns_usage)
       | Some (flags, do_fork) \<Rightarrow>
           if ops = [] then ([], Ns_usage)
           else if \<not> may_unshare k flags then ([], Ns_failed)
           else ([Unshared flags] @ (if do_fork then [Forked] else []) @ [Execd ops], Ns_started)))"

definition ns_exec_main :: "ns_kernel \<Rightarrow> string list \<Rightarrow> ns_event list \<times> ns_end" where
  "ns_exec_main k argv =
     (case getopt ''+f'' argv of (rs, ops) \<Rightarrow>
      if list_ex is_bad rs \<or> length ops < 2 then ([], Ns_usage)
      else if \<not> may_join k (ops ! 0) then ([], Ns_failed)
      else ([Joined (ops ! 0)] @ (if rs \<noteq> [] then [Forked] else []) @ [Execd (tl ops)], Ns_started))"

text \<open>\<^verbatim>\<open>ns_run\<close> joins the namespaces while it reads its options.\<close>

fun ns_run_options :: "ns_kernel \<Rightarrow> opt_result list \<Rightarrow> bool \<Rightarrow> ns_event list \<Rightarrow> (ns_event list \<times> ns_end) + (bool \<times> ns_event list)" where
  "ns_run_options k [] do_fork evs = Inr (do_fork, evs)"
| "ns_run_options k (Opt c (Some f) # rs) do_fork evs =
     (if c = CHR ''n'' then (if may_join k f then ns_run_options k rs do_fork (evs @ [Joined f]) else Inl (evs, Ns_failed))
      else Inl (evs, Ns_usage))"
| "ns_run_options k (Opt c None # rs) do_fork evs =
     (if c = CHR ''f'' then ns_run_options k rs True evs else Inl (evs, Ns_usage))"
| "ns_run_options k (r # rs) do_fork evs = Inl (evs, Ns_usage)"

definition ns_run_main :: "ns_kernel \<Rightarrow> string list \<Rightarrow> ns_event list \<times> ns_end" where
  "ns_run_main k argv =
     (case getopt ''+fn:'' argv of (rs, ops) \<Rightarrow>
      (case ns_run_options k rs False [] of
         Inl r \<Rightarrow> r
       | Inr (do_fork, evs) \<Rightarrow>
           if ops = [] then (evs, Ns_usage)
           else (evs @ (if do_fork then [Forked] else []) @ [Execd ops], Ns_started)))"

section \<open>What was asked for is done\<close>

text \<open>The namespace that a letter stands for.\<close>

definition ns_letters :: "(char \<times> 32 word) list" where
  "ns_letters = [(CHR ''C'', CLONE_NEWCGROUP), (CHR ''i'', CLONE_NEWIPC), (CHR ''m'', CLONE_NEWNS), (CHR ''n'', CLONE_NEWNET),
     (CHR ''p'', CLONE_NEWPID), (CHR ''T'', CLONE_NEWTIME), (CHR ''u'', CLONE_NEWUTS), (CHR ''U'', CLONE_NEWUSER)]"

definition wanted_flags :: "char set \<Rightarrow> 32 word" where
  "wanted_flags cs = foldr (OR) (map (\<lambda>(c, f). if c \<in> cs then f else 0) ns_letters) 0"

text \<open>Different namespaces have different bits, so that no letter is taken for another one.\<close>

definition apart :: "char \<times> 32 word \<Rightarrow> char \<times> 32 word \<Rightarrow> bool" where
  "apart x y \<longleftrightarrow> (if fst x = fst y then snd x = snd y else snd x AND snd y = 0) \<and> snd x \<noteq> 0"

lemma ns_letters_apart: "\<forall>x \<in> set ns_letters. \<forall>y \<in> set ns_letters. apart x y"
  by code_simp

lemma ns_letters_two:
  assumes "(c, f) \<in> set ns_letters" "(d, g) \<in> set ns_letters"
  shows "if c = d then f = g else f AND g = 0" "f \<noteq> 0"
proof -
  have "apart (c, f) (d, g)" using ns_letters_apart assms by blast
  then show "if c = d then f = g else f AND g = 0" "f \<noteq> 0" unfolding apart_def by (auto split: if_splits)
qed

lemma ns_letters_same: "(c, f) \<in> set ns_letters \<Longrightarrow> (c, g) \<in> set ns_letters \<Longrightarrow> f = g"
  using ns_letters_two(1)[of c f c g] by simp

lemma foldr_or_bit: "bit (foldr (OR) fs (0 :: 32 word)) n \<longleftrightarrow> (\<exists>f \<in> set fs. bit f n)"
  by (induction fs) (auto simp: bit_simps)

lemma wanted_bit: "bit (wanted_flags cs) n \<longleftrightarrow> (\<exists>(c, f) \<in> set ns_letters. c \<in> cs \<and> bit f n)"
proof -
  have "bit (wanted_flags cs) n \<longleftrightarrow> (\<exists>x \<in> set ns_letters. bit (case x of (c, f) \<Rightarrow> if c \<in> cs then f else 0) n)"
    unfolding wanted_flags_def foldr_or_bit by simp
  moreover have "bit (if c \<in> cs then f else 0) n \<longleftrightarrow> c \<in> cs \<and> bit f n" for c and f :: "32 word" by simp
  ultimately show ?thesis by (simp add: case_prod_beta)
qed

lemma wanted_flags_insert: "(c, f) \<in> set ns_letters \<Longrightarrow> wanted_flags (insert c cs) = wanted_flags cs OR f"
  by (rule bit_word_eqI) (auto simp: wanted_bit bit_or_iff dest: ns_letters_same)

lemma wanted_flags_bits:
  assumes "(c, f) \<in> set ns_letters"
  shows "(wanted_flags cs AND f \<noteq> 0) \<longleftrightarrow> c \<in> cs"
proof
  assume "c \<in> cs"
  then have "wanted_flags cs = wanted_flags cs OR f" using wanted_flags_insert[OF assms, of cs] by (simp add: insert_absorb)
  then have "bit (wanted_flags cs) n \<longleftrightarrow> bit (wanted_flags cs) n \<or> bit f n" for n by (metis bit_or_iff)
  then have "wanted_flags cs AND f = f" by (intro bit_word_eqI) (auto simp: bit_and_iff)
  then show "wanted_flags cs AND f \<noteq> 0" using ns_letters_two(2)[OF assms assms] by simp
next
  assume "wanted_flags cs AND f \<noteq> 0"
  then obtain n where n: "bit (wanted_flags cs) n" "bit f n" by (auto simp: bit_eq_iff bit_and_iff)
  then obtain d g where d: "(d, g) \<in> set ns_letters" "d \<in> cs" "bit g n" by (auto simp: wanted_bit)
  then have "bit (f AND g) n" using n(2) by (simp add: bit_and_iff)
  then have "f AND g \<noteq> 0" by auto
  then show "c \<in> cs" using ns_letters_two(1)[OF assms d(1)] d(2) by (auto split: if_splits)
qed

lemma wanted_flags_none: "wanted_flags {} = 0" "c \<notin> fst ` set ns_letters \<Longrightarrow> wanted_flags (insert c cs) = wanted_flags cs"
  by (rule bit_word_eqI, simp add: wanted_bit) (rule bit_word_eqI, force simp: wanted_bit)

lemma wanted_letter: "(c, f) \<in> set ns_letters \<Longrightarrow> (flags OR f) OR wanted_flags cs = flags OR wanted_flags (insert c cs)"
  by (simp add: wanted_flags_insert ac_simps)

lemma letter_flags:
  "(CHR ''C'', CLONE_NEWCGROUP) \<in> set ns_letters" "(CHR ''i'', CLONE_NEWIPC) \<in> set ns_letters" "(CHR ''m'', CLONE_NEWNS) \<in> set ns_letters"
  "(CHR ''n'', CLONE_NEWNET) \<in> set ns_letters" "(CHR ''p'', CLONE_NEWPID) \<in> set ns_letters" "(CHR ''T'', CLONE_NEWTIME) \<in> set ns_letters"
  "(CHR ''u'', CLONE_NEWUTS) \<in> set ns_letters" "(CHR ''U'', CLONE_NEWUSER) \<in> set ns_letters"
  by (simp_all add: ns_letters_def)

lemma no_letters: "CHR ''v'' \<notin> fst ` set ns_letters" "CHR ''f'' \<notin> fst ` set ns_letters"
  by (simp_all add: ns_letters_def)

definition flag_results :: "string \<Rightarrow> opt_result list" where
  "flag_results cs = map (\<lambda>c. Opt c None) cs"

lemma ns_child_options_flags:
  "set cs \<subseteq> set ''CimnpuUv'' \<Longrightarrow> ns_child_options (flag_results cs) flags = Some (flags OR wanted_flags (set cs))"
proof (induction cs arbitrary: flags)
  case (Cons c cs)
  then have IH: "ns_child_options (flag_results cs) x = Some (x OR wanted_flags (set cs))" for x by simp
  have "c \<in> set ''CimnpuUv''" using Cons.prems by simp
  then show ?case
    using IH wanted_letter[OF letter_flags(1)] wanted_letter[OF letter_flags(2)] wanted_letter[OF letter_flags(3)]
      wanted_letter[OF letter_flags(4)] wanted_letter[OF letter_flags(5)] wanted_letter[OF letter_flags(7)] wanted_letter[OF letter_flags(8)]
      wanted_flags_none(2)[OF no_letters(1)]
    by (simp add: flag_results_def) (elim disjE; simp)
qed (simp add: flag_results_def wanted_flags_none)

lemma unshare_options_flags:
  "set cs \<subseteq> set ''CfimnpTuU'' \<Longrightarrow>
    unshare_options (flag_results cs) flags f = Some (flags OR wanted_flags (set cs), f \<or> CHR ''f'' \<in> set cs)"
proof (induction cs arbitrary: flags f)
  case (Cons c cs)
  then have IH: "unshare_options (flag_results cs) x y = Some (x OR wanted_flags (set cs), y \<or> CHR ''f'' \<in> set cs)" for x y by simp
  have "c \<in> set ''CfimnpTuU''" using Cons.prems by simp
  then show ?case
    using IH wanted_letter[OF letter_flags(1)] wanted_letter[OF letter_flags(2)] wanted_letter[OF letter_flags(3)] wanted_letter[OF letter_flags(4)]
      wanted_letter[OF letter_flags(5)] wanted_letter[OF letter_flags(6)] wanted_letter[OF letter_flags(7)] wanted_letter[OF letter_flags(8)]
      wanted_flags_none(2)[OF no_letters(2)]
    by (simp add: flag_results_def) (elim disjE; simp)
qed (simp add: flag_results_def wanted_flags_none)

lemma ns_run_written:
  "list_all (may_join k) files \<Longrightarrow>
    ns_run_options k (map (\<lambda>f. Opt CHR ''n'' (Some f)) files) do_fork evs = Inr (do_fork, evs @ map Joined files)"
  by (induction files arbitrary: evs) auto

lemma concat_flag_results: "concat (map word_options (map Flags ws)) = flag_results (concat ws)"
  by (induction ws) (auto simp: flag_results_def)

definition fork_if :: "bool \<Rightarrow> ns_event list" where
  "fork_if b = (if b then [Forked] else [])"

lemma flags_ok:
  assumes "\<forall>w \<in> set ws. w \<noteq> [] \<and> set w \<subseteq> set spec" "\<And>c. c \<in> set spec \<Longrightarrow> c \<noteq> CHR ''-'' \<and> spec_find spec c = Some False"
  shows "list_all (word_ok spec) (map Flags ws)" "set (concat ws) \<subseteq> set spec"
  using assms unfolding list_all_iff by (auto simp: list_all_iff subset_iff)

lemma ns_specs:
  "c \<in> set ''CimnpuUv'' \<Longrightarrow> c \<noteq> CHR ''-'' \<and> spec_find ''CimnpuUv'' c = Some False"
  "c \<in> set ''CfimnpTuU'' \<Longrightarrow> c \<noteq> CHR ''-'' \<and> spec_find ''CfimnpTuU'' c = Some False"
  by (simp, elim disjE; simp)+

lemma ns_child_exec_written:
  assumes "\<forall>w \<in> set ws. w \<noteq> [] \<and> set w \<subseteq> set ''CimnpuUv''" "\<not> is_option cmd" "may_clone k (wanted_flags (set (concat ws)))"
  shows "ns_child_exec_main k (prog # concat (map opt_words (map Flags ws)) @ cmd # args) =
    ([Cloned (wanted_flags (set (concat ws))), Execd (cmd # args)], Ns_started)"
proof -
  note ok = flags_ok[OF assms(1) ns_specs(1)]
  have g: "getopt ''+CimnpuUv'' (prog # concat (map opt_words (map Flags ws)) @ cmd # args) = (flag_results (concat ws), cmd # args)"
    using getopt_command[OF ok(1) assms(2), of prog args] unfolding concat_flag_results .
  show ?thesis unfolding ns_child_exec_main_def g
    using assms(3) ns_child_options_flags[OF ok(2), of 0] by (simp del: set_concat)
qed

lemma unshare_written:
  assumes "\<forall>w \<in> set ws. w \<noteq> [] \<and> set w \<subseteq> set ''CfimnpTuU''" "\<not> is_option cmd" "may_unshare k (wanted_flags (set (concat ws)))"
  shows "unshare_main k (prog # concat (map opt_words (map Flags ws)) @ cmd # args) =
    ([Unshared (wanted_flags (set (concat ws)))] @ fork_if (CHR ''f'' \<in> set (concat ws)) @ [Execd (cmd # args)], Ns_started)"
proof -
  note ok = flags_ok[OF assms(1) ns_specs(2)]
  have g: "getopt ''+CfimnpTuU'' (prog # concat (map opt_words (map Flags ws)) @ cmd # args) = (flag_results (concat ws), cmd # args)"
    using getopt_command[OF ok(1) assms(2), of prog args] unfolding concat_flag_results .
  show ?thesis unfolding unshare_main_def g
    using assms(3) unshare_options_flags[OF ok(2), of 0 False] by (simp add: fork_if_def del: set_concat)
qed

lemma ns_run_written_main:
  assumes "list_all (may_join k) files" "\<not> is_option cmd"
  shows "ns_run_main k (prog # concat (map opt_words (map (\<lambda>f. With_arg CHR ''n'' f False) files)) @ cmd # args) =
    (map Joined files @ [Execd (cmd # args)], Ns_started)"
proof -
  have ok: "list_all (word_ok ''fn:'') (map (\<lambda>f. With_arg CHR ''n'' f False) files)" by (simp add: list_all_iff)
  have w: "concat (map word_options (map (\<lambda>f. With_arg CHR ''n'' f False) files)) = map (\<lambda>f. Opt CHR ''n'' (Some f)) files"
    by (induction files) auto
  have "getopt ''+fn:'' (prog # concat (map opt_words (map (\<lambda>f. With_arg CHR ''n'' f False) files)) @ cmd # args) =
      (map (\<lambda>f. Opt CHR ''n'' (Some f)) files, cmd # args)"
    using getopt_command[OF ok assms(2), of prog args] unfolding w .
  then show ?thesis unfolding ns_run_main_def using ns_run_written[OF assms(1), of False "[]"] by simp
qed



end
