(* ===== verification/Userns_Exec.thy ===== *)
theory Userns_Exec
  imports Ns_Exec Interleave
begin

text \<open>
  \<^verbatim>\<open>userns_child_exec.c\<close> and \<^verbatim>\<open>userns_functions.c\<close> (\<^verbatim>\<open>tlpi-dist/namespaces\<close>): a child runs a command in a new user
  namespace.  The parent writes the ID maps while the child waits for it on a pipe; they are interleaved
  processes.
\<close>

section \<open>userns\_functions.c\<close>

text \<open>
  The files below \<^verbatim>\<open>/proc/PID\<close>: whether a file can be opened, or the error, and whether the kernel accepts
  what is written.  A map file takes all of the text or nothing.
\<close>

record proc_sys =
  open_result :: "string \<Rightarrow> errno option"
  accepts :: "string \<Rightarrow> string \<Rightarrow> bool"

definition update_map :: "proc_sys \<Rightarrow> string \<Rightarrow> string \<Rightarrow> int \<times> (string \<times> string) list" where
  "update_map sys mapping map_file =
     (let m = map (\<lambda>c. if c = CHR '','' then CHR 0x0A else c) mapping in
      if open_result sys map_file \<noteq> None then (-1, [])
      else if accepts sys map_file m then (0, [(map_file, m)]) else (-1, []))"

definition setgroups_path :: "int \<Rightarrow> string" where
  "setgroups_path pid = ''/proc/'' @ show_int pid @ ''/setgroups''"

definition proc_setgroups_write :: "proc_sys \<Rightarrow> int \<Rightarrow> string \<Rightarrow> int \<times> (string \<times> string) list" where
  "proc_setgroups_write sys child_pid str =
     (let e = open_result sys (setgroups_path child_pid) in
      if e = Some ENOENT then (0, [])
      else if e \<noteq> None then (-1, [])
      else if accepts sys (setgroups_path child_pid) str then (0, [(setgroups_path child_pid, str)]) else (-1, []))"

section \<open>The options\<close>

definition MAX_OPT :: nat where
  "MAX_OPT = 100"

record cmd_options =
  co_argv :: "string list"
  co_flags :: "32 word"
  create_root_mappings :: bool
  deny_setgroups :: bool
  co_verbose :: bool
  uid_map :: "string option"
  gid_map :: "string option"
  projid_map :: "string option"
  opt_list :: "(char \<times> string option) list"

datatype parse_error = Too_many_options | Map_without_user | No_command | Bad_option

definition no_options :: cmd_options where
  "no_options = \<lparr>co_argv = [], co_flags = 0, create_root_mappings = False, deny_setgroups = True, co_verbose = False,
     uid_map = None, gid_map = None, projid_map = None, opt_list = []\<rparr>"

text \<open>One turn of the loop over the options.\<close>

definition parse_option :: "char \<Rightarrow> string option \<Rightarrow> cmd_options \<Rightarrow> parse_error + cmd_options" where
  "parse_option opt optarg opts =
     (if opt = CHR ''C'' then Inr (opts\<lparr>co_flags := co_flags opts OR CLONE_NEWCGROUP\<rparr>)
      else if opt = CHR ''i'' then Inr (opts\<lparr>co_flags := co_flags opts OR CLONE_NEWIPC\<rparr>)
      else if opt = CHR ''m'' then Inr (opts\<lparr>co_flags := co_flags opts OR CLONE_NEWNS\<rparr>)
      else if opt = CHR ''n'' then Inr (opts\<lparr>co_flags := co_flags opts OR CLONE_NEWNET\<rparr>)
      else if opt = CHR ''p'' then Inr (opts\<lparr>co_flags := co_flags opts OR CLONE_NEWPID\<rparr>)
      else if opt = CHR ''u'' then Inr (opts\<lparr>co_flags := co_flags opts OR CLONE_NEWUTS\<rparr>)
      else if opt = CHR ''U'' then Inr (opts\<lparr>co_flags := co_flags opts OR CLONE_NEWUSER\<rparr>)
      else if opt = CHR ''M'' then Inr (opts\<lparr>uid_map := optarg\<rparr>)
      else if opt = CHR ''G'' then Inr (opts\<lparr>gid_map := optarg\<rparr>)
      else if opt = CHR ''P'' then Inr (opts\<lparr>projid_map := optarg\<rparr>)
      else if opt = CHR ''r'' then Inr (opts\<lparr>create_root_mappings := True\<rparr>)
      else if opt = CHR ''D'' then Inr (opts\<lparr>deny_setgroups := False\<rparr>)
      else if opt = CHR ''v'' then Inr (opts\<lparr>co_verbose := True\<rparr>)
      else if opt \<in> set ''IAbsdxXw'' then
        (if MAX_OPT \<le> length (opt_list opts) then Inl Too_many_options
         else Inr (opts\<lparr>opt_list := opt_list opts @ [(opt, if opt \<in> set ''sSxXwb'' then optarg else None)]\<rparr>))
      else Inl Bad_option)"

fun parse_loop :: "opt_result list \<Rightarrow> cmd_options \<Rightarrow> parse_error + cmd_options" where
  "parse_loop [] opts = Inr opts"
| "parse_loop (Opt c a # rs) opts = (case parse_option c a opts of Inl e \<Rightarrow> Inl e | Inr opts' \<Rightarrow> parse_loop rs opts')"
| "parse_loop (r # rs) opts = Inl Bad_option"

definition parse_command_options :: "string list \<Rightarrow> parse_error + cmd_options" where
  "parse_command_options argv =
     (case getopt ''+CimnuUM:G:P:rDvpAIs:b:S:dx:X:w:'' argv of (rs, ops) \<Rightarrow>
      (case parse_loop rs no_options of
         Inl e \<Rightarrow> Inl e
       | Inr opts \<Rightarrow>
           if (uid_map opts \<noteq> None \<or> gid_map opts \<noteq> None \<or> projid_map opts \<noteq> None \<or> create_root_mappings opts) \<and>
              co_flags opts AND CLONE_NEWUSER = 0 \<or>
              create_root_mappings opts \<and> (uid_map opts \<noteq> None \<or> gid_map opts \<noteq> None)
           then Inl Map_without_user
           else if ops = [] then Inl No_command
           else Inr (opts\<lparr>co_argv := ops\<rparr>)))"

section \<open>The repeatable options\<close>

fun raise_range :: "bool \<Rightarrow> nat list \<Rightarrow> cred \<Rightarrow> cred" where
  "raise_range doAmbient [] c = c"
| "raise_range doAmbient (cap # caps) c =
     (let c1 = (case modifyCapSetting CAP_INHERITABLE cap True c of None \<Rightarrow> c | Some c' \<Rightarrow> c');
          c2 = (if doAmbient then (case ambient_raise cap c1 of None \<Rightarrow> c1 | Some c' \<Rightarrow> c') else c1)
      in raise_range doAmbient caps c2)"

definition raiseInheritableAndAmbientCaps :: "bool \<Rightarrow> cred \<Rightarrow> cred" where
  "raiseInheritableAndAmbientCaps doAmbient c = raise_range doAmbient [0..<Suc CAP_LAST_CAP] c"

text \<open>The library functions on names and texts of capabilities are parameters.\<close>

record libcap =
  cap_from_name :: "string \<Rightarrow> nat option"
  cap_from_text :: "string \<Rightarrow> cap_sets option"

fun modify_sets :: "bool \<Rightarrow> nat \<Rightarrow> string \<Rightarrow> cred \<Rightarrow> cred option" where
  "modify_sets raise cap [] c = Some c"
| "modify_sets raise cap (p # ps) c =
     (case (if p \<in> set ''pie'' then
              modifyCapSetting (if p = CHR ''p'' then CAP_PERMITTED else if p = CHR ''e'' then CAP_EFFECTIVE else CAP_INHERITABLE) cap raise c
            else if p = CHR ''b'' then (if raise then None else capbset_drop cap c)
            else if p = CHR ''a'' then (if raise then ambient_raise cap c else ambient_lower cap c)
            else None) of
        None \<Rightarrow> None
      | Some c' \<Rightarrow> modify_sets raise cap ps c')"

definition modify_individual_capability :: "libcap \<Rightarrow> string \<Rightarrow> cred \<Rightarrow> cred option" where
  "modify_individual_capability lib optval c =
     (let sets = takeWhile (\<lambda>ch. ch \<noteq> CHR ''+'' \<and> ch \<noteq> CHR ''-'') optval; op = drop (length sets) optval in
      if op = [] \<or> tl op = [] \<or> \<not> set sets \<subseteq> set ''peiba'' then None
      else (case cap_from_name lib (tl op) of None \<Rightarrow> None | Some cap \<Rightarrow> modify_sets (hd op = CHR ''+'') cap sets c))"

fun secbits_of :: "string \<Rightarrow> 32 word \<Rightarrow> 32 word option" where
  "secbits_of [] b = Some b"
| "secbits_of (p # ps) b =
     (if p = CHR ''a'' then secbits_of ps (b OR SECBIT_NO_CAP_AMBIENT_RAISE)
      else if p = CHR ''A'' then secbits_of ps (b OR SECBIT_NO_CAP_AMBIENT_RAISE_LOCKED)
      else if p = CHR ''k'' then secbits_of ps (b OR SECBIT_KEEP_CAPS)
      else if p = CHR ''K'' then secbits_of ps (b OR SECBIT_KEEP_CAPS_LOCKED)
      else if p = CHR ''r'' then secbits_of ps (b OR SECBIT_NOROOT)
      else if p = CHR ''R'' then secbits_of ps (b OR SECBIT_NOROOT_LOCKED)
      else if p = CHR ''s'' then secbits_of ps (b OR SECBIT_NO_SETUID_FIXUP)
      else if p = CHR ''S'' then secbits_of ps (b OR SECBIT_NO_SETUID_FIXUP_LOCKED)
      else if p = CHR ''0'' then secbits_of ps 0
      else None)"

definition set_securebits :: "string \<Rightarrow> cred \<Rightarrow> cred option" where
  "set_securebits optval c = (case secbits_of optval 0 of None \<Rightarrow> None | Some b \<Rightarrow> set_securebits_call b c)"

definition set_process_uids :: "string \<Rightarrow> cred \<Rightarrow> cred option" where
  "set_process_uids optval c =
     (let u1 = takeWhile (\<lambda>ch. ch \<noteq> CHR '','') optval; r1 = drop (length u1) optval;
          u2 = takeWhile (\<lambda>ch. ch \<noteq> CHR '','') (tl r1); r2 = drop (length u2) (tl r1) in
      if r1 = [] \<or> r2 = [] then None else setresuid (id_of_arg u1) (id_of_arg u2) (id_of_arg (tl r2)) c)"

text \<open>What the options for display show, and the credentials at the end; no value when the child exits.\<close>

fun perform_repeatable_options ::
  "libcap \<Rightarrow> (char \<times> string option) list \<Rightarrow> cred \<Rightarrow> nat \<Rightarrow> (nat \<times> cred) list \<times> cred option" where
  "perform_repeatable_options lib [] c display_cnt = ([], Some c)"
| "perform_repeatable_options lib ((opt, val) # os) c display_cnt =
     (let v = (case val of None \<Rightarrow> [] | Some v \<Rightarrow> v) in
      if opt = CHR ''d'' then
        (case perform_repeatable_options lib os c (Suc display_cnt) of (shown, r) \<Rightarrow> ((Suc display_cnt, c) # shown, r))
      else
        (case (if opt = CHR ''A'' then Some (raiseInheritableAndAmbientCaps True c)
               else if opt = CHR ''b'' then set_securebits v c
               else if opt = CHR ''I'' then Some (raiseInheritableAndAmbientCaps False c)
               else if opt = CHR ''s'' then setresuid (id_of_arg v) (id_of_arg v) (id_of_arg v) c
               else if opt = CHR ''S'' then set_process_uids v c
               else if opt = CHR ''x'' then
                 (case cap_from_text lib v of
                    None \<Rightarrow> None | Some cs \<Rightarrow> capset (cs_permitted cs) (cs_effective cs) (cs_inheritable cs) c)
               else if opt = CHR ''X'' then modify_individual_capability lib v c
               else Some c) of
           None \<Rightarrow> ([], None)
         | Some c' \<Rightarrow> perform_repeatable_options lib os c' display_cnt))"

section \<open>The parent and the child\<close>

datatype ue_event = Wrote string string | Parent_failed | Displayed nat cred | Child_failed | Child_exec "string list" cred

text \<open>
  What surrounds a run: the files of \<^verbatim>\<open>/proc\<close>, the IDs of the parent and of the child, the credentials that the child
  starts with, as its own user namespace sees them, and the programs that \<^verbatim>\<open>execvp\<close> finds.
\<close>

record ue_env =
  env_proc :: proc_sys
  env_lib :: libcap
  child_pid :: int
  parent_uid :: int
  parent_gid :: int
  child_cred :: cred
  executable :: "string \<Rightarrow> bool"

definition proc_file :: "ue_env \<Rightarrow> string \<Rightarrow> string" where
  "proc_file env name = ''/proc/'' @ show_int (child_pid env) @ ''/'' @ name"

text \<open>The updates in their order; each is a call that may end the parent.\<close>

datatype map_call = Update_map string string | Setgroups_write string

definition update_child_maps :: "ue_env \<Rightarrow> cmd_options \<Rightarrow> map_call list" where
  "update_child_maps env opts =
     (if uid_map opts \<noteq> None \<or> create_root_mappings opts then
        [Update_map (if create_root_mappings opts then ''0 '' @ show_int (parent_uid env) @ '' 1'' else the (uid_map opts))
           (proc_file env ''uid_map'')]
      else []) @
     (if gid_map opts \<noteq> None \<or> create_root_mappings opts then
        (if deny_setgroups opts then [Setgroups_write ''deny''] else []) @
        [Update_map (if create_root_mappings opts then ''0 '' @ show_int (parent_gid env) @ '' 1'' else the (gid_map opts))
           (proc_file env ''gid_map'')]
      else []) @
     (if projid_map opts \<noteq> None then [Update_map (the (projid_map opts)) (proc_file env ''projid_map'')] else [])"

definition map_call_result :: "ue_env \<Rightarrow> map_call \<Rightarrow> int \<times> (string \<times> string) list" where
  "map_call_result env mc =
     (case mc of Update_map m path \<Rightarrow> update_map (env_proc env) m path
      | Setgroups_write str \<Rightarrow> proc_setgroups_write (env_proc env) (child_pid env) str)"

definition child_events :: "ue_env \<Rightarrow> cmd_options \<Rightarrow> ue_event list" where
  "child_events env opts =
     (case perform_repeatable_options (env_lib env) (opt_list opts) (child_cred env) 0 of (shown, r) \<Rightarrow>
        map (\<lambda>(n, c). Displayed n c) shown @
        (case r of None \<Rightarrow> [Child_failed]
         | Some c \<Rightarrow> if executable env (hd (co_argv opts)) then [Child_exec (co_argv opts) c] else [Child_failed]))"

record ue_sys =
  parent_w :: bool
  child_w :: bool
  child_over :: bool
  ue_log :: "ue_event list"

datatype ue_proc =
  Maps "map_call list" | Close_w | Wait_child | Parent_exit nat
| Child_close | Child_read | Child_run | Child_command | Child_exit

fun childFunc :: "ue_env \<Rightarrow> cmd_options \<Rightarrow> ue_proc \<Rightarrow> ue_sys \<Rightarrow> (ue_proc \<times> ue_sys) option" where
  "childFunc env opts Child_close s = Some (Child_read, s\<lparr>child_w := False\<rparr>)"
| "childFunc env opts Child_read s = (if parent_w s \<or> child_w s then None else Some (Child_run, s))"
| "childFunc env opts Child_run s = Some (Child_command, s\<lparr>ue_log := ue_log s @ child_events env opts\<rparr>)"
| "childFunc env opts Child_command s = Some (Child_exit, s\<lparr>child_over := True\<rparr>)"
| "childFunc env opts p s = None"

text \<open>The end of the parent closes its descriptors too.\<close>

fun userns_parent :: "ue_env \<Rightarrow> ue_proc \<Rightarrow> ue_sys \<Rightarrow> (ue_proc \<times> ue_sys) option" where
  "userns_parent env (Maps (mc # mcs)) s =
     (case map_call_result env mc of (status, ws) \<Rightarrow>
        if status = -1 then Some (Parent_exit 1, s\<lparr>parent_w := False, ue_log := ue_log s @ [Parent_failed]\<rparr>)
        else Some (Maps mcs, s\<lparr>ue_log := ue_log s @ map (\<lambda>(f, m). Wrote f m) ws\<rparr>))"
| "userns_parent env (Maps []) s = Some (Close_w, s)"
| "userns_parent env Close_w s = Some (Wait_child, s\<lparr>parent_w := False\<rparr>)"
| "userns_parent env Wait_child s = (if child_over s then Some (Parent_exit 0, s) else None)"
| "userns_parent env p s = None"

definition ue_next :: "ue_env \<Rightarrow> cmd_options \<Rightarrow> ue_proc \<Rightarrow> ue_sys \<Rightarrow> (ue_proc \<times> ue_sys) option" where
  "ue_next env opts p s =
     (case p of Maps mcs \<Rightarrow> userns_parent env p s | Close_w \<Rightarrow> userns_parent env p s | Wait_child \<Rightarrow> userns_parent env p s
      | Parent_exit n \<Rightarrow> None | _ \<Rightarrow> childFunc env opts p s)"

text \<open>After the command line is parsed: the pipe, the child, and both processes at their start.\<close>

definition userns_child_exec_main ::
  "ue_env \<Rightarrow> string list \<Rightarrow> parse_error + (cmd_options \<times> ue_sys \<times> ue_proc list)" where
  "userns_child_exec_main env argv =
     (case parse_command_options argv of
        Inl e \<Rightarrow> Inl e
      | Inr opts \<Rightarrow> Inr (opts, \<lparr>parent_w = True, child_w = True, child_over = False, ue_log = []\<rparr>,
          [Maps (update_child_maps env opts), Child_close]))"

section \<open>The maps come before the command\<close>

text \<open>What is to be written, in order, whatever the kernel says.\<close>

definition lines_of :: "string \<Rightarrow> string" where
  "lines_of m = map (\<lambda>c. if c = CHR '','' then CHR 0x0A else c) m"

definition required_writes :: "ue_env \<Rightarrow> cmd_options \<Rightarrow> (string \<times> string) list" where
  "required_writes env opts =
     (if create_root_mappings opts then [(proc_file env ''uid_map'', ''0 '' @ show_int (parent_uid env) @ '' 1'')]
      else (case uid_map opts of None \<Rightarrow> [] | Some m \<Rightarrow> [(proc_file env ''uid_map'', lines_of m)])) @
     (if deny_setgroups opts \<and> (create_root_mappings opts \<or> gid_map opts \<noteq> None) \<and>
         open_result (env_proc env) (proc_file env ''setgroups'') \<noteq> Some ENOENT
      then [(proc_file env ''setgroups'', ''deny'')] else []) @
     (if create_root_mappings opts then [(proc_file env ''gid_map'', ''0 '' @ show_int (parent_gid env) @ '' 1'')]
      else (case gid_map opts of None \<Rightarrow> [] | Some m \<Rightarrow> [(proc_file env ''gid_map'', lines_of m)])) @
     (case projid_map opts of None \<Rightarrow> [] | Some m \<Rightarrow> [(proc_file env ''projid_map'', lines_of m)])"

definition accepted :: "ue_env \<Rightarrow> string \<times> string \<Rightarrow> bool" where
  "accepted env w = (open_result (env_proc env) (fst w) = None \<and> accepts (env_proc env) (fst w) (snd w))"

definition parent_events :: "ue_env \<Rightarrow> (string \<times> string) list \<Rightarrow> ue_event list" where
  "parent_events env ws =
     map (\<lambda>(f, m). Wrote f m) (takeWhile (accepted env) ws) @ (if list_all (accepted env) ws then [] else [Parent_failed])"

lemma no_comma: "lines_of (''0 '' @ show_int n @ '' 1'') = ''0 '' @ show_int n @ '' 1''"
proof -
  have "map (\<lambda>c. if c = CHR '','' then CHR 0x0A else c) (show_int n) = show_int n"
    using show_int_chars[of "CHR '',''" n] by (intro map_idI) (auto simp: isdigit_def)
  then show ?thesis by (simp add: lines_of_def)
qed

lemma update_map_result:
  "map_call_result env (Update_map m path) = (if accepted env (path, lines_of m) then (0, [(path, lines_of m)]) else (-1, []))"
  by (simp add: map_call_result_def update_map_def accepted_def lines_of_def Let_def)

lemma setgroups_result:
  "map_call_result env (Setgroups_write str) =
    (if open_result (env_proc env) (proc_file env ''setgroups'') = Some ENOENT then (0, [])
     else if accepted env (proc_file env ''setgroups'', str) then (0, [(proc_file env ''setgroups'', str)]) else (-1, []))"
proof -
  have "setgroups_path (child_pid env) = proc_file env ''setgroups''" by (simp add: setgroups_path_def proc_file_def)
  then show ?thesis
    by (simp add: map_call_result_def proc_setgroups_write_def accepted_def Let_def)
qed

text \<open>What the calls that are left will write.\<close>

definition call_writes :: "ue_env \<Rightarrow> map_call \<Rightarrow> (string \<times> string) list" where
  "call_writes env mc =
     (case mc of Update_map m path \<Rightarrow> [(path, lines_of m)]
      | Setgroups_write str \<Rightarrow> if open_result (env_proc env) (proc_file env ''setgroups'') = Some ENOENT then []
          else [(proc_file env ''setgroups'', str)])"

lemma map_call_cases:
  obtains "call_writes env mc = []" "map_call_result env mc = (0, [])"
  | w where "call_writes env mc = [w]" "map_call_result env mc = (if accepted env w then (0, [w]) else (-1, []))"
  by (cases mc; cases "open_result (env_proc env) (proc_file env ''setgroups'') = Some ENOENT")
    (auto simp: call_writes_def update_map_result setgroups_result)

lemma update_child_maps_writes: "concat (map (call_writes env) (update_child_maps env opts)) = required_writes env opts"
  by (cases "create_root_mappings opts"; cases "uid_map opts"; cases "gid_map opts"; cases "projid_map opts")
    (simp_all add: update_child_maps_def required_writes_def call_writes_def no_comma[simplified])

definition plan_left :: "ue_env \<Rightarrow> ue_proc \<Rightarrow> ue_event list" where
  "plan_left env p = (case p of Maps mcs \<Rightarrow> parent_events env (concat (map (call_writes env) mcs)) | _ \<Rightarrow> [])"

text \<open>
  What has happened and what is still to come make the whole; while the parent writes, the child waits, and it is
  the only one that still has the pipe when it goes on.
\<close>

fun parent_pc :: "ue_proc \<Rightarrow> bool" where
  "parent_pc (Maps mcs) = True"
| "parent_pc Close_w = True"
| "parent_pc Wait_child = True"
| "parent_pc (Parent_exit n) = True"
| "parent_pc p = False"

fun has_pipe :: "ue_proc \<Rightarrow> bool" where
  "has_pipe (Maps mcs) = True"
| "has_pipe Close_w = True"
| "has_pipe p = False"

fun child_waits :: "ue_proc \<Rightarrow> bool" where
  "child_waits Child_close = True"
| "child_waits Child_read = True"
| "child_waits p = False"

definition child_left :: "ue_env \<Rightarrow> cmd_options \<Rightarrow> ue_proc \<Rightarrow> ue_event list" where
  "child_left env opts q = (if child_waits q \<or> q = Child_run then child_events env opts else [])"

fun ue_inv :: "ue_env \<Rightarrow> cmd_options \<Rightarrow> ue_event list \<Rightarrow> ue_sys \<Rightarrow> ue_proc list \<Rightarrow> bool" where
  "ue_inv env opts whole s [p, q] \<longleftrightarrow>
     parent_pc p \<and> \<not> parent_pc q \<and> (parent_w s \<longleftrightarrow> has_pipe p) \<and> (child_w s \<longleftrightarrow> q = Child_close) \<and> (child_over s \<longleftrightarrow> q = Child_exit) \<and>
     (parent_w s \<longrightarrow> child_waits q) \<and> ue_log s @ plan_left env p @ child_left env opts q = whole"
| "ue_inv env opts whole s _ = False"

fun ue_rank1 :: "ue_proc \<Rightarrow> nat" where
  "ue_rank1 (Maps mcs) = 3 + length mcs"
| "ue_rank1 Close_w = 2"
| "ue_rank1 Wait_child = 1"
| "ue_rank1 (Parent_exit n) = 0"
| "ue_rank1 Child_close = 4"
| "ue_rank1 Child_read = 3"
| "ue_rank1 Child_run = 2"
| "ue_rank1 Child_command = 1"
| "ue_rank1 Child_exit = 0"

lemma parent_step_plan:
  assumes "map_call_result env mc = (status, ws)"
  shows "plan_left env (Maps (mc # mcs)) =
    (if status = -1 then [Parent_failed] else map (\<lambda>(f, m). Wrote f m) ws @ plan_left env (Maps mcs))"
proof (cases env mc rule: map_call_cases)
  case (2 w)
  then show ?thesis using assms by (cases "accepted env w") (auto simp: plan_left_def parent_events_def)
qed (use assms in \<open>simp add: plan_left_def\<close>)

lemma ue_step_parent:
  assumes "ue_inv env opts whole s [p, q]" "ue_next env opts p s = Some (p', t)"
  shows "ue_inv env opts whole t [p', q] \<and> ue_rank1 p' < ue_rank1 p"
proof (cases p)
  case (Maps mcs)
  show ?thesis
  proof (cases mcs)
    case Nil
    with Maps assms show ?thesis by (auto simp: ue_next_def plan_left_def parent_events_def)
  next
    case (Cons mc mcs')
    obtain status ws where r: "map_call_result env mc = (status, ws)" by (cases "map_call_result env mc")
    show ?thesis using assms parent_step_plan[OF r, of mcs'] r
      by (auto simp: Maps Cons ue_next_def plan_left_def[of env "Parent_exit (Suc 0)"] split: if_splits)
  qed
qed (use assms in \<open>auto simp: ue_next_def plan_left_def split: if_splits\<close>)

lemma ue_step_child:
  assumes "ue_inv env opts whole s [p, q]" "ue_next env opts q s = Some (q', t)"
  shows "ue_inv env opts whole t [p, q'] \<and> ue_rank1 q' < ue_rank1 q"
proof (cases q)
  case Child_run
  then have "\<not> has_pipe p" using assms(1) by auto
  then have "plan_left env p = []" by (cases p) (simp_all add: plan_left_def)
  with Child_run assms show ?thesis by (auto simp: ue_next_def child_left_def)
qed (use assms in \<open>auto simp: ue_next_def child_left_def split: if_splits\<close>)

interpretation userns: ending_protocol "ue_next env opts" "ue_inv env opts whole" "\<lambda>s ps. sum_list (map ue_rank1 ps)" for env opts whole
proof (unfold_locales, goal_cases)
  case (1 s ps i p t)
  then show ?case using ue_step_parent[of env opts whole s "ps ! 0" "ps ! 1" p t] ue_step_child[of env opts whole s "ps ! 0" "ps ! 1" p t]
    by (cases "(env, opts, whole, s, ps)" rule: ue_inv.cases; cases i) auto
next
  case (2 s ps i p t)
  then show ?case using ue_step_parent[of env opts whole s "ps ! 0" "ps ! 1" p t] ue_step_child[of env opts whole s "ps ! 0" "ps ! 1" p t]
    by (cases "(env, opts, whole, s, ps)" rule: ue_inv.cases; cases i) auto
qed

lemma ue_stuck:
  assumes "ue_inv env opts whole s ps" "stuck (ue_next env opts) (s, ps)"
  shows "ue_log s = whole"
proof -
  obtain p q where ps: "ps = [p, q]" using assms(1) by (cases "(env, opts, whole, s, ps)" rule: ue_inv.cases) auto
  have n: "ue_next env opts p s = None" "ue_next env opts q s = None" using assms(2) by (simp_all add: stuck_def ps)
  have i: "ue_inv env opts whole s [p, q]" using assms(1) by (simp add: ps)
  have p: "\<not> has_pipe p"
  proof (cases p)
    case (Maps mcs)
    then show ?thesis using n(1) by (cases mcs) (auto simp: ue_next_def split: prod.splits if_splits)
  qed (use n(1) in \<open>auto simp: ue_next_def\<close>)
  then have "q = Child_exit" using n(2) i by (cases q) (auto simp: ue_next_def)
  moreover have "plan_left env p = []" using p by (cases p) (simp_all add: plan_left_def)
  ultimately show ?thesis using i by (simp add: child_left_def)
qed

text \<open>
  C16: Under every schedule the run ends, and the child displays and executes after everything that the parent writes: the
  maps asked for, up to the first that the kernel refuses.  If one is refused, the parent exits, which ends the child's wait
  as well, and the child still executes the command, in a namespace without the maps.
\<close>

theorem userns_maps_before_command:
  assumes "userns_child_exec_main env argv = Inr (opts, s, ps)"
  shows "always_ends (ue_next env opts) (s, ps)
    (\<lambda>(t, _). ue_log t = parent_events env (required_writes env opts) @ child_events env opts)"
proof (rule userns.always_endsI)
  show "ue_inv env opts (parent_events env (required_writes env opts) @ child_events env opts) s ps"
    using assms by (auto simp: userns_child_exec_main_def plan_left_def child_left_def update_child_maps_writes split: sum.splits)
next
  fix t qs
  assume "ue_inv env opts (parent_events env (required_writes env opts) @ child_events env opts) t qs" "stuck (ue_next env opts) (t, qs)"
  then show "case (t, qs) of (t, _) \<Rightarrow> ue_log t = parent_events env (required_writes env opts) @ child_events env opts"
    using ue_stuck by fastforce
qed

definition example_env :: ue_env where
  "example_env = \<lparr>env_proc = \<lparr>open_result = (\<lambda>_. None), accepts = (\<lambda>f m. f \<noteq> ''/proc/7/gid_map'')\<rparr>,
     env_lib = \<lparr>cap_from_name = (\<lambda>_. None), cap_from_text = (\<lambda>_. None)\<rparr>, child_pid = 7, parent_uid = 5, parent_gid = 6,
     child_cred = example_root, executable = (\<lambda>_. True)\<rparr>"

theorem userns_maps_before_command_witness:
  "\<exists>opts s ps. userns_child_exec_main example_env [''prog'', ''-Ur'', ''sh''] = Inr (opts, s, ps) \<and>
     always_ends (ue_next example_env opts) (s, ps)
       (\<lambda>(t, _). ue_log t = [Wrote ''/proc/7/uid_map'' ''0 5 1'', Wrote ''/proc/7/setgroups'' ''deny'', Parent_failed,
          Child_exec [''sh''] example_root])"
proof -
  obtain opts s ps where m: "userns_child_exec_main example_env [''prog'', ''-Ur'', ''sh''] = Inr (opts, s, ps)"
    and o: "parse_command_options [''prog'', ''-Ur'', ''sh''] = Inr opts"
  proof -
    have "case parse_command_options [''prog'', ''-Ur'', ''sh''] of Inl e \<Rightarrow> False | Inr opts \<Rightarrow> True" by code_simp
    then show thesis using that by (auto simp: userns_child_exec_main_def split: sum.splits)
  qed
  have "case parse_command_options [''prog'', ''-Ur'', ''sh''] of Inl e \<Rightarrow> False | Inr opts \<Rightarrow>
      required_writes example_env opts =
        [(''/proc/7/uid_map'', ''0 5 1''), (''/proc/7/setgroups'', ''deny''), (''/proc/7/gid_map'', ''0 6 1'')] \<and>
      opt_list opts = [] \<and> co_argv opts = [''sh'']"
    by code_simp
  then have w: "required_writes example_env opts =
      [(''/proc/7/uid_map'', ''0 5 1''), (''/proc/7/setgroups'', ''deny''), (''/proc/7/gid_map'', ''0 6 1'')]"
    and p: "opt_list opts = []" "co_argv opts = [''sh'']" by (simp_all add: o)
  have "parent_events example_env (required_writes example_env opts) @ child_events example_env opts =
      [Wrote ''/proc/7/uid_map'' ''0 5 1'', Wrote ''/proc/7/setgroups'' ''deny'', Parent_failed, Child_exec [''sh''] example_root]"
    unfolding parent_events_def child_events_def w p by (simp add: accepted_def example_env_def)
  then show ?thesis using userns_maps_before_command[OF m] m by auto
qed

section \<open>What the parser accepts\<close>

definition repeatable :: "char \<Rightarrow> bool" where
  "repeatable c \<longleftrightarrow> c \<in> set ''IAbsdxXw''"

definition repeatable_options :: "opt_result list \<Rightarrow> (char \<times> string option) list" where
  "repeatable_options rs =
     concat (map (\<lambda>r. case r of Opt c a \<Rightarrow> if repeatable c then [(c, if c \<in> set ''sSxXwb'' then a else None)] else [] | _ \<Rightarrow> []) rs)"

definition given :: "char \<Rightarrow> opt_result list \<Rightarrow> bool" where
  "given c rs \<longleftrightarrow> list_ex (\<lambda>r. case r of Opt d a \<Rightarrow> d = c | _ \<Rightarrow> False) rs"

definition last_arg :: "char \<Rightarrow> string option \<Rightarrow> opt_result list \<Rightarrow> string option" where
  "last_arg c m rs = foldl (\<lambda>m r. case r of Opt d a \<Rightarrow> if d = c then a else m | _ \<Rightarrow> m) m rs"

definition known_option :: "opt_result \<Rightarrow> bool" where
  "known_option r = (case r of Opt c a \<Rightarrow> c \<in> set ''CimnpuUMGPrDv'' \<or> repeatable c | _ \<Rightarrow> False)"

definition apply_options :: "opt_result list \<Rightarrow> cmd_options \<Rightarrow> cmd_options" where
  "apply_options rs opts = opts\<lparr>
     co_flags := co_flags opts OR wanted_flags {c. given c rs},
     create_root_mappings := create_root_mappings opts \<or> given CHR ''r'' rs,
     deny_setgroups := deny_setgroups opts \<and> \<not> given CHR ''D'' rs,
     co_verbose := co_verbose opts \<or> given CHR ''v'' rs,
     uid_map := last_arg CHR ''M'' (uid_map opts) rs, gid_map := last_arg CHR ''G'' (gid_map opts) rs,
     projid_map := last_arg CHR ''P'' (projid_map opts) rs, opt_list := opt_list opts @ repeatable_options rs\<rparr>"

lemma given_Cons: "given c (Opt d a # rs) \<longleftrightarrow> c = d \<or> given c rs" "\<not> given c []"
  by (auto simp: given_def)

lemma wanted_flags_one: "(c, f) \<in> set ns_letters \<Longrightarrow> wanted_flags {c} = f" "c \<notin> fst ` set ns_letters \<Longrightarrow> wanted_flags {c} = 0"
  using wanted_flags_insert[of c f "{}"] wanted_flags_none(2)[of c "{}"] by (simp_all add: wanted_flags_none(1))

lemma wanted_known:
  "wanted_flags {CHR ''C''} = CLONE_NEWCGROUP" "wanted_flags {CHR ''i''} = CLONE_NEWIPC" "wanted_flags {CHR ''m''} = CLONE_NEWNS"
  "wanted_flags {CHR ''n''} = CLONE_NEWNET" "wanted_flags {CHR ''p''} = CLONE_NEWPID" "wanted_flags {CHR ''u''} = CLONE_NEWUTS"
  "wanted_flags {CHR ''U''} = CLONE_NEWUSER" "c \<in> set ''MGPrDvIAbsdxXw'' \<Longrightarrow> wanted_flags {c} = 0"
  by (rule wanted_flags_one(1), rule letter_flags)+ (rule wanted_flags_one(2), auto simp: ns_letters_def)

lemmas apply_defs = apply_options_def repeatable_options_def last_arg_def given_Cons

lemma parse_option_known:
  "parse_option c a opts =
    (if \<not> known_option (Opt c a) then Inl Bad_option
     else if repeatable c \<and> MAX_OPT \<le> length (opt_list opts) then Inl Too_many_options
     else Inr (apply_options [Opt c a] opts))"
proof -
  consider "c \<in> set ''CimnpuU''" | "c \<in> set ''MGPrDv''" | "c \<in> set ''IAbsdxXw''" | "\<not> known_option (Opt c a)"
    by (auto simp: known_option_def repeatable_def)
  then show ?thesis
  proof cases
    case 1
    then have "c = CHR ''C'' \<or> c = CHR ''i'' \<or> c = CHR ''m'' \<or> c = CHR ''n'' \<or> c = CHR ''p'' \<or> c = CHR ''u'' \<or> c = CHR ''U''" by simp
    then show ?thesis by (elim disjE) (simp_all add: parse_option_def known_option_def repeatable_def apply_defs wanted_known)
  next
    case 2
    then have "c = CHR ''M'' \<or> c = CHR ''G'' \<or> c = CHR ''P'' \<or> c = CHR ''r'' \<or> c = CHR ''D'' \<or> c = CHR ''v''" by simp
    then show ?thesis by (elim disjE) (simp_all add: parse_option_def known_option_def repeatable_def apply_defs wanted_known)
  next
    case 3
    then have "c = CHR ''I'' \<or> c = CHR ''A'' \<or> c = CHR ''b'' \<or> c = CHR ''s'' \<or> c = CHR ''d'' \<or> c = CHR ''x'' \<or> c = CHR ''X'' \<or> c = CHR ''w''"
      by simp
    then show ?thesis by (elim disjE) (simp_all add: parse_option_def known_option_def repeatable_def apply_defs wanted_known)
  next
    case 4
    then show ?thesis by (simp add: parse_option_def known_option_def repeatable_def)
  qed
qed

lemma wanted_union: "wanted_flags (as \<union> bs) = wanted_flags as OR wanted_flags bs"
  by (rule bit_word_eqI) (auto simp: wanted_bit bit_or_iff)

lemma apply_options_Cons: "apply_options rs (apply_options [Opt c a] opts) = apply_options (Opt c a # rs) opts"
proof -
  have "{d. given d (Opt c a # rs)} = {c} \<union> {d. given d rs}" by (auto simp: given_Cons)
  then have "wanted_flags {d. given d (Opt c a # rs)} = wanted_flags {c} OR wanted_flags {d. given d rs}"
    by (simp only: wanted_union)
  then show ?thesis by (auto simp: apply_defs or.assoc)
qed

lemma parse_loop_known:
  "length (opt_list o1) \<le> MAX_OPT \<Longrightarrow>
    parse_loop rs o1 = Inr o2 \<longleftrightarrow>
      list_all known_option rs \<and> length (opt_list o1) + length (repeatable_options rs) \<le> MAX_OPT \<and> o2 = apply_options rs o1"
proof (induction rs o1 rule: parse_loop.induct)
  case (1 opts)
  then show ?case by (auto simp: apply_defs wanted_flags_none)
next
  case (2 c a rs opts)
  have l: "length (opt_list (apply_options [Opt c a] opts)) = length (opt_list opts) + (if repeatable c then 1 else 0)"
    and r: "length (repeatable_options (Opt c a # rs)) = (if repeatable c then 1 else 0) + length (repeatable_options rs)"
    by (simp_all add: apply_defs)
  show ?case
  proof (cases "known_option (Opt c a) \<and> \<not> (repeatable c \<and> MAX_OPT \<le> length (opt_list opts))")
    case True
    then have p: "parse_option c a opts = Inr (apply_options [Opt c a] opts)" by (simp add: parse_option_known)
    show ?thesis using 2(1)[OF p] True 2(2) l by (auto simp: p r apply_options_Cons)
  next
    case False
    then show ?thesis using 2(2) by (auto simp: parse_option_known r)
  qed
qed (simp_all add: known_option_def)

text \<open>
  C38: The command line is accepted exactly when its options are among those below, at most a hundred of them repeatable, no map
  is given without the option for a new user namespace, root maps are not combined with others, and there is a command; and
  then the options say what was asked for, the repeatable ones in their order.  The letter S is not among them, although
  the usage message describes it and the child would perform it.
\<close>

theorem userns_options_exact:
  "(parse_command_options argv = Inr opts \<longleftrightarrow>
    (let (rs, ops) = getopt ''+CimnuUM:G:P:rDvpAIs:b:S:dx:X:w:'' argv;
         maps = {last_arg CHR ''M'' None rs, last_arg CHR ''G'' None rs}
     in list_all known_option rs \<and> length (repeatable_options rs) \<le> 100 \<and>
        (given CHR ''U'' rs \<or> maps = {None} \<and> last_arg CHR ''P'' None rs = None \<and> given CHR ''r'' rs = False) \<and>
        (maps = {None} \<or> given CHR ''r'' rs = False) \<and> ops \<noteq> [] \<and>
        opts = \<lparr>co_argv = ops, co_flags = wanted_flags {c. given c rs}, create_root_mappings = given CHR ''r'' rs,
          deny_setgroups = (given CHR ''D'' rs = False), co_verbose = given CHR ''v'' rs, uid_map = last_arg CHR ''M'' None rs,
          gid_map = last_arg CHR ''G'' None rs, projid_map = last_arg CHR ''P'' None rs, opt_list = repeatable_options rs\<rparr>)) \<and>
    known_option (Opt CHR ''S'' a) = False"
proof -
  obtain rs ops where g: "getopt ''+CimnuUM:G:P:rDvpAIs:b:S:dx:X:w:'' argv = (rs, ops)" by fastforce
  have u: "wanted_flags {c. given c rs} AND CLONE_NEWUSER \<noteq> 0 \<longleftrightarrow> given CHR ''U'' rs"
    using wanted_flags_bits[OF letter_flags(8), of "{c. given c rs}"] by simp
  have S: "\<not> known_option (Opt CHR ''S'' a)" by (simp add: known_option_def repeatable_def)
  have p: "parse_loop rs no_options = Inr o2 \<longleftrightarrow>
      list_all known_option rs \<and> length (repeatable_options rs) \<le> 100 \<and> o2 = apply_options rs no_options" for o2
    using parse_loop_known[of no_options rs o2] by (simp add: no_options_def MAX_OPT_def)
  show ?thesis
  proof (cases "parse_loop rs no_options")
    case (Inl e)
    then show ?thesis using p[of "apply_options rs no_options"] g by (auto simp: parse_command_options_def S)
  next
    case (Inr o2)
    then have o2: "list_all known_option rs" "length (repeatable_options rs) \<le> 100" "o2 = apply_options rs no_options" using p by simp_all
    show ?thesis using u o2(1,2)
      unfolding parse_command_options_def g prod.case Inr sum.case o2(3)
      by (auto simp: S apply_options_def no_options_def Let_def split: if_splits)
  qed
qed

section \<open>Raising as many capabilities as possible\<close>

definition inheritable_allowed :: "cred \<Rightarrow> nat \<Rightarrow> bool" where
  "inheritable_allowed c cap \<longleftrightarrow> cap \<in> inheritable c \<or> cap \<in> bounding c \<and> (CAP_SETPCAP \<in> effective c \<or> cap \<in> permitted c)"

definition ambient_allowed :: "cred \<Rightarrow> nat \<Rightarrow> bool" where
  "ambient_allowed c cap \<longleftrightarrow> \<not> secure SECBIT_NO_CAP_AMBIENT_RAISE c \<and> cap \<in> permitted c \<and> inheritable_allowed c cap"

lemma raise_inheritable_one:
  assumes "effective c \<subseteq> permitted c" "ambient c \<subseteq> permitted c \<inter> inheritable c" "cap \<le> CAP_LAST_CAP"
  shows "(case modifyCapSetting CAP_INHERITABLE cap True c of None \<Rightarrow> c | Some c' \<Rightarrow> c') =
    (if inheritable_allowed c cap then c\<lparr>inheritable := insert cap (inheritable c)\<rparr> else c)"
proof -
  have "ambient c \<inter> permitted c \<inter> insert cap (inheritable c) = ambient c" using assms(2) by blast
  then show ?thesis using assms
    by (auto simp: modifyCapSetting_def capset_def inheritable_allowed_def Let_def)
qed

lemma raise_range_result:
  "effective c \<subseteq> permitted c \<Longrightarrow> ambient c \<subseteq> permitted c \<inter> inheritable c \<Longrightarrow> list_all (\<lambda>cap. cap \<le> CAP_LAST_CAP) caps \<Longrightarrow>
    raise_range amb caps c =
      c\<lparr>inheritable := inheritable c \<union> {cap \<in> set caps. inheritable_allowed c cap},
        ambient := ambient c \<union> {cap \<in> set caps. amb \<and> ambient_allowed c cap}\<rparr>"
proof (induction caps arbitrary: c)
  case (Cons cap caps)
  define c1 where "c1 = (if inheritable_allowed c cap then c\<lparr>inheritable := insert cap (inheritable c)\<rparr> else c)"
  define c2 where "c2 = (if amb \<and> ambient_allowed c cap then c1\<lparr>ambient := insert cap (ambient c)\<rparr> else c1)"
  have "(if amb then (case ambient_raise cap c1 of None \<Rightarrow> c1 | Some c' \<Rightarrow> c') else c1) = c2"
    using Cons.prems(3) by (auto simp: ambient_raise_def c1_def c2_def ambient_allowed_def inheritable_allowed_def secure_def)
  then have r: "raise_range amb (cap # caps) c = raise_range amb caps c2"
    using raise_inheritable_one[OF Cons.prems(1,2), of cap] Cons.prems(3) by (simp add: c1_def[symmetric] Let_def)
  have k: "permitted c2 = permitted c" "effective c2 = effective c" "bounding c2 = bounding c" "securebits c2 = securebits c"
    "inheritable c2 = inheritable c \<union> {x \<in> {cap}. inheritable_allowed c x}"
    "ambient c2 = ambient c \<union> {x \<in> {cap}. amb \<and> ambient_allowed c x}"
    by (auto simp: c1_def c2_def)
  have "inheritable_allowed c2 x = inheritable_allowed c x" "ambient_allowed c2 x = ambient_allowed c x" for x
    using k by (auto simp: inheritable_allowed_def ambient_allowed_def secure_def)
  moreover have "ambient c2 \<subseteq> permitted c2 \<inter> inheritable c2"
    using Cons.prems(2) k by (auto simp: ambient_allowed_def)
  ultimately have "raise_range amb caps c2 =
      c2\<lparr>inheritable := inheritable c2 \<union> {x \<in> set caps. inheritable_allowed c x},
         ambient := ambient c2 \<union> {x \<in> set caps. amb \<and> ambient_allowed c x}\<rparr>"
    using Cons.IH[of c2] Cons.prems k by simp
  also have "\<dots> = c\<lparr>inheritable := inheritable c2 \<union> {x \<in> set caps. inheritable_allowed c x},
         ambient := ambient c2 \<union> {x \<in> set caps. amb \<and> ambient_allowed c x}\<rparr>"
    by (auto simp: c1_def c2_def)
  also have "inheritable c2 \<union> {x \<in> set caps. inheritable_allowed c x} = inheritable c \<union> {x \<in> set (cap # caps). inheritable_allowed c x}"
    using k(5) by auto
  also have "ambient c2 \<union> {x \<in> set caps. amb \<and> ambient_allowed c x} = ambient c \<union> {x \<in> set (cap # caps). amb \<and> ambient_allowed c x}"
    using k(6) by auto
  finally show ?case unfolding r .
qed simp

text \<open>
  A best effort that is the best: every capability that the kernel would allow in the inheritable set, and with the option for
  the ambient set in that one too, is there afterwards, no other one, and nothing else of the credentials changes.
\<close>

theorem raise_caps_maximal:
  assumes "effective c \<subseteq> permitted c" "ambient c \<subseteq> permitted c \<inter> inheritable c"
  shows "raiseInheritableAndAmbientCaps amb c =
    c\<lparr>inheritable := inheritable c \<union> {cap. cap \<le> 40 \<and> inheritable_allowed c cap},
      ambient := ambient c \<union> {cap. cap \<le> 40 \<and> amb \<and> ambient_allowed c cap}\<rparr>"
proof -
  have "list_all (\<lambda>cap. cap \<le> CAP_LAST_CAP) [0..<Suc CAP_LAST_CAP]" by (auto simp: list_all_iff)
  note r = raise_range_result[OF assms this, of amb]
  have "cap \<in> set [0..<Suc CAP_LAST_CAP] \<longleftrightarrow> cap \<le> 40" for cap by (auto simp: CAP_LAST_CAP_def)
  with r show ?thesis unfolding raiseInheritableAndAmbientCaps_def by (simp only:)
qed

theorem raise_caps_maximal_witness:
  "permitted example_root = {0..<41} \<and> ambient (raiseInheritableAndAmbientCaps True example_root) = {0..<41}"
proof -
  have "effective example_root \<subseteq> permitted example_root" "ambient example_root \<subseteq> permitted example_root \<inter> inheritable example_root"
    by (simp_all add: example_root_def)
  from raise_caps_maximal[OF this, of True] show ?thesis
    by (auto simp: example_root_def ambient_allowed_def inheritable_allowed_def secure_def)
qed

section \<open>The letters of the securebits flags\<close>

lemma secbits_of_letters:
  "secbits_of (filter (\<lambda>ch. ch \<noteq> CHR ''-'') (printSecbits b False)) 0 =
    Some (foldl (\<lambda>x f. if b AND f \<noteq> 0 then x OR f else x) 0 (map fst secbitInfoList))"
  unfolding printSecbits_def secbitInfoList_def by simp

lemma foldl_or_bits:
  "bit (foldl (\<lambda>x f. if b AND f \<noteq> 0 then x OR f else x) x fs) n \<longleftrightarrow> bit x n \<or> (\<exists>f \<in> set fs. b AND f \<noteq> 0 \<and> bit f n)"
  for b :: "32 word"
  by (induction fs arbitrary: x) (auto simp: bit_or_iff)

lemma and_secbit: "b AND 2 ^ k \<noteq> 0 \<longleftrightarrow> bit b k" for b :: "32 word"
  by (simp add: and_exp_eq_0_iff_not_bit)

text \<open>
  The letters that \<^verbatim>\<open>show_secbits\<close> prints for a set of flags are an argument with which \<^verbatim>\<open>userns_child_exec -b\<close> sets just
  those flags.
\<close>

theorem secbits_round_trip:
  "secbits_of (filter (\<lambda>ch. ch \<noteq> CHR ''-'') (printSecbits b False)) 0 = Some (b AND 0xFF)"
proof -
  have flags: "map fst secbitInfoList = map (\<lambda>k. 2 ^ k) [6, 7, 4, 5, 0, 1, 2, 3]"
    by (simp add: secbitInfoList_def secbit_defs)
  have ks: "set [6, 7, 4, 5, 0, 1, 2, 3] = {k. k < (8 :: nat)}" by (auto simp: numeral_eq_Suc less_Suc_eq)
  have "bit (foldl (\<lambda>x f. if b AND f \<noteq> 0 then x OR f else x) 0 (map fst secbitInfoList)) n = bit (b AND 0xFF) n" for n
  proof -
    have "(\<exists>f \<in> set (map fst secbitInfoList). b AND f \<noteq> 0 \<and> bit f n) \<longleftrightarrow>
        (\<exists>k \<in> set [6, 7, 4, 5, 0, 1, 2, 3]. bit b k \<and> bit ((2 :: 32 word) ^ k) n)"
      unfolding flags by (simp only: set_map bex_simps and_secbit)
    also have "\<dots> \<longleftrightarrow> bit b n \<and> n < 8" unfolding ks by (auto simp: bit_exp_iff dest: bit_imp_le_length)
    also have "\<dots> \<longleftrightarrow> bit (b AND mask 8) n" by (auto simp: bit_and_iff bit_mask_iff dest: bit_imp_le_length)
    also have "mask 8 = (0xFF :: 32 word)" by (simp add: mask_eq_exp_minus_1)
    finally show ?thesis by (simp add: foldl_or_bits)
  qed
  then show ?thesis unfolding secbits_of_letters by (simp add: bit_eq_iff)
qed

end
