(* ===== verification/Msg_Queues.thy ===== *)
theory Msg_Queues
  imports Getopt Num_Args "HOL-Library.Multiset"
begin

unbundle bit_operations_syntax

text \<open>
  The programs on message queues: \<^verbatim>\<open>pmsg_create.c\<close>, \<^verbatim>\<open>pmsg_send.c\<close>, \<^verbatim>\<open>pmsg_receive.c\<close>, \<^verbatim>\<open>pmsg_getattr.c\<close> and \<^verbatim>\<open>pmsg_unlink.c\<close>
  (\<^verbatim>\<open>tlpi-dist/pmsg\<close>) on POSIX queues, and \<^verbatim>\<open>svmsg_create.c\<close>, \<^verbatim>\<open>svmsg_send.c\<close>, \<^verbatim>\<open>svmsg_receive.c\<close>, \<^verbatim>\<open>svmsg_chqbytes.c\<close>
  and \<^verbatim>\<open>svmsg_rm.c\<close> (\<^verbatim>\<open>tlpi-dist/svmsg\<close>) on System V queues.  The queues are those of the kernel, as documented; the
  programs run as the user who owns them.  Output is on a terminal.
\<close>

section \<open>Results of programs and calls\<close>

text \<open>A program ends with its output, a usage message or a failure, or it blocks, or its behaviour is not defined.\<close>

datatype 'st run = Ran string 'st | Usage | Failed string | Blocks | Undefined

datatype 'a call = Done 'a | Error | Would_block

section \<open>POSIX message queues\<close>

definition MQ_PRIO_MAX :: nat where
  "MQ_PRIO_MAX = 32768"

record pqueue =
  pq_perms :: int
  mq_maxmsg :: nat
  mq_msgsize :: nat
  pq_msgs :: "(nat \<times> string) list"

record mq_limits =
  msg_max :: nat
  msgsize_max :: nat
  msg_default :: nat
  msgsize_default :: nat

type_synonym pqueues = "string \<rightharpoonup> pqueue"

text \<open>Opening an existing queue needs the permission of its owner to read or write.\<close>

definition allowed :: "bool \<Rightarrow> bool \<Rightarrow> int \<Rightarrow> bool" where
  "allowed rd wr perms \<longleftrightarrow> (if rd then bit perms 8 else True) \<and> (if wr then bit perms 7 else True)"

definition mq_open :: "pqueues \<Rightarrow> string \<Rightarrow> bool \<Rightarrow> bool \<Rightarrow> bool" where
  "mq_open qs name rd wr = (case qs name of None \<Rightarrow> False | Some q \<Rightarrow> allowed rd wr (pq_perms q))"

text \<open>A name is a slash and other characters.\<close>

definition mq_name :: "string \<Rightarrow> bool" where
  "mq_name name \<longleftrightarrow> name \<noteq> [] \<and> hd name = CHR ''/'' \<and> tl name \<noteq> [] \<and> CHR ''/'' \<notin> set (tl name)"

definition mq_create ::
  "mq_limits \<Rightarrow> pqueues \<Rightarrow> string \<Rightarrow> bool \<Rightarrow> bool \<Rightarrow> int \<Rightarrow> (int \<times> int) option \<Rightarrow> pqueues option" where
  "mq_create lim qs name creat excl perms attrp =
     (case qs name of
        Some q \<Rightarrow> if creat \<and> excl \<or> \<not> allowed True True (pq_perms q) then None else Some qs
      | None \<Rightarrow>
          if \<not> creat \<or> \<not> mq_name name then None
          else
            (case attrp of
               None \<Rightarrow> Some (qs(name \<mapsto> \<lparr>pq_perms = perms, mq_maxmsg = msg_default lim, mq_msgsize = msgsize_default lim, pq_msgs = []\<rparr>))
             | Some (m, s) \<Rightarrow>
                 if 0 < m \<and> m \<le> int (msg_max lim) \<and> 0 < s \<and> s \<le> int (msgsize_max lim)
                 then Some (qs(name \<mapsto> \<lparr>pq_perms = perms, mq_maxmsg = nat m, mq_msgsize = nat s, pq_msgs = []\<rparr>))
                 else None))"

definition mq_send :: "bool \<Rightarrow> nat \<times> string \<Rightarrow> pqueue \<Rightarrow> pqueue call" where
  "mq_send nonblock m q =
     (if MQ_PRIO_MAX \<le> fst m \<or> mq_msgsize q < length (snd m) then Error
      else if length (pq_msgs q) < mq_maxmsg q then Done (q\<lparr>pq_msgs := pq_msgs q @ [m]\<rparr>)
      else if nonblock then Error else Would_block)"

text \<open>The oldest message of the highest priority.\<close>

definition first_highest :: "(nat \<times> string) list \<Rightarrow> nat \<times> string" where
  "first_highest ms = hd (filter (\<lambda>m. fst m = Max (set (map fst ms))) ms)"

definition mq_receive :: "bool \<Rightarrow> nat \<Rightarrow> pqueue \<Rightarrow> ((nat \<times> string) \<times> pqueue) call" where
  "mq_receive nonblock len q =
     (if len < mq_msgsize q then Error
      else if pq_msgs q = [] then (if nonblock then Error else Would_block)
      else Done (first_highest (pq_msgs q), q\<lparr>pq_msgs := remove1 (first_highest (pq_msgs q)) (pq_msgs q)\<rparr>))"

section \<open>The programs on POSIX queues\<close>

record pmsg_opts =
  po_creat :: bool
  po_excl :: bool
  attr :: "int \<times> int"
  attrp :: bool

fun pmsg_options :: "opt_result list \<Rightarrow> pmsg_opts \<Rightarrow> pmsg_opts option" where
  "pmsg_options [] po = Some po"
| "pmsg_options (Opt c arg # rs) po =
     (let a = atoi (case arg of None \<Rightarrow> [] | Some a \<Rightarrow> a) in
      if c = CHR ''c'' then pmsg_options rs (po\<lparr>po_creat := True\<rparr>)
      else if c = CHR ''m'' then pmsg_options rs (po\<lparr>attr := (a, snd (attr po)), attrp := True\<rparr>)
      else if c = CHR ''s'' then pmsg_options rs (po\<lparr>attr := (fst (attr po), a), attrp := True\<rparr>)
      else if c = CHR ''x'' then pmsg_options rs (po\<lparr>po_excl := True\<rparr>)
      else None)"
| "pmsg_options (r # rs) po = None"

text \<open>The optional octal permissions, read and write for the owner if there are none.\<close>

definition octal_perms :: "string list \<Rightarrow> string + int" where
  "octal_perms args = (case args of [] \<Rightarrow> Inr 384 | a # _ \<Rightarrow> getInt (Some a) GN_BASE_8 (Some ''octal-perms''))"

definition pmsg_create_main :: "mq_limits \<Rightarrow> string list \<Rightarrow> pqueues \<Rightarrow> pqueues run" where
  "pmsg_create_main lim argv qs =
     (case getopt ''cm:s:x'' argv of (rs, ops) \<Rightarrow>
      (case pmsg_options rs \<lparr>po_creat = False, po_excl = False, attr = (10, 2048), attrp = False\<rparr> of
         None \<Rightarrow> Usage
       | Some po \<Rightarrow>
           if ops = [] then Usage
           else (case octal_perms (tl ops) of
               Inl e \<Rightarrow> Failed e
             | Inr perms \<Rightarrow>
                 (case mq_create lim qs (hd ops) (po_creat po) (po_excl po) perms (if attrp po then Some (attr po) else None) of
                    None \<Rightarrow> Failed ''mq_open''
                  | Some qs' \<Rightarrow> Ran [] qs'))))"

text \<open>Options of which only one is known: whether it is there, or no value for an unknown one.\<close>

definition only_flag :: "char \<Rightarrow> opt_result list \<Rightarrow> bool option" where
  "only_flag c rs = (if list_all (\<lambda>r. r = Opt c None) rs then Some (rs \<noteq> []) else None)"

definition pmsg_send_main :: "string list \<Rightarrow> pqueues \<Rightarrow> pqueues run" where
  "pmsg_send_main argv qs =
     (case getopt ''n'' argv of (rs, ops) \<Rightarrow>
      (case only_flag CHR ''n'' rs of
         None \<Rightarrow> Usage
       | Some nonblock \<Rightarrow>
           if length ops < 2 then Usage
           else if \<not> mq_open qs (ops ! 0) False True then Failed ''mq_open''
           else
             let prio = (if 2 < length ops then nat (to_uint32 (atoi (ops ! 2))) else 0) in
             (case mq_send nonblock (prio, ops ! 1) (the (qs (ops ! 0))) of
                Done q \<Rightarrow> Ran [] (qs(ops ! 0 \<mapsto> q))
              | Error \<Rightarrow> Failed ''mq_send''
              | Would_block \<Rightarrow> Blocks)))"

definition show_message :: "nat \<times> string \<Rightarrow> string" where
  "show_message m = ''Read '' @ show_nat (length (snd m)) @ '' bytes; priority = '' @ show_nat (fst m) @ [CHR 0x0A] @ snd m @ [CHR 0x0A]"

definition pmsg_receive_main :: "string list \<Rightarrow> pqueues \<Rightarrow> pqueues run" where
  "pmsg_receive_main argv qs =
     (case getopt ''n'' argv of (rs, ops) \<Rightarrow>
      (case only_flag CHR ''n'' rs of
         None \<Rightarrow> Usage
       | Some nonblock \<Rightarrow>
           if ops = [] then Usage
           else if \<not> mq_open qs (ops ! 0) True False then Failed ''mq_open''
           else
             let q = the (qs (ops ! 0)) in
             (case mq_receive nonblock (mq_msgsize q) q of
                Done (m, q') \<Rightarrow> Ran (show_message m) (qs(ops ! 0 \<mapsto> q'))
              | Error \<Rightarrow> Failed ''mq_receive''
              | Would_block \<Rightarrow> Blocks)))"

definition pmsg_getattr_main :: "string list \<Rightarrow> pqueues \<Rightarrow> pqueues run" where
  "pmsg_getattr_main argv qs =
     (if length argv \<noteq> 2 \<or> argv ! 1 = ''--help'' then Usage
      else if \<not> mq_open qs (argv ! 1) True False then Failed ''mq_open''
      else
        let q = the (qs (argv ! 1)) in
        Ran (''Maximum # of messages on queue:   '' @ show_nat (mq_maxmsg q) @ [CHR 0x0A] @
             ''Maximum message size:             '' @ show_nat (mq_msgsize q) @ [CHR 0x0A] @
             ''# of messages currently on queue: '' @ show_nat (length (pq_msgs q)) @ [CHR 0x0A]) qs)"

definition pmsg_unlink_main :: "string list \<Rightarrow> pqueues \<Rightarrow> pqueues run" where
  "pmsg_unlink_main argv qs =
     (if length argv \<noteq> 2 \<or> argv ! 1 = ''--help'' then Usage
      else if qs (argv ! 1) = None then Failed ''mq_unlink'' else Ran [] (qs(argv ! 1 := None)))"

section \<open>System V message queues\<close>

record svqueue =
  msg_qbytes :: nat
  sv_msgs :: "(int \<times> string) list"

record sv_sys =
  sv_queues :: "int \<rightharpoonup> svqueue"
  sv_keys :: "int \<rightharpoonup> int"
  next_id :: int

definition MSGMNB :: nat where
  "MSGMNB = 16384"

definition MSGMAX :: nat where
  "MSGMAX = 8192"

definition new_queue :: "sv_sys \<Rightarrow> sv_sys" where
  "new_queue sys = sys\<lparr>sv_queues := (sv_queues sys)(next_id sys \<mapsto> \<lparr>msg_qbytes = MSGMNB, sv_msgs = []\<rparr>), next_id := next_id sys + 1\<rparr>"

text \<open>The key 0 is \<^verbatim>\<open>IPC_PRIVATE\<close>; the flags for creation are bits 9 and 10.\<close>

definition msgget :: "int \<Rightarrow> int \<Rightarrow> sv_sys \<Rightarrow> (int \<times> sv_sys) option" where
  "msgget key flags sys =
     (if key = 0 then Some (next_id sys, new_queue sys)
      else
        (case sv_keys sys key of
           Some msqid \<Rightarrow> if bit flags 9 \<and> bit flags 10 then None else Some (msqid, sys)
         | None \<Rightarrow> if bit flags 9 then Some (next_id sys, (new_queue sys)\<lparr>sv_keys := (sv_keys sys)(key \<mapsto> next_id sys)\<rparr>) else None))"

definition queued_bytes :: "svqueue \<Rightarrow> nat" where
  "queued_bytes q = sum_list (map (length \<circ> snd) (sv_msgs q))"

definition msgsnd :: "bool \<Rightarrow> int \<times> string \<Rightarrow> svqueue \<Rightarrow> svqueue call" where
  "msgsnd nowait m q =
     (if fst m < 1 \<or> MSGMAX < length (snd m) then Error
      else if queued_bytes q + length (snd m) \<le> msg_qbytes q \<and> length (sv_msgs q) < msg_qbytes q then Done (q\<lparr>sv_msgs := sv_msgs q @ [m]\<rparr>)
      else if nowait then Error else Would_block)"

text \<open>The position of the message that a type selects: the first one, the first of the type or not of it, or the lowest type up to a bound.\<close>

fun first_index :: "('a \<Rightarrow> bool) \<Rightarrow> 'a list \<Rightarrow> nat option" where
  "first_index P [] = None"
| "first_index P (x # xs) = (if P x then Some 0 else map_option Suc (first_index P xs))"

definition select_message :: "int \<Rightarrow> bool \<Rightarrow> (int \<times> string) list \<Rightarrow> nat option" where
  "select_message type except ms =
     (if type = 0 then first_index (\<lambda>_. True) ms
      else if 0 < type then first_index (\<lambda>m. if except then fst m \<noteq> type else fst m = type) ms
      else if list_ex (\<lambda>m. fst m \<le> - type) ms then first_index (\<lambda>m. fst m = Min (set (map fst ms))) ms
      else None)"

definition remove_nth :: "nat \<Rightarrow> 'a list \<Rightarrow> 'a list" where
  "remove_nth i xs = take i xs @ drop (Suc i) xs"

record rcv_flags =
  noerror :: bool
  nowait :: bool
  except :: bool

text \<open>The size is an \<^verbatim>\<open>int\<close> that becomes a \<^verbatim>\<open>size_t\<close>; a negative one is refused.  The result has the bytes that are copied.\<close>

definition msgrcv :: "int \<Rightarrow> int \<Rightarrow> rcv_flags \<Rightarrow> svqueue \<Rightarrow> ((int \<times> string) \<times> svqueue) call" where
  "msgrcv maxBytes type fl q =
     (if maxBytes < 0 then Error
      else
        (case select_message type (except fl) (sv_msgs q) of
           None \<Rightarrow> if nowait fl then Error else Would_block
         | Some i \<Rightarrow>
             let (t, bytes) = sv_msgs q ! i in
             if maxBytes < int (length bytes) \<and> \<not> noerror fl then Error
             else Done ((t, take (nat maxBytes) bytes), q\<lparr>sv_msgs := remove_nth i (sv_msgs q)\<rparr>)))"

section \<open>The programs on System V queues\<close>

definition MAX_MTEXT :: nat where
  "MAX_MTEXT = 1024"

text \<open>The options: the keys given, in order, and the flags; \<^verbatim>\<open>ftok\<close> is a parameter.\<close>

fun svmsg_options :: "(string \<Rightarrow> int) \<Rightarrow> opt_result list \<Rightarrow> int list \<times> int \<Rightarrow> string + int list \<times> int" where
  "svmsg_options ftok [] (ks, flags) = Inr (ks, flags)"
| "svmsg_options ftok (Opt c arg # rs) (ks, flags) =
     (let a = (case arg of None \<Rightarrow> [] | Some a \<Rightarrow> a) in
      if c = CHR ''c'' then svmsg_options ftok rs (ks, flags OR 512)
      else if c = CHR ''f'' then (if ftok a = -1 then Inl ''ftok'' else svmsg_options ftok rs (ks @ [ftok a], flags))
      else if c = CHR ''k'' then
        (let (n, rest, err) = strtol a 0 in
         if length rest < length (dropWhile isspace a) then svmsg_options ftok rs (ks @ [to_int32 n], flags) else Inl ''-k'')
      else if c = CHR ''p'' then svmsg_options ftok rs (ks @ [0], flags)
      else if c = CHR ''x'' then svmsg_options ftok rs (ks, flags OR 1024)
      else Inl ''usage'')"
| "svmsg_options ftok (r # rs) (ks, flags) = Inl ''usage''"

definition svmsg_create_main :: "(string \<Rightarrow> int) \<Rightarrow> string list \<Rightarrow> sv_sys \<Rightarrow> sv_sys run" where
  "svmsg_create_main ftok argv sys =
     (case getopt ''cf:k:px'' argv of (rs, ops) \<Rightarrow>
      (case svmsg_options ftok rs ([], 0) of
         Inl e \<Rightarrow> if e = ''usage'' then Usage else Failed e
       | Inr (ks, flags) \<Rightarrow>
           if length ks \<noteq> 1 then Usage
           else (case octal_perms ops of
               Inl e \<Rightarrow> Failed e
             | Inr perms \<Rightarrow>
                 (case msgget (hd ks) (flags OR perms) sys of
                    None \<Rightarrow> Failed ''msgget''
                  | Some (msqid, sys') \<Rightarrow> Ran (show_int msqid @ [CHR 0x0A]) sys'))))"

definition svmsg_send_main :: "string list \<Rightarrow> sv_sys \<Rightarrow> sv_sys run" where
  "svmsg_send_main argv sys =
     (case getopt ''n'' argv of (rs, ops) \<Rightarrow>
      (case only_flag CHR ''n'' rs of
         None \<Rightarrow> Usage
       | Some nw \<Rightarrow>
           if length ops < 2 \<or> 3 < length ops then Usage
           else (case (getInt (Some (ops ! 0)) 0 (Some ''msqid''), getInt (Some (ops ! 1)) 0 (Some ''msg-type'')) of
               (Inr msqid, Inr mtype) \<Rightarrow>
                 let mtext = (if 2 < length ops then ops ! 2 @ [CHR 0x00] else []) in
                 if MAX_MTEXT < length mtext then Failed ''msg-text too long''
                 else (case sv_queues sys msqid of
                     None \<Rightarrow> Failed ''msgsnd''
                   | Some q \<Rightarrow>
                       (case msgsnd nw (mtype, mtext) q of
                          Done q' \<Rightarrow> Ran [] (sys\<lparr>sv_queues := (sv_queues sys)(msqid \<mapsto> q')\<rparr>)
                        | Error \<Rightarrow> Failed ''msgsnd''
                        | Would_block \<Rightarrow> Blocks))
             | (Inl e, _) \<Rightarrow> Failed e
             | (_, Inl e) \<Rightarrow> Failed e)))"

fun receive_options :: "opt_result list \<Rightarrow> rcv_flags \<times> int \<Rightarrow> (rcv_flags \<times> int) option" where
  "receive_options [] fl = Some fl"
| "receive_options (Opt c arg # rs) (fl, type) =
     (if c = CHR ''e'' then receive_options rs (fl\<lparr>noerror := True\<rparr>, type)
      else if c = CHR ''n'' then receive_options rs (fl\<lparr>nowait := True\<rparr>, type)
      else if c = CHR ''t'' then receive_options rs (fl, atoi (case arg of None \<Rightarrow> [] | Some a \<Rightarrow> a))
      else if c = CHR ''x'' then receive_options rs (fl\<lparr>except := True\<rparr>, type)
      else None)"
| "receive_options (r # rs) fl = None"

text \<open>
  The bytes are copied into an array of \<^verbatim>\<open>MAX_MTEXT\<close> bytes that is not initialised, and printed as a string.
\<close>

definition show_received :: "int \<times> string \<Rightarrow> string" where
  "show_received m =
     ''Received: type='' @ show_int (fst m) @ ''; length='' @ show_nat (length (snd m)) @
     (if snd m \<noteq> [] then ''; body='' @ buf_string (snd m) else []) @ [CHR 0x0A]"

definition svmsg_receive_main :: "string list \<Rightarrow> sv_sys \<Rightarrow> sv_sys run" where
  "svmsg_receive_main argv sys =
     (case getopt ''ent:x'' argv of (rs, ops) \<Rightarrow>
      (case receive_options rs (\<lparr>noerror = False, nowait = False, except = False\<rparr>, 0) of
         None \<Rightarrow> Usage
       | Some (fl, type) \<Rightarrow>
           if length ops < 1 \<or> 2 < length ops then Usage
           else (case (getInt (Some (ops ! 0)) 0 (Some ''msqid''),
                       if 1 < length ops then getInt (Some (ops ! 1)) 0 (Some ''max-bytes'') else Inr (int MAX_MTEXT)) of
               (Inr msqid, Inr maxBytes) \<Rightarrow>
                 (case sv_queues sys msqid of
                    None \<Rightarrow> Failed ''msgrcv''
                  | Some q \<Rightarrow>
                      (case msgrcv maxBytes type fl q of
                         Done (m, q') \<Rightarrow>
                           if MAX_MTEXT < length (snd m) \<or> snd m \<noteq> [] \<and> CHR 0x00 \<notin> set (snd m) then Undefined
                           else Ran (show_received m) (sys\<lparr>sv_queues := (sv_queues sys)(msqid \<mapsto> q')\<rparr>)
                       | Error \<Rightarrow> Failed ''msgrcv''
                       | Would_block \<Rightarrow> Blocks))
             | (Inl e, _) \<Rightarrow> Failed e
             | (_, Inl e) \<Rightarrow> Failed e)))"

text \<open>A queue that has more than the standard size needs a privilege, which the caller does not have.\<close>

definition svmsg_chqbytes_main :: "string list \<Rightarrow> sv_sys \<Rightarrow> sv_sys run" where
  "svmsg_chqbytes_main argv sys =
     (if length argv \<noteq> 3 \<or> argv ! 1 = ''--help'' then Usage
      else (case getInt (Some (argv ! 1)) 0 (Some ''msqid'') of
          Inl e \<Rightarrow> Failed e
        | Inr msqid \<Rightarrow>
            (case sv_queues sys msqid of
               None \<Rightarrow> Failed ''msgctl''
             | Some q \<Rightarrow>
                 (case getInt (Some (argv ! 2)) 0 (Some ''max-bytes'') of
                    Inl e \<Rightarrow> Failed e
                  | Inr n \<Rightarrow>
                      if n < 0 \<or> int MSGMNB < n then Failed ''msgctl''
                      else Ran [] (sys\<lparr>sv_queues := (sv_queues sys)(msqid \<mapsto> q\<lparr>msg_qbytes := nat n\<rparr>)\<rparr>)))))"

text \<open>What was removed before a failure stays removed.\<close>

fun remove_queues :: "string list \<Rightarrow> sv_sys \<Rightarrow> string option \<times> sv_sys" where
  "remove_queues [] sys = (None, sys)"
| "remove_queues (a # as) sys =
     (case getInt (Some a) 0 (Some ''msqid'') of
        Inl e \<Rightarrow> (Some e, sys)
      | Inr msqid \<Rightarrow>
          if sv_queues sys msqid = None then (Some (''msgctl '' @ a), sys)
          else remove_queues as (sys\<lparr>sv_queues := (sv_queues sys)(msqid := None),
              sv_keys := (\<lambda>k. if sv_keys sys k = Some msqid then None else sv_keys sys k)\<rparr>))"

definition svmsg_rm_main :: "string list \<Rightarrow> sv_sys \<Rightarrow> (string option \<times> sv_sys) option" where
  "svmsg_rm_main argv sys = (if 1 < length argv \<and> argv ! 1 = ''--help'' then None else Some (remove_queues (tl argv) sys))"

section \<open>Messages come in the order of their priority\<close>

fun take_highest :: "nat \<Rightarrow> (nat \<times> string) list \<Rightarrow> (nat \<times> string) list" where
  "take_highest 0 ms = []"
| "take_highest (Suc n) ms = first_highest ms # take_highest n (remove1 (first_highest ms) ms)"

definition urgency :: "nat \<times> string \<Rightarrow> nat" where
  "urgency m = MQ_PRIO_MAX - fst m"

lemma first_highest_in:
  assumes "ms \<noteq> []"
  shows "first_highest ms \<in> set ms" "m \<in> set ms \<Longrightarrow> fst m \<le> fst (first_highest ms)"
    "filter (\<lambda>m. fst m = fst (first_highest ms)) ms = first_highest ms # filter (\<lambda>m. fst m = fst (first_highest ms)) (remove1 (first_highest ms) ms)"
proof -
  define p where "p = Max (set (map fst ms))"
  have "p \<in> set (map fst ms)" unfolding p_def using assms by (intro Max_in) auto
  then obtain x xs where f: "filter (\<lambda>m. fst m = p) ms = x # xs" by (cases "filter (\<lambda>m. fst m = p) ms") (auto simp: filter_empty_conv)
  have h: "first_highest ms = x" using f by (simp add: first_highest_def p_def)
  have x: "x \<in> set ms" "fst x = p" using f by (auto dest: filter_eq_ConsD)
  show "first_highest ms \<in> set ms" using x h by simp
  show "m \<in> set ms \<Longrightarrow> fst m \<le> fst (first_highest ms)" using x h by (simp add: p_def)
  have "filter (\<lambda>m. fst m = p) (remove1 x ms) = remove1 x (x # xs)"
    using filter_remove1[of "\<lambda>m. fst m = p" x ms] f by simp
  then show "filter (\<lambda>m. fst m = fst (first_highest ms)) ms =
      first_highest ms # filter (\<lambda>m. fst m = fst (first_highest ms)) (remove1 (first_highest ms) ms)"
    using f h x by simp
qed

lemma sort_urgency_step:
  assumes "ms \<noteq> []" "list_all (\<lambda>m. fst m < MQ_PRIO_MAX) ms"
  shows "sort_key urgency ms = first_highest ms # sort_key urgency (remove1 (first_highest ms) ms)"
proof (rule properties_for_sort_key)
  let ?h = "first_highest ms"
  let ?r = "remove1 ?h ms"
  have u: "urgency a = urgency b \<longleftrightarrow> fst a = fst b" if "a \<in> set ms" "b \<in> set ms" for a b
    using assms(2) that by (auto simp: urgency_def list_all_iff dest!: bspec)
  have "?h \<in> set ms" using first_highest_in(1)[OF assms(1)] .
  then show "mset (?h # sort_key urgency ?r) = mset ms" by simp
  show "filter (\<lambda>x. urgency k = urgency x) (?h # sort_key urgency ?r) = filter (\<lambda>x. urgency k = urgency x) ms"
    if "k \<in> set (?h # sort_key urgency ?r)" for k
  proof -
    have k: "k \<in> set ms" using that \<open>?h \<in> set ms\<close> set_remove1_subset[of ?h ms] by auto
    have "filter (\<lambda>x. urgency k = urgency x) (sort_key urgency ?r) = filter (\<lambda>x. urgency k = urgency x) ?r"
      by (metis (mono_tags, lifting) filter_cong sort_key_stable)
    moreover have "filter (\<lambda>x. urgency k = urgency x) xs = filter (\<lambda>x. fst x = fst k) xs" if "set xs \<subseteq> set ms" for xs
      by (intro filter_cong refl) (metis u[OF k] that subsetD)
    note this[OF set_remove1_subset] this[OF subset_refl]
    moreover have "urgency k = urgency ?h \<longleftrightarrow> fst ?h = fst k" using u[OF k \<open>?h \<in> set ms\<close>] by auto
    moreover have "filter (\<lambda>x. fst x = fst k) ms = (if fst ?h = fst k then ?h # filter (\<lambda>x. fst x = fst k) ?r else filter (\<lambda>x. fst x = fst k) ?r)"
      using first_highest_in(3)[OF assms(1)] filter_remove1[of "\<lambda>x. fst x = fst k" ?h ms] by (auto simp: remove1_idem)
    ultimately show ?thesis by simp
  qed
  have "urgency ?h \<le> urgency x" if "x \<in> set ms" for x
    using first_highest_in(2)[OF assms(1) that] by (simp add: urgency_def)
  then show "sorted (map urgency (?h # sort_key urgency ?r))" by (auto dest: set_remove1_subset[THEN subsetD])
qed

lemma take_highest_sorts:
  "list_all (\<lambda>m. fst m < MQ_PRIO_MAX) ms \<Longrightarrow> take_highest (length ms) ms = sort_key urgency ms"
proof (induction "length ms" arbitrary: ms)
  case (Suc n)
  then have ne: "ms \<noteq> []" by auto
  have l: "length (remove1 (first_highest ms) ms) = n"
    using Suc(2) first_highest_in(1)[OF ne] by (simp add: length_remove1)
  have "list_all (\<lambda>m. fst m < MQ_PRIO_MAX) (remove1 (first_highest ms) ms)"
    using Suc(3) by (auto simp: list_all_iff dest: set_remove1_subset[THEN subsetD])
  then have "take_highest n (remove1 (first_highest ms) ms) = sort_key urgency (remove1 (first_highest ms) ms)"
    using Suc(1)[of "remove1 (first_highest ms) ms"] l by simp
  then show ?case using sort_urgency_step[OF ne Suc(3)] Suc(2) by (simp flip: Suc(2))
qed simp

text \<open>Whole sequences of programs: the sends, and then receives, with what these print.\<close>

fun run_sends :: "string \<Rightarrow> (nat \<times> string) list \<Rightarrow> pqueues \<Rightarrow> pqueues option" where
  "run_sends name [] qs = Some qs"
| "run_sends name ((p, t) # ms) qs =
     (case pmsg_send_main [''pmsg_send'', name, t, show_int (int p)] qs of Ran _ qs' \<Rightarrow> run_sends name ms qs' | _ \<Rightarrow> None)"

fun run_receives :: "string \<Rightarrow> nat \<Rightarrow> pqueues \<Rightarrow> (string list \<times> pqueues) option" where
  "run_receives name 0 qs = Some ([], qs)"
| "run_receives name (Suc n) qs =
     (case pmsg_receive_main [''pmsg_receive'', ''-n'', name] qs of
        Ran txt qs' \<Rightarrow> (case run_receives name n qs' of None \<Rightarrow> None | Some (os, qs2) \<Rightarrow> Some (txt # os, qs2))
      | _ \<Rightarrow> None)"

lemma show_nat_no_option: "\<not> is_option (show_int (int p))"
proof -
  obtain c cs where "show_nat p = c # cs" "c \<noteq> CHR ''-''" by (rule show_nat_Cons)
  then show ?thesis by (simp add: show_int_def is_option_def split: list.splits)
qed

lemma send_main_one:
  assumes "qs name = Some q" "allowed True True (pq_perms q)" "\<not> is_option name" "\<not> is_option t" "p < MQ_PRIO_MAX" "length t \<le> mq_msgsize q"
    "length (pq_msgs q) < mq_maxmsg q"
  shows "pmsg_send_main [prog, name, t, show_int (int p)] qs = Ran [] (qs(name \<mapsto> q\<lparr>pq_msgs := pq_msgs q @ [(p, t)]\<rparr>))"
proof -
  have g: "getopt ''n'' [prog, name, t, show_int (int p)] = ([], [name, t, show_int (int p)])"
    using getopt_written[of "''n''" "[]" "[name, t, show_int (int p)]" prog] assms(3,4) show_nat_no_option by simp
  have "atoi (show_int (int p)) = int p" using assms(5) by (intro atoi_show_int) (simp_all add: INT_MIN_def INT_MAX_def MQ_PRIO_MAX_def)
  then have a: "nat (to_uint32 (atoi (show_int (int p)))) = p" using assms(5) by (simp add: to_uint32_def MQ_PRIO_MAX_def)
  have o: "mq_open qs name False True" using assms(1,2) by (simp add: mq_open_def allowed_def)
  show ?thesis unfolding pmsg_send_main_def g using assms a o
    by (simp add: only_flag_def mq_send_def)
qed

lemma receive_main_one:
  assumes "qs name = Some q" "allowed True True (pq_perms q)" "\<not> is_option name" "pq_msgs q \<noteq> []"
  shows "pmsg_receive_main [prog, ''-n'', name] qs =
    Ran (show_message (first_highest (pq_msgs q))) (qs(name \<mapsto> q\<lparr>pq_msgs := remove1 (first_highest (pq_msgs q)) (pq_msgs q)\<rparr>))"
proof -
  have g: "getopt ''n'' [prog, ''-n'', name] = ([Opt CHR ''n'' None], [name])"
    using getopt_written[of "''n''" "[Flags ''n'']" "[name]" prog] assms(3) by simp
  have o: "mq_open qs name True False" using assms(1,2) by (simp add: mq_open_def allowed_def)
  show ?thesis unfolding pmsg_receive_main_def g using assms o by (simp add: only_flag_def mq_receive_def)
qed

lemma run_sends_all:
  "qs name = Some q \<Longrightarrow> allowed True True (pq_perms q) \<Longrightarrow> \<not> is_option name \<Longrightarrow>
    list_all (\<lambda>(p, t). p < MQ_PRIO_MAX \<and> length t \<le> mq_msgsize q \<and> \<not> is_option t) ms \<Longrightarrow> length (pq_msgs q) + length ms \<le> mq_maxmsg q \<Longrightarrow>
    run_sends name ms qs = Some (qs(name \<mapsto> q\<lparr>pq_msgs := pq_msgs q @ ms\<rparr>))"
proof (induction ms arbitrary: qs q)
  case Nil
  then show ?case by (simp add: fun_upd_idem)
next
  case (Cons m ms)
  obtain p t where m: "m = (p, t)" by (cases m)
  let ?q = "q\<lparr>pq_msgs := pq_msgs q @ [(p, t)]\<rparr>"
  have "pmsg_send_main [''pmsg_send'', name, t, show_int (int p)] qs = Ran [] (qs(name \<mapsto> ?q))"
    using Cons.prems by (intro send_main_one) (simp_all add: m)
  moreover have "run_sends name ms (qs(name \<mapsto> ?q)) = Some ((qs(name \<mapsto> ?q))(name \<mapsto> ?q\<lparr>pq_msgs := pq_msgs ?q @ ms\<rparr>))"
    using Cons.prems by (intro Cons.IH) (simp_all add: m)
  ultimately show ?case by (auto simp: m fun_eq_iff)
qed

lemma run_receives_all:
  "qs name = Some q \<Longrightarrow> allowed True True (pq_perms q) \<Longrightarrow> \<not> is_option name \<Longrightarrow> length (pq_msgs q) = n \<Longrightarrow>
    run_receives name n qs = Some (map show_message (take_highest n (pq_msgs q)), qs(name \<mapsto> q\<lparr>pq_msgs := []\<rparr>))"
proof (induction n arbitrary: qs q)
  case 0
  then show ?case by (simp add: fun_upd_idem)
next
  case (Suc n)
  let ?h = "first_highest (pq_msgs q)"
  let ?q = "q\<lparr>pq_msgs := remove1 ?h (pq_msgs q)\<rparr>"
  have ne: "pq_msgs q \<noteq> []" using Suc.prems by auto
  have "run_receives name n (qs(name \<mapsto> ?q)) = Some (map show_message (take_highest n (pq_msgs ?q)), (qs(name \<mapsto> ?q))(name \<mapsto> ?q\<lparr>pq_msgs := []\<rparr>))"
    using Suc.prems first_highest_in(1)[OF ne] by (intro Suc.IH) (simp_all add: length_remove1)
  then show ?case using receive_main_one[of qs name q "''pmsg_receive''"] Suc.prems ne by (auto simp: fun_eq_iff)
qed

text \<open>
  C18: Messages that are sent by the one program are received by the other one in the order of their priority, and for equal
  priorities in the order in which they were sent, whole and each once.
\<close>

theorem pmsg_priority_order:
  assumes "qs name = Some q" "pq_msgs q = []" "bit (pq_perms q) 8" "bit (pq_perms q) 7" "\<not> is_option name"
    "list_all (\<lambda>(p, t). p < 32768 \<and> length t \<le> mq_msgsize q \<and> \<not> is_option t) ms" "length ms \<le> mq_maxmsg q"
  shows "\<exists>qs'. run_sends name ms qs = Some qs' \<and>
    run_receives name (length ms) qs' = Some (map show_message (sort_key (\<lambda>m. 32768 - fst m) ms), qs)"
proof (intro exI conjI)
  let ?q = "q\<lparr>pq_msgs := ms\<rparr>"
  have a: "allowed True True (pq_perms q)" using assms(3,4) by (simp add: allowed_def)
  show "run_sends name ms qs = Some (qs(name \<mapsto> ?q))"
    using run_sends_all[of qs name q ms] a assms by (simp add: MQ_PRIO_MAX_def)
  have "list_all (\<lambda>m. fst m < MQ_PRIO_MAX) ms" using assms(6) by (auto simp: list_all_iff MQ_PRIO_MAX_def)
  from take_highest_sorts[OF this] have "take_highest (length ms) ms = sort_key (\<lambda>m. 32768 - fst m) ms"
    by (simp add: urgency_def[abs_def] MQ_PRIO_MAX_def)
  moreover have "(qs(name \<mapsto> ?q))(name \<mapsto> ?q\<lparr>pq_msgs := []\<rparr>) = qs" using assms(1,2) by (auto simp: fun_eq_iff)
  ultimately show "run_receives name (length ms) (qs(name \<mapsto> ?q)) = Some (map show_message (sort_key (\<lambda>m. 32768 - fst m) ms), qs)"
    using run_receives_all[of "qs(name \<mapsto> ?q)" name ?q "length ms"] a assms(5) by simp
qed

theorem pmsg_priority_order_witness:
  "\<exists>qs'. run_sends ''/q'' [(1, ''a''), (5, ''b''), (1, ''c'')] [''/q'' \<mapsto> \<lparr>pq_perms = 384, mq_maxmsg = 10, mq_msgsize = 8, pq_msgs = []\<rparr>] = Some qs' \<and>
    run_receives ''/q'' 3 qs' = Some (map show_message [(5, ''b''), (1, ''a''), (1, ''c'')],
      [''/q'' \<mapsto> \<lparr>pq_perms = 384, mq_maxmsg = 10, mq_msgsize = 8, pq_msgs = []\<rparr>])"
  using pmsg_priority_order[of "[''/q'' \<mapsto> \<lparr>pq_perms = 384, mq_maxmsg = 10, mq_msgsize = 8, pq_msgs = []\<rparr>]" "''/q''"
      "\<lparr>pq_perms = 384, mq_maxmsg = 10, mq_msgsize = 8, pq_msgs = []\<rparr>" "[(1, ''a''), (5, ''b''), (1, ''c'')]"]
  by (simp add: is_option_def numeral_3_eq_3)

section \<open>What is sent is received\<close>

text \<open>A message of \<^verbatim>\<open>svmsg_send\<close>: its type, and its text if there is one.\<close>

definition wire :: "int \<times> string option \<Rightarrow> int \<times> string" where
  "wire m = (fst m, case snd m of None \<Rightarrow> [] | Some x \<Rightarrow> x @ [CHR 0x00])"

definition sendable :: "int \<times> string option \<Rightarrow> bool" where
  "sendable m \<longleftrightarrow> 1 \<le> fst m \<and> fst m \<le> INT_MAX \<and> (case snd m of None \<Rightarrow> True | Some x \<Rightarrow> length x < 1024 \<and> CHR 0x00 \<notin> set x)"

definition printed :: "int \<times> string option \<Rightarrow> string" where
  "printed m =
     ''Received: type='' @ show_int (fst m) @ ''; length='' @
     (case snd m of None \<Rightarrow> ''0'' | Some x \<Rightarrow> show_nat (Suc (length x)) @ ''; body='' @ x) @ [CHR 0x0A]"

lemma show_received_wire:
  assumes "sendable m"
  shows "show_received (wire m) = printed m" "\<not> (MAX_MTEXT < length (snd (wire m)) \<or> snd (wire m) \<noteq> [] \<and> CHR 0x00 \<notin> set (snd (wire m)))"
proof -
  have z: "show_nat 0 = ''0''" by (subst show_nat.simps) (simp add: digit_char_def)
  have "buf_string (x @ [CHR 0x00]) = x" if "CHR 0x00 \<notin> set x" for x
    using that by (auto simp: buf_string_def takeWhile_append)
  then show "show_received (wire m) = printed m" "\<not> (MAX_MTEXT < length (snd (wire m)) \<or> snd (wire m) \<noteq> [] \<and> CHR 0x00 \<notin> set (snd (wire m)))"
    using assms z by (cases "snd m"; auto simp: show_received_def wire_def printed_def sendable_def MAX_MTEXT_def)+
qed

lemma getInt_number: "in_int n \<Longrightarrow> getInt (Some (show_int n)) 0 name = Inr n"
proof -
  assume n: "in_int n"
  have b: "plain_base 0" by (simp add: plain_base_def num_base_def flag_set_def)
  have "in_long n" using n by (auto simp: in_int_def in_long_def INT_MIN_def INT_MAX_def LONG_MIN_def LONG_MAX_def)
  then show "getInt (Some (show_int n)) 0 name = Inr n"
    using n getNum_decimal[OF b, of "''getInt''" n name] by (auto simp: getInt_def flag_set_def in_int_def)
qed

lemma first_index_bound: "first_index P xs = Some i \<Longrightarrow> i < length xs"
  by (induction xs arbitrary: i) (auto split: if_splits)

lemma select_bound: "select_message t e ms = Some i \<Longrightarrow> i < length ms"
  by (auto simp: select_message_def split: if_splits dest: first_index_bound)

lemma map_remove_nth: "map f (remove_nth i xs) = remove_nth i (map f xs)"
  by (simp add: remove_nth_def take_map drop_map)

lemma show_int_no_option: "0 \<le> n \<Longrightarrow> \<not> is_option (show_int n)"
  using show_nat_no_option[of "nat n"] by simp

lemma svmsg_send_sent:
  assumes "sv_queues sys msqid = Some q" "sv_msgs q = map wire ms" "0 \<le> msqid" "msqid \<le> INT_MAX" "sendable m"
    "case snd m of None \<Rightarrow> True | Some x \<Rightarrow> \<not> is_option x"
    "queued_bytes q + length (snd (wire m)) \<le> msg_qbytes q" "length ms < msg_qbytes q"
  shows "svmsg_send_main ([prog, show_int msqid, show_int (fst m)] @ (case snd m of None \<Rightarrow> [] | Some x \<Rightarrow> [x])) sys =
    Ran [] (sys\<lparr>sv_queues := (sv_queues sys)(msqid \<mapsto> q\<lparr>sv_msgs := map wire (ms @ [m])\<rparr>)\<rparr>)"
proof -
  define ops where "ops = [show_int msqid, show_int (fst m)] @ (case snd m of None \<Rightarrow> [] | Some x \<Rightarrow> [x])"
  have "0 \<le> fst m" using assms(5) by (simp add: sendable_def)
  then have "list_all (\<lambda>a. \<not> is_option a) ops"
    using assms(3,6) by (cases "snd m") (simp_all add: ops_def show_int_no_option)
  then have g: "getopt ''n'' (prog # ops) = ([], ops)" using getopt_written[of "''n''" "[]" ops prog] by simp
  have n: "getInt (Some (show_int msqid)) 0 nm = Inr msqid" "getInt (Some (show_int (fst m))) 0 nm = Inr (fst m)" for nm
    using assms(3-5) by (auto intro!: getInt_number simp: in_int_def sendable_def INT_MIN_def)
  have l: "ops ! 0 = show_int msqid" "ops ! Suc 0 = show_int (fst m)" "2 \<le> length ops" "length ops \<le> 3"
    by (auto simp: ops_def split: option.splits)
  have t: "(if 2 < length ops then ops ! 2 @ [CHR 0x00] else []) = snd (wire m)"
    by (cases "snd m") (simp_all add: ops_def wire_def numeral_2_eq_2)
  have "length (snd (wire m)) \<le> 1024" "1 \<le> fst m" "(fst m, snd (wire m)) = wire m" "fst (wire m) = fst m"
    using assms(5) by (auto simp: sendable_def wire_def split: option.splits)
  then have "msgsnd False (fst m, snd (wire m)) q = Done (q\<lparr>sv_msgs := map wire (ms @ [m])\<rparr>)" "\<not> MAX_MTEXT < length (snd (wire m))"
    using assms(2,7,8) by (auto simp: msgsnd_def MSGMAX_def MAX_MTEXT_def)
  then have "svmsg_send_main (prog # ops) sys = Ran [] (sys\<lparr>sv_queues := (sv_queues sys)(msqid \<mapsto> q\<lparr>sv_msgs := map wire (ms @ [m])\<rparr>)\<rparr>)"
    unfolding svmsg_send_main_def g using l n t assms(1) by (simp add: only_flag_def)
  then show ?thesis by (simp add: ops_def)
qed

lemma svmsg_receive_received:
  assumes "sv_queues sys msqid = Some q" "sv_msgs q = map wire ms" "0 \<le> msqid" "msqid \<le> INT_MAX" "list_all sendable ms" "in_int type"
  shows "svmsg_receive_main [prog, ''-n'', ''-t'', show_int type, show_int msqid] sys =
    (case select_message type False (map wire ms) of
       None \<Rightarrow> Failed ''msgrcv''
     | Some i \<Rightarrow> Ran (printed (ms ! i)) (sys\<lparr>sv_queues := (sv_queues sys)(msqid \<mapsto> q\<lparr>sv_msgs := map wire (remove_nth i ms)\<rparr>)\<rparr>))"
proof -
  let ?ws = "[Flags ''n'', With_arg CHR ''t'' (show_int type) False]"
  have g: "getopt ''ent:x'' [prog, ''-n'', ''-t'', show_int type, show_int msqid] = ([Opt CHR ''n'' None, Opt CHR ''t'' (Some (show_int type))], [show_int msqid])"
    using getopt_written[of "''ent:x''" ?ws "[show_int msqid]" prog] assms(3) by (simp add: show_int_no_option)
  have n: "getInt (Some (show_int msqid)) 0 nm = Inr msqid" for nm
    using assms(3,4) by (intro getInt_number) (simp add: in_int_def INT_MIN_def)
  have t: "atoi (show_int type) = type" using assms(6) by (intro atoi_show_int) (simp_all add: in_int_def)
  show ?thesis
  proof (cases "select_message type False (map wire ms)")
    case None
    then show ?thesis unfolding svmsg_receive_main_def g using n t assms(1,2) by (simp add: msgrcv_def MAX_MTEXT_def)
  next
    case (Some i)
    then have i: "i < length ms" using select_bound by fastforce
    then have s: "sendable (ms ! i)" using assms(5) by (simp add: list_all_length)
    have "length (snd (wire (ms ! i))) \<le> 1024" using show_received_wire(2)[OF s] by (simp add: MAX_MTEXT_def)
    then have "msgrcv (int MAX_MTEXT) type \<lparr>noerror = False, nowait = True, except = False\<rparr> q = Done (wire (ms ! i), q\<lparr>sv_msgs := map wire (remove_nth i ms)\<rparr>)"
      using Some i assms(2) by (cases "wire (ms ! i)") (simp add: msgrcv_def MAX_MTEXT_def map_remove_nth)
    then show ?thesis unfolding svmsg_receive_main_def g
      using n t assms(1) show_received_wire[OF s] by (simp add: Some MAX_MTEXT_def)
  qed
qed

fun run_svsends :: "int \<Rightarrow> (int \<times> string option) list \<Rightarrow> sv_sys \<Rightarrow> sv_sys option" where
  "run_svsends msqid [] sys = Some sys"
| "run_svsends msqid (m # ms) sys =
     (case svmsg_send_main ([''svmsg_send'', show_int msqid, show_int (fst m)] @ (case snd m of None \<Rightarrow> [] | Some x \<Rightarrow> [x])) sys of
        Ran _ sys' \<Rightarrow> run_svsends msqid ms sys' | _ \<Rightarrow> None)"

definition not_option :: "int \<times> string option \<Rightarrow> bool" where
  "not_option m = (case snd m of None \<Rightarrow> True | Some x \<Rightarrow> \<not> is_option x)"

definition wire_size :: "(int \<times> string option) list \<Rightarrow> nat" where
  "wire_size ms = sum_list (map (\<lambda>m. length (snd (wire m))) ms)"

lemma run_svsends_all:
  "sv_queues sys msqid = Some q \<Longrightarrow> sv_msgs q = map wire ms \<Longrightarrow> 0 \<le> msqid \<Longrightarrow> msqid \<le> INT_MAX \<Longrightarrow>
    list_all sendable ns \<Longrightarrow> list_all not_option ns \<Longrightarrow> wire_size (ms @ ns) \<le> msg_qbytes q \<Longrightarrow> length (ms @ ns) \<le> msg_qbytes q \<Longrightarrow>
    run_svsends msqid ns sys = Some (sys\<lparr>sv_queues := (sv_queues sys)(msqid \<mapsto> q\<lparr>sv_msgs := map wire (ms @ ns)\<rparr>)\<rparr>)"
proof (induction ns arbitrary: sys q ms)
  case Nil
  then have "q\<lparr>sv_msgs := map wire ms\<rparr> = q" by simp
  then show ?case using Nil by (simp add: fun_upd_idem)
next
  case (Cons n ns)
  let ?q = "q\<lparr>sv_msgs := map wire (ms @ [n])\<rparr>"
  let ?sys = "sys\<lparr>sv_queues := (sv_queues sys)(msqid \<mapsto> ?q)\<rparr>"
  have "queued_bytes q = wire_size ms" using Cons.prems(2) by (simp add: queued_bytes_def wire_size_def comp_def)
  then have "queued_bytes q + length (snd (wire n)) \<le> msg_qbytes q" using Cons.prems(7) by (simp add: wire_size_def)
  then have "svmsg_send_main ([''svmsg_send'', show_int msqid, show_int (fst n)] @ (case snd n of None \<Rightarrow> [] | Some x \<Rightarrow> [x])) sys = Ran [] ?sys"
    using Cons.prems by (intro svmsg_send_sent) (simp_all add: not_option_def)
  moreover have "run_svsends msqid ns ?sys = Some (?sys\<lparr>sv_queues := (sv_queues ?sys)(msqid \<mapsto> ?q\<lparr>sv_msgs := map wire ((ms @ [n]) @ ns)\<rparr>)\<rparr>)"
    using Cons.prems by (intro Cons.IH) (simp_all add: wire_size_def)
  ultimately show ?case by (simp del: fun_upd_apply)
qed

text \<open>
  Messages that \<^verbatim>\<open>svmsg_send\<close> puts on an empty queue: whatever type is asked for, \<^verbatim>\<open>svmsg_receive\<close> prints the message that this type
  selects, with its whole text, and leaves the others on the queue in their order.
\<close>

theorem svmsg_exchange:
  assumes "sv_queues sys msqid = Some q" "sv_msgs q = []" "0 \<le> msqid" "msqid \<le> INT_MAX" "list_all sendable ms" "list_all not_option ms"
    "wire_size ms \<le> msg_qbytes q" "length ms \<le> msg_qbytes q" "in_int type"
  shows "\<exists>sys'. run_svsends msqid ms sys = Some sys' \<and>
    svmsg_receive_main [prog, ''-n'', ''-t'', show_int type, show_int msqid] sys' =
      (case select_message type False (map wire ms) of
         None \<Rightarrow> Failed ''msgrcv''
       | Some i \<Rightarrow> Ran (printed (ms ! i)) (sys\<lparr>sv_queues := (sv_queues sys)(msqid \<mapsto> q\<lparr>sv_msgs := map wire (remove_nth i ms)\<rparr>)\<rparr>))"
proof (intro exI conjI)
  let ?q = "q\<lparr>sv_msgs := map wire ms\<rparr>"
  let ?sys = "sys\<lparr>sv_queues := (sv_queues sys)(msqid \<mapsto> ?q)\<rparr>"
  show "run_svsends msqid ms sys = Some ?sys" using run_svsends_all[of sys msqid q "[]" ms] assms by simp
  show "svmsg_receive_main [prog, ''-n'', ''-t'', show_int type, show_int msqid] ?sys =
      (case select_message type False (map wire ms) of
         None \<Rightarrow> Failed ''msgrcv''
       | Some i \<Rightarrow> Ran (printed (ms ! i)) (sys\<lparr>sv_queues := (sv_queues sys)(msqid \<mapsto> q\<lparr>sv_msgs := map wire (remove_nth i ms)\<rparr>)\<rparr>))"
    using svmsg_receive_received[of ?sys msqid ?q ms type prog] assms(3-5,9) by (simp split: option.splits)
qed

definition example_sys :: sv_sys where
  "example_sys = \<lparr>sv_queues = [0 \<mapsto> \<lparr>msg_qbytes = 100, sv_msgs = []\<rparr>], sv_keys = Map.empty, next_id = 1\<rparr>"

theorem svmsg_exchange_witness:
  "\<exists>sys' sys''. run_svsends 0 [(5, Some ''x''), (2, None), (3, Some ''y'')] example_sys = Some sys' \<and>
    svmsg_receive_main [''svmsg_receive'', ''-n'', ''-t'', show_int (-3), show_int 0] sys' = Ran (printed (2, None)) sys''"
proof -
  have "select_message (-3) False (map wire [(5, Some ''x''), (2, None), (3, Some ''y'')]) = Some 1"
    by (simp add: select_message_def wire_def)
  then show ?thesis
    using svmsg_exchange[of example_sys 0 "\<lparr>msg_qbytes = 100, sv_msgs = []\<rparr>" "[(5, Some ''x''), (2, None), (3, Some ''y'')]" "-3" "''svmsg_receive''"]
    by (fastforce simp: example_sys_def sendable_def not_option_def wire_size_def wire_def is_option_def in_int_def INT_MIN_def INT_MAX_def)
qed

text \<open>
  The option that lets messages be truncated: the bytes that arrive do not end with a null byte, and printing them as a string
  reads beyond them.  The same happens when more bytes are asked for than the array has.
\<close>

theorem svmsg_receive_overruns:
  "svmsg_receive_main [''svmsg_receive'', ''-e'', ''0'', ''3'']
     (example_sys\<lparr>sv_queues := [0 \<mapsto> \<lparr>msg_qbytes = 100, sv_msgs = [wire (1, Some ''hello'')]\<rparr>]\<rparr>) = Undefined \<and>
   svmsg_receive_main [''svmsg_receive'', ''0'', ''2000'']
     (example_sys\<lparr>sv_queues := [0 \<mapsto> \<lparr>msg_qbytes = 4000, sv_msgs = [(1, replicate 1030 CHR 0x00)]\<rparr>]\<rparr>) = Undefined"
proof -
  have g: "getopt ''ent:x'' [''svmsg_receive'', ''-e'', ''0'', ''3''] = ([Opt CHR ''e'' None], [''0'', ''3''])"
    "getopt ''ent:x'' [''svmsg_receive'', ''0'', ''2000''] = ([], [''0'', ''2000''])" by code_simp+
  have n: "getInt (Some ''0'') 0 nm = Inr 0" "getInt (Some ''3'') 0 nm = Inr 3" "getInt (Some ''2000'') 0 nm = Inr 2000" for nm
  proof -
    have "show_int 0 = ''0''" "show_int 3 = ''3''" "show_int 2000 = ''2000''" by code_simp+
    then show "getInt (Some ''0'') 0 nm = Inr 0" "getInt (Some ''3'') 0 nm = Inr 3" "getInt (Some ''2000'') 0 nm = Inr 2000"
      using getInt_number[of 0] getInt_number[of 3] getInt_number[of 2000] by (simp_all add: in_int_def INT_MIN_def INT_MAX_def)
  qed
  show ?thesis unfolding svmsg_receive_main_def g
    by (simp add: n msgrcv_def select_message_def wire_def MAX_MTEXT_def)
qed

end
