(* ===== verification/Sem_Programs.thy ===== *)
theory Sem_Programs
  imports Msg_Queues Interleave
begin

text \<open>
  The programs on System V semaphores (\<^verbatim>\<open>tlpi-dist/svsem\<close>): \<^verbatim>\<open>svsem_create.c\<close>, \<^verbatim>\<open>svsem_op.c\<close>, \<^verbatim>\<open>svsem_setall.c\<close> and \<^verbatim>\<open>svsem_rm.c\<close>, and
  the two ways to initialise a semaphore that several processes share, \<^verbatim>\<open>svsem_bad_init.c\<close> and \<^verbatim>\<open>svsem_good_init.c\<close>, as
  interleaved processes.
\<close>

section \<open>Semaphore sets\<close>

definition SEM_VALUE_MAX :: int where
  "SEM_VALUE_MAX = 32767"

definition SEMOPM :: nat where
  "SEMOPM = 500"

definition SEMMSL :: int where
  "SEMMSL = 32000"

definition to_short :: "int \<Rightarrow> int" where
  "to_short n = (n + 32768) mod 65536 - 32768"

record sembuf =
  sem_num :: nat
  sem_op :: int
  op_nowait :: bool
  op_undo :: bool

text \<open>One operation on the values of a set.\<close>

definition sem_step :: "sembuf \<Rightarrow> int list \<Rightarrow> int list call" where
  "sem_step b vs =
     (if length vs \<le> sem_num b then Error
      else
        let v = vs ! sem_num b in
        if sem_op b = 0 \<and> v \<noteq> 0 \<or> v + sem_op b < 0 then (if op_nowait b then Error else Would_block)
        else if SEM_VALUE_MAX < v + sem_op b then Error
        else Done (vs[sem_num b := v + sem_op b]))"

text \<open>All operations or none.\<close>

fun sem_steps :: "sembuf list \<Rightarrow> int list \<Rightarrow> int list call" where
  "sem_steps [] vs = Done vs"
| "sem_steps (b # bs) vs = (case sem_step b vs of Done vs' \<Rightarrow> sem_steps bs vs' | Error \<Rightarrow> Error | Would_block \<Rightarrow> Would_block)"

definition semop_set :: "sembuf list \<Rightarrow> int list \<Rightarrow> int list call" where
  "semop_set bs vs =
     (if SEMOPM < length bs \<or> list_ex (\<lambda>b. length vs \<le> sem_num b) bs then Error else sem_steps bs vs)"

section \<open>svsem\_op.c\<close>

definition MAX_SEMOPS :: nat where
  "MAX_SEMOPS = 1000"

text \<open>One operation at the start of a text, and the text after it.\<close>

definition parse_op :: "string \<Rightarrow> string + sembuf \<times> string" where
  "parse_op remaining =
     (if remaining = [] then Inl ''Trailing comma or empty argument''
      else if \<not> isdigit (hd remaining) then Inl ''Expected initial digit''
      else
        let (num, sign, _) = strtol remaining 10 in
        if sign = [] \<or> hd sign \<notin> set ''+-='' then Inl ''Expected '+', '-', or '=' ''
        else if tl sign = [] \<or> \<not> isdigit (hd (tl sign)) then Inl ''Expected digit''
        else
          let (v, flags, _) = strtol (tl sign) 10; oper = to_short v in
          if hd sign = CHR ''='' \<and> oper \<noteq> 0 then Inl ''Expected =0''
          else
            let fl = takeWhile (\<lambda>c. c \<in> set ''nu'') flags; rest = drop (length fl) flags in
            if rest \<noteq> [] \<and> hd rest \<noteq> CHR '','' then Inl ''Bad trailing character''
            else Inr (\<lparr>sem_num = nat (num mod 65536), sem_op = (if hd sign = CHR ''-'' then to_short (- oper) else oper),
                       op_nowait = (CHR ''n'' \<in> set fl), op_undo = (CHR ''u'' \<in> set fl)\<rparr>, rest))"

text \<open>The loop goes on after the first comma of the text at hand.\<close>

function parseOps :: "nat \<Rightarrow> string \<Rightarrow> string + sembuf list" where
  "parseOps numOps remaining =
     (if MAX_SEMOPS \<le> numOps then Inl ''Too many operations''
      else
        (case parse_op remaining of
           Inl e \<Rightarrow> Inl e
         | Inr (b, _) \<Rightarrow>
             let comma = dropWhile (\<lambda>c. c \<noteq> CHR '','') remaining in
             if comma = [] then Inr [b]
             else (case parseOps (Suc numOps) (tl comma) of Inl e \<Rightarrow> Inl e | Inr bs \<Rightarrow> Inr (b # bs))))"
  by pat_completeness auto
termination
proof (relation "measure (\<lambda>(n, r). length r)", goal_cases)
  case (2 numOps remaining x2 b rest comma)
  then have "length comma \<le> length remaining" "comma \<noteq> []" using length_dropWhile_le by auto
  then show ?case by (cases comma) auto
qed simp

declare parseOps.simps [simp del]

text \<open>What is printed before and after each call, and how the program ends; a set is given by its ID.\<close>

datatype sem_end = Sem_exit | Sem_usage | Sem_failed string | Sem_blocks

type_synonym sem_sets = "int \<rightharpoonup> int list"

fun semop_args :: "string \<Rightarrow> string list \<Rightarrow> sem_sets \<Rightarrow> (bool \<times> string) list \<times> sem_end \<times> sem_sets" where
  "semop_args semid [] sets = ([], Sem_exit, sets)"
| "semop_args semid (a # as) sets =
     (case parseOps 0 a of
        Inl e \<Rightarrow> ([], Sem_failed e, sets)
      | Inr bs \<Rightarrow>
          (case getInt (Some semid) 0 (Some ''semid'') of
             Inl e \<Rightarrow> ([(False, a)], Sem_failed e, sets)
           | Inr n \<Rightarrow>
               (case sets n of
                  None \<Rightarrow> ([(False, a)], Sem_failed ''semop'', sets)
                | Some vs \<Rightarrow>
                    (case semop_set bs vs of
                       Error \<Rightarrow> ([(False, a)], Sem_failed ''semop'', sets)
                     | Would_block \<Rightarrow> ([(False, a)], Sem_blocks, sets)
                     | Done vs' \<Rightarrow>
                         (case semop_args semid as (sets(n \<mapsto> vs')) of (evs, e, sets') \<Rightarrow> ((False, a) # (True, a) # evs, e, sets'))))))"

definition svsem_op_main :: "string list \<Rightarrow> sem_sets \<Rightarrow> (bool \<times> string) list \<times> sem_end \<times> sem_sets" where
  "svsem_op_main argv sets =
     (if length argv < 2 \<or> argv ! 1 = ''--help'' then ([], Sem_usage, sets) else semop_args (argv ! 1) (drop 2 argv) sets)"

section \<open>svsem\_create.c, svsem\_setall.c and svsem\_rm.c\<close>

record sem_sys =
  sem_sets :: sem_sets
  sem_keys :: "int \<rightharpoonup> int"
  sem_next :: int

definition semget :: "int \<Rightarrow> int \<Rightarrow> int \<Rightarrow> sem_sys \<Rightarrow> (int \<times> sem_sys) option" where
  "semget key nsems flags sys =
     (let fresh = (\<lambda>ks. sys\<lparr>sem_sets := (sem_sets sys)(sem_next sys \<mapsto> replicate (nat nsems) 0), sem_keys := ks, sem_next := sem_next sys + 1\<rparr>) in
      if nsems < 0 \<or> SEMMSL < nsems then None
      else if key = 0 then (if nsems = 0 then None else Some (sem_next sys, fresh (sem_keys sys)))
      else
        (case sem_keys sys key of
           Some semid \<Rightarrow>
             if bit flags 9 \<and> bit flags 10 \<or> int (length (the (sem_sets sys semid))) < nsems then None else Some (semid, sys)
         | None \<Rightarrow> if bit flags 9 \<and> nsems \<noteq> 0 then Some (sem_next sys, fresh ((sem_keys sys)(key \<mapsto> sem_next sys))) else None))"

text \<open>The options are those of \<^verbatim>\<open>svmsg_create\<close>.\<close>

definition svsem_create_main :: "(string \<Rightarrow> int) \<Rightarrow> string list \<Rightarrow> sem_sys \<Rightarrow> sem_sys run" where
  "svsem_create_main ftok argv sys =
     (case getopt ''cf:k:px'' argv of (rs, ops) \<Rightarrow>
      (case svmsg_options ftok rs ([], 0) of
         Inl e \<Rightarrow> if e = ''usage'' then Usage else Failed e
       | Inr (ks, flags) \<Rightarrow>
           if length ks \<noteq> 1 \<or> ops = [] then Usage
           else (case (getInt (Some (hd ops)) 0 (Some ''num-sems''), octal_perms (tl ops)) of
               (Inr numSems, Inr perms) \<Rightarrow>
                 (case semget (hd ks) numSems (flags OR perms) sys of
                    None \<Rightarrow> Failed ''semget''
                  | Some (semid, sys') \<Rightarrow> Ran (show_int semid @ [CHR 0x0A]) sys')
             | (Inl e, _) \<Rightarrow> Failed e
             | (_, Inl e) \<Rightarrow> Failed e)))"

fun get_values :: "string list \<Rightarrow> string + int list" where
  "get_values [] = Inr []"
| "get_values (a # as) =
     (case getInt (Some a) 0 (Some ''val'') of
        Inl e \<Rightarrow> Inl e
      | Inr v \<Rightarrow> (case get_values as of Inl e \<Rightarrow> Inl e | Inr vs \<Rightarrow> Inr (v mod 65536 # vs)))"

definition svsem_setall_main :: "int \<Rightarrow> string list \<Rightarrow> sem_sets \<Rightarrow> sem_sets run" where
  "svsem_setall_main pid argv sets =
     (if length argv < 3 \<or> argv ! 1 = ''--help'' then Usage
      else (case getInt (Some (argv ! 1)) 0 (Some ''semid'') of
          Inl e \<Rightarrow> Failed e
        | Inr semid \<Rightarrow>
            (case sets semid of
               None \<Rightarrow> Failed ''semctl''
             | Some vs \<Rightarrow>
                 if length vs \<noteq> length argv - 2 then Failed ''Set contains''
                 else (case get_values (drop 2 argv) of
                     Inl e \<Rightarrow> Failed e
                   | Inr ns \<Rightarrow>
                       if list_all (\<lambda>n. n \<le> SEM_VALUE_MAX) ns then Ran (''Semaphore values changed (PID='' @ show_int pid @ '')'' @ [CHR 0x0A]) (sets(semid \<mapsto> ns))
                       else Failed ''semctl-SETALL''))))"

fun remove_sets :: "string list \<Rightarrow> sem_sys \<Rightarrow> string option \<times> sem_sys" where
  "remove_sets [] sys = (None, sys)"
| "remove_sets (a # as) sys =
     (case getInt (Some a) 0 (Some ''semid'') of
        Inl e \<Rightarrow> (Some e, sys)
      | Inr semid \<Rightarrow>
          if sem_sets sys semid = None then (Some (''semctl '' @ a), sys)
          else remove_sets as (sys\<lparr>sem_sets := (sem_sets sys)(semid := None),
              sem_keys := (\<lambda>k. if sem_keys sys k = Some semid then None else sem_keys sys k)\<rparr>))"

definition svsem_rm_main :: "string list \<Rightarrow> sem_sys \<Rightarrow> (string option \<times> sem_sys) option" where
  "svsem_rm_main argv sys = (if 1 < length argv \<and> argv ! 1 = ''--help'' then None else Some (remove_sets (tl argv) sys))"

section \<open>Operations that are written are performed\<close>

definition show_op :: "sembuf \<Rightarrow> string" where
  "show_op b =
     show_int (int (sem_num b)) @ (if sem_op b < 0 then ''-'' else if sem_op b = 0 then ''='' else ''+'') @ show_int \<bar>sem_op b\<bar> @
     (if op_nowait b then ''n'' else []) @ (if op_undo b then ''u'' else [])"

definition op_range :: "sembuf \<Rightarrow> bool" where
  "op_range b \<longleftrightarrow> sem_num b < 65536 \<and> - 32768 \<le> sem_op b \<and> sem_op b \<le> 32767"

fun show_ops :: "sembuf list \<Rightarrow> string" where
  "show_ops [] = []"
| "show_ops [b] = show_op b"
| "show_ops (b # bs) = show_op b @ '','' @ show_ops bs"

lemma strtol_digits:
  assumes "0 \<le> n" "n < 100000" "r = [] \<or> \<not> isdigit (hd r)"
  shows "strtol (show_int n @ r) 10 = (n, r, False)" "show_int n \<noteq> []" "isdigit (hd (show_int n @ r))"
proof -
  have "r = [] \<or> \<not> is_digit_of 10 (hd r)" using assms(3) by (auto simp: is_digit_of_def digit_val_def isalpha_def islower_def isupper_def split: if_splits)
  then show "strtol (show_int n @ r) 10 = (n, r, False)"
    using assms(1,2) by (intro strtol_show_int) (auto simp: LONG_MIN_def LONG_MAX_def)
  show "show_int n \<noteq> []" by simp
  obtain d where "d < 10" "hd (show_nat (nat n)) = digit_char d" using hd_show_nat by blast
  then show "isdigit (hd (show_int n @ r))" using assms(1) by (simp add: show_int_def isdigit_char)
qed

lemma to_short_id: "- 32768 \<le> n \<Longrightarrow> n \<le> 32767 \<Longrightarrow> to_short n = n"
  by (simp add: to_short_def)

lemma to_short_neg: "- 32768 \<le> n \<Longrightarrow> n < 0 \<Longrightarrow> to_short (- to_short (- n)) = n"
  by (cases "n = - 32768") (simp_all add: to_short_def)

lemma parse_op_show:
  assumes "op_range b" "r = [] \<or> hd r = CHR '',''"
  shows "parse_op (show_op b @ r) = Inr (b, r)"
proof -
  define fl where "fl = (if op_nowait b then ''n'' else []) @ (if op_undo b then ''u'' else [])"
  define sg where "sg = (if sem_op b < 0 then CHR ''-'' else if sem_op b = 0 then CHR ''='' else CHR ''+'')"
  have x: "show_op b @ r = show_int (int (sem_num b)) @ sg # show_int \<bar>sem_op b\<bar> @ fl @ r"
    by (simp add: show_op_def fl_def sg_def)
  have f: "fl @ r = [] \<or> \<not> isdigit (hd (fl @ r))" using assms(2) by (cases r) (auto simp: fl_def isdigit_def)
  have o: "0 \<le> \<bar>sem_op b\<bar>" "\<bar>sem_op b\<bar> < 100000" using assms(1) by (auto simp: op_range_def)
  have v: "strtol (show_int \<bar>sem_op b\<bar> @ fl @ r) 10 = (\<bar>sem_op b\<bar>, fl @ r, False)" "isdigit (hd (show_int \<bar>sem_op b\<bar> @ fl @ r))"
    using strtol_digits[OF o f] by simp_all
  have sd: "sg # show_int \<bar>sem_op b\<bar> @ fl @ r = [] \<or> \<not> isdigit (hd (sg # show_int \<bar>sem_op b\<bar> @ fl @ r))" by (simp add: sg_def isdigit_def)
  have "0 \<le> int (sem_num b)" "int (sem_num b) < 100000" using assms(1) by (auto simp: op_range_def)
  note n = strtol_digits[OF this sd]
  have t: "takeWhile (\<lambda>c. c \<in> set ''nu'') (fl @ r) = fl"
    using assms(2) by (cases r) (auto simp: fl_def)
  have op: "(if sg = CHR ''-'' then to_short (- to_short \<bar>sem_op b\<bar>) else to_short \<bar>sem_op b\<bar>) = sem_op b"
    using assms(1) to_short_neg[of "sem_op b"] to_short_id[of "sem_op b"] by (auto simp: sg_def op_range_def)
  have z: "\<not> (sg = CHR ''='' \<and> to_short \<bar>sem_op b\<bar> \<noteq> 0)" by (auto simp: sg_def to_short_def)
  have m: "nat (int (sem_num b) mod 65536) = sem_num b" using assms(1) by (simp add: op_range_def nat_mod_as_int)
  have e: "CHR ''n'' \<in> set fl \<longleftrightarrow> op_nowait b" "CHR ''u'' \<in> set fl \<longleftrightarrow> op_undo b" "sg \<in> set ''+-=''" by (auto simp: fl_def sg_def)
  have r: "\<not> (r \<noteq> [] \<and> hd r \<noteq> CHR '','')" using assms(2) by auto
  have d: "show_int \<bar>sem_op b\<bar> @ fl @ r \<noteq> []" by simp
  show ?thesis unfolding parse_op_def x
    using n v z m e r d op by (simp only: t Let_def list.sel case_prod_conv append_eq_append_conv2) simp
qed

lemma show_op_no_comma: "CHR '','' \<notin> set (show_op b)"
  using show_int_chars[of "CHR '',''"] by (auto simp: show_op_def isdigit_def)

lemma dropWhile_comma: "dropWhile (\<lambda>c. c \<noteq> CHR '','') (show_op b @ r) = dropWhile (\<lambda>c. c \<noteq> CHR '','') r"
  using show_op_no_comma[of b] by (intro dropWhile_append2) auto

lemma parseOps_show:
  "bs \<noteq> [] \<Longrightarrow> list_all op_range bs \<Longrightarrow> n + length bs \<le> MAX_SEMOPS \<Longrightarrow> parseOps n (show_ops bs) = Inr bs"
proof (induction bs arbitrary: n rule: show_ops.induct)
  case (2 b)
  then have "parse_op (show_op b) = Inr (b, [])" using parse_op_show[of b "[]"] by simp
  then show ?case using 2 dropWhile_comma[of b "[]"] by (simp add: parseOps.simps)
next
  case (3 b b' bs)
  have "parse_op (show_op b @ '','' @ show_ops (b' # bs)) = Inr (b, '','' @ show_ops (b' # bs))"
    using 3 by (intro parse_op_show) simp_all
  moreover have "parseOps (Suc n) (show_ops (b' # bs)) = Inr (b' # bs)" using 3 by simp
  ultimately show ?case using 3(4) dropWhile_comma[of b "'','' @ show_ops (b' # bs)"] by (simp add: parseOps.simps[of n])
qed simp

definition total_op :: "sembuf list \<Rightarrow> nat \<Rightarrow> int" where
  "total_op bs k = sum_list (map (\<lambda>b. if sem_num b = k then sem_op b else 0) bs)"

lemma sem_step_effect:
  assumes "sem_step b vs = Done vs'"
  shows "length vs' = length vs" "k < length vs \<Longrightarrow> vs' ! k = vs ! k + (if sem_num b = k then sem_op b else 0)"
    "list_all (\<lambda>v. 0 \<le> v \<and> v \<le> SEM_VALUE_MAX) vs \<Longrightarrow> list_all (\<lambda>v. 0 \<le> v \<and> v \<le> SEM_VALUE_MAX) vs'"
  using assms by (auto simp: sem_step_def Let_def list_all_length nth_list_update split: if_splits)

lemma sem_steps_effect:
  "sem_steps bs vs = Done vs' \<Longrightarrow> length vs' = length vs \<and> (\<forall>k < length vs. vs' ! k = vs ! k + total_op bs k) \<and>
    (list_all (\<lambda>v. 0 \<le> v \<and> v \<le> SEM_VALUE_MAX) vs \<longrightarrow> list_all (\<lambda>v. 0 \<le> v \<and> v \<le> SEM_VALUE_MAX) vs')"
proof (induction bs arbitrary: vs)
  case (Cons b bs)
  then obtain vs1 where s: "sem_step b vs = Done vs1" "sem_steps bs vs1 = Done vs'" by (auto split: call.splits)
  note e = sem_step_effect[OF s(1)]
  show ?case using Cons.IH[OF s(2)] e by (auto simp: total_op_def)
qed (simp add: total_op_def)

lemma semop_args_all:
  assumes "getInt (Some ids) 0 (Some ''semid'') = Inr semid"
  shows "list_all (\<lambda>bs. bs \<noteq> [] \<and> length bs \<le> 1000 \<and> list_all op_range bs) args \<Longrightarrow> sets semid = Some vs \<Longrightarrow>
    semop_args ids (map show_ops args) sets = (evs, Sem_exit, sets') \<Longrightarrow>
    \<exists>vs'. sets' = sets(semid \<mapsto> vs') \<and> length vs' = length vs \<and> (\<forall>k < length vs. vs' ! k = vs ! k + total_op (concat args) k)"
proof (induction args arbitrary: sets vs evs)
  case Nil
  then show ?case by (intro exI[of _ vs]) (auto simp: total_op_def fun_eq_iff)
next
  case (Cons bs args)
  have p: "parseOps 0 (show_ops bs) = Inr bs" using Cons.prems(1) by (intro parseOps_show) (simp_all add: MAX_SEMOPS_def)
  obtain vs1 evs1 where s: "semop_set bs vs = Done vs1"
      and r: "semop_args ids (map show_ops args) (sets(semid \<mapsto> vs1)) = (evs1, Sem_exit, sets')"
    using Cons.prems(2,3) by (auto simp: p assms split: call.splits prod.splits)
  have e: "length vs1 = length vs" "\<forall>k < length vs. vs1 ! k = vs ! k + total_op bs k"
    using s sem_steps_effect[of bs vs vs1] by (auto simp: semop_set_def split: if_splits)
  have l: "list_all (\<lambda>bs. bs \<noteq> [] \<and> length bs \<le> 1000 \<and> list_all op_range bs) args" using Cons.prems(1) by simp
  have h: "(sets(semid \<mapsto> vs1)) semid = Some vs1" by simp
  from Cons.IH[OF l h r] obtain vs' where v: "sets' = (sets(semid \<mapsto> vs1))(semid \<mapsto> vs')" "length vs' = length vs1"
    "\<forall>k < length vs1. vs' ! k = vs1 ! k + total_op (concat args) k" by blast
  have "total_op (concat (bs # args)) k = total_op bs k + total_op (concat args) k" for k by (simp add: total_op_def)
  then show ?case using v e by (intro exI[of _ vs']) auto
qed



text \<open>
  A number that does not fit is not refused but loses its upper bits: an addition becomes a wait for zero.
\<close>

lemma large_operation:
  "parseOps 0 (''0+'' @ show_int 65536) = Inr [\<lparr>sem_num = 0, sem_op = 0, op_nowait = False, op_undo = False\<rparr>]"
proof -
  define big where "big = show_int 65536"
  have z: "show_int 0 = ''0''" by code_simp
  have n: "strtol (''0+'' @ big) 10 = (0, ''+'' @ big, False)"
    using strtol_digits(1)[of 0 "''+'' @ big"] by (simp add: z isdigit_def)
  have v: "strtol big 10 = (65536, [], False)" "isdigit (hd big)" "big \<noteq> []"
    using strtol_digits[of 65536 "[]"] by (simp_all add: big_def)
  have "isdigit CHR ''0''" by (simp add: isdigit_def)
  then have "parse_op (''0+'' @ big) = Inr (\<lparr>sem_num = 0, sem_op = 0, op_nowait = False, op_undo = False\<rparr>, [])"
    using n v by (simp add: parse_op_def to_short_def)
  moreover have "\<forall>c \<in> set (''0+'' @ big). c \<noteq> CHR '',''" using show_int_chars[of "CHR '',''" 65536] by (auto simp: isdigit_def big_def)
  then have "dropWhile (\<lambda>c. c \<noteq> CHR '','') (''0+'' @ big) = []" by (simp only: dropWhile_eq_Nil_conv)
  ultimately show ?thesis unfolding parseOps.simps[of 0 "''0+'' @ show_int 65536"] big_def by (simp add: MAX_SEMOPS_def)
qed

section \<open>svsem\_good\_init.c and svsem\_bad\_init.c\<close>

text \<open>
  The semaphore that the processes share: whether it exists, its value, whether an operation was performed on it, and the
  operations in their order.  A new semaphore has any value.
\<close>

record init_sys =
  sem_exists :: bool
  semval :: int
  sem_otime :: bool
  performed :: "int list"

definition MAX_TRIES :: nat where
  "MAX_TRIES = 10"

datatype init_pc = G_create | G_setval | G_dummy | G_try nat | G_op | G_done | G_failed

text \<open>The operation of a process is the number of its argument, if it is one.\<close>

type_synonym init_proc = "int option \<times> init_pc"

text \<open>An operation on the semaphore, as a step that may block.\<close>

definition init_semop :: "int \<Rightarrow> init_sys \<Rightarrow> init_sys call" where
  "init_semop oper s =
     (case sem_step \<lparr>sem_num = 0, sem_op = oper, op_nowait = False, op_undo = False\<rparr> [semval s] of
        Done vs \<Rightarrow> Done (s\<lparr>semval := hd vs, sem_otime := True\<rparr>)
      | Error \<Rightarrow> Error
      | Would_block \<Rightarrow> Would_block)"

definition user_op :: "int option \<Rightarrow> init_sys \<Rightarrow> (init_pc \<times> init_sys) option" where
  "user_op oper s =
     (case oper of
        None \<Rightarrow> Some (G_failed, s)
      | Some n \<Rightarrow>
          (case init_semop n s of
             Done t \<Rightarrow> Some (G_done, t\<lparr>performed := performed t @ [n]\<rparr>)
           | Error \<Rightarrow> Some (G_failed, s)
           | Would_block \<Rightarrow> None))"

fun good_init :: "int \<Rightarrow> init_proc \<Rightarrow> init_sys \<Rightarrow> (init_proc \<times> init_sys) option" where
  "good_init new (oper, G_create) s =
     (if sem_exists s then Some ((oper, G_try 0), s)
      else Some ((oper, G_setval), s\<lparr>sem_exists := True, semval := new, sem_otime := False\<rparr>))"
| "good_init new (oper, G_setval) s = Some ((oper, G_dummy), s\<lparr>semval := 0\<rparr>)"
| "good_init new (oper, G_dummy) s =
     (case init_semop 0 s of Done t \<Rightarrow> Some ((oper, G_op), t) | Error \<Rightarrow> Some ((oper, G_failed), s) | Would_block \<Rightarrow> None)"
| "good_init new (oper, G_try j) s =
     (if sem_otime s then Some ((oper, G_op), s)
      else if Suc j < MAX_TRIES then Some ((oper, G_try (Suc j)), s) else Some ((oper, G_failed), s))"
| "good_init new (oper, G_op) s = map_option (\<lambda>(pc, t). ((oper, pc), t)) (user_op oper s)"
| "good_init new (oper, G_done) s = None"
| "good_init new (oper, G_failed) s = None"

fun bad_init :: "int \<Rightarrow> init_proc \<Rightarrow> init_sys \<Rightarrow> (init_proc \<times> init_sys) option" where
  "bad_init new (oper, G_create) s =
     (if sem_exists s then Some ((oper, G_op), s)
      else Some ((oper, G_setval), s\<lparr>sem_exists := True, semval := new, sem_otime := False\<rparr>))"
| "bad_init new (oper, G_setval) s = Some ((oper, G_op), s\<lparr>semval := 0\<rparr>)"
| "bad_init new (oper, G_op) s = map_option (\<lambda>(pc, t). ((oper, pc), t)) (user_op (Some 1) s)"
| "bad_init new (oper, pc) s = None"

definition init_start :: "init_sys" where
  "init_start = \<lparr>sem_exists = False, semval = 0, sem_otime = False, performed = []\<rparr>"

text \<open>The number is converted to a \<^verbatim>\<open>short\<close>; the other program always adds 1.\<close>

definition svsem_good_init_main :: "string list \<Rightarrow> init_proc option" where
  "svsem_good_init_main argv =
     (if length argv \<noteq> 2 \<or> argv ! 1 = ''--help'' then None
      else Some (case getInt (Some (argv ! 1)) 0 (Some ''sem-op'') of Inl e \<Rightarrow> None | Inr n \<Rightarrow> Some (to_short n), G_create))"

definition svsem_bad_init_main :: init_proc where
  "svsem_bad_init_main = (Some 1, G_create)"

section \<open>Initialisation without a race\<close>

definition creating :: "init_proc \<Rightarrow> bool" where
  "creating p \<longleftrightarrow> snd p = G_setval \<or> snd p = G_dummy"

definition operating :: "init_proc \<Rightarrow> bool" where
  "operating p \<longleftrightarrow> snd p = G_op \<or> snd p = G_done"

definition contribution :: "init_proc \<Rightarrow> int" where
  "contribution p = (if snd p = G_done then the (fst p) else 0)"

text \<open>
  Before the semaphore exists nobody has done anything; then one process initialises it, and nobody operates on it before it
  has ended this; and then the value is the sum of the operations.
\<close>

definition good_inv :: "init_sys \<Rightarrow> init_proc list \<Rightarrow> bool" where
  "good_inv s ps \<longleftrightarrow>
     (if \<not> sem_exists s then list_all (\<lambda>p. snd p = G_create) ps \<and> \<not> sem_otime s
      else if \<not> sem_otime s then tally creating ps = 1 \<and> list_all (\<lambda>p. \<not> operating p) ps \<and>
        list_all (\<lambda>p. snd p = G_dummy \<longrightarrow> semval s = 0) ps
      else tally creating ps = 0 \<and> semval s = sum_list (map contribution ps))"

lemma contribution_change:
  "i < length ps \<Longrightarrow> sum_list (map contribution (ps[i := y])) = sum_list (map contribution ps) + contribution y - contribution (ps ! i)"
  by (rule sum_list_upd)

lemma no_contribution: "list_all (\<lambda>p. \<not> operating p) ps \<Longrightarrow> sum_list (map contribution ps) = 0"
  by (induction ps) (auto simp: operating_def contribution_def)

lemma init_semop_done:
  assumes "init_semop n s = Done t"
  shows "t = s\<lparr>semval := semval s + n, sem_otime := True\<rparr>"
  using assms by (auto simp: init_semop_def sem_step_def Let_def split: if_splits)

lemma init_semop_zero: "semval s = 0 \<Longrightarrow> init_semop 0 s = Done (s\<lparr>semval := 0, sem_otime := True\<rparr>)"
  by (simp add: init_semop_def sem_step_def SEM_VALUE_MAX_def)

lemma good_step_create:
  assumes inv: "good_inv s ps" and i: "i < length ps" and p: "ps ! i = (oper, G_create)" and st: "good_init new (oper, G_create) s = Some (q, t)"
  shows "good_inv t (ps[i := q])"
proof (cases "sem_exists s")
  case False
  then have t: "q = (oper, G_setval)" "t = s\<lparr>sem_exists := True, semval := new, sem_otime := False\<rparr>" using st by auto
  have all: "list_all (\<lambda>p. snd p = G_create) ps" using inv False by (simp add: good_inv_def)
  then have "tally creating ps = 0" by (auto simp: tally_zero list_all_iff creating_def)
  then have "tally creating (ps[i := q]) = 1" using tally_upd[OF i, of creating q] p t(1) by (simp add: creating_def)
  moreover have "list_all (\<lambda>p. \<not> operating p \<and> snd p \<noteq> G_dummy) (ps[i := q])"
    by (rule list_all_upd) (use all t(1) in \<open>auto simp: operating_def list_all_iff\<close>)
  then have "list_all (\<lambda>p. \<not> operating p) (ps[i := q])" "list_all (\<lambda>p. snd p = G_dummy \<longrightarrow> semval t = 0) (ps[i := q])"
    by (simp_all add: list_all_iff)
  ultimately show ?thesis using t by (simp add: good_inv_def)
next
  case True
  then have q: "q = (oper, G_try 0)" "t = s" using st by auto
  have "tally creating (ps[i := q]) = tally creating ps" using tally_upd[OF i, of creating q] p q(1) by (simp add: creating_def)
  moreover have "sum_list (map contribution (ps[i := q])) = sum_list (map contribution ps)"
    using contribution_change[OF i, of q] p q(1) by (simp add: contribution_def)
  ultimately show ?thesis using inv True q by (auto simp: good_inv_def operating_def intro!: list_all_upd)
qed

lemma good_step_init:
  assumes inv: "good_inv s ps" and i: "i < length ps" and p: "ps ! i = (oper, pc)" "pc = G_setval \<or> pc = G_dummy"
    and st: "good_init new (oper, pc) s = Some (q, t)"
  shows "good_inv t (ps[i := q])"
proof -
  have c: "creating (ps ! i)" using p by (auto simp: creating_def)
  have "snd (ps ! i) \<noteq> G_create" using p by auto
  then have "sem_exists s" using inv i by (auto simp: good_inv_def list_all_length split: if_splits)
  moreover have "\<not> sem_otime s" using inv tally_pos[of i ps creating] i c calculation by (auto simp: good_inv_def)
  ultimately have f: "sem_exists s" "\<not> sem_otime s" "tally creating ps = 1" "list_all (\<lambda>p. \<not> operating p) ps"
    "list_all (\<lambda>p. snd p = G_dummy \<longrightarrow> semval s = 0) ps" using inv by (auto simp: good_inv_def)
  show ?thesis
  proof (cases "pc = G_setval")
    case True
    then have q: "q = (oper, G_dummy)" "t = s\<lparr>semval := 0\<rparr>" using st by auto
    have "tally creating (ps[i := q]) = 1" using tally_upd[OF i, of creating q] c q(1) f(3) by (simp add: creating_def)
    then show ?thesis using f q by (auto simp: good_inv_def operating_def list_all_iff dest!: set_update_subset_insert[THEN subsetD])
  next
    case False
    then have pc: "pc = G_dummy" using p(2) by simp
    then have z: "semval s = 0" using f(5) i p by (auto simp: list_all_length)
    then have q: "q = (oper, G_op)" "t = s\<lparr>semval := 0, sem_otime := True\<rparr>" using st pc by (auto simp: init_semop_zero)
    have "tally creating (ps[i := q]) = 0" using tally_upd[OF i, of creating q] c q(1) f(3) by (simp add: creating_def)
    moreover have "sum_list (map contribution (ps[i := q])) = 0"
      using contribution_change[OF i, of q] no_contribution[OF f(4)] p pc q(1) by (simp add: contribution_def)
    ultimately show ?thesis using f q by (simp add: good_inv_def)
  qed
qed

lemma good_step_try:
  assumes inv: "good_inv s ps" and i: "i < length ps" and p: "ps ! i = (oper, G_try j)" and st: "good_init new (oper, G_try j) s = Some (q, t)"
  shows "good_inv t (ps[i := q])"
proof -
  have "snd (ps ! i) \<noteq> G_create" using p by auto
  then have e: "sem_exists s" using inv i by (auto simp: good_inv_def list_all_length split: if_splits)
  have q: "t = s" "\<not> creating q" "snd q \<noteq> G_done" "snd q \<noteq> G_dummy" "\<not> sem_otime s \<Longrightarrow> \<not> operating q"
    using st by (auto simp: creating_def operating_def split: if_splits)
  have "tally creating (ps[i := q]) = tally creating ps" using tally_upd[OF i, of creating q] p q(2) by (simp add: creating_def)
  moreover have "sum_list (map contribution (ps[i := q])) = sum_list (map contribution ps)"
    using contribution_change[OF i, of q] p q(3) by (simp add: contribution_def)
  ultimately show ?thesis using inv e q by (auto simp: good_inv_def intro!: list_all_upd)
qed

lemma good_step_op:
  assumes inv: "good_inv s ps" and i: "i < length ps" and p: "ps ! i = (oper, G_op)" and st: "good_init new (oper, G_op) s = Some (q, t)"
  shows "good_inv t (ps[i := q])"
proof -
  have "operating (ps ! i)" "snd (ps ! i) \<noteq> G_create" using p by (auto simp: operating_def)
  then have o: "sem_exists s" "sem_otime s" "tally creating ps = 0" "semval s = sum_list (map contribution ps)"
    using inv i by (auto simp: good_inv_def list_all_length split: if_splits)
  have q: "fst q = oper" "\<not> creating q" using st by (auto simp: user_op_def creating_def split: option.splits call.splits)
  have t: "sem_exists t" "sem_otime t" "semval t = semval s + contribution q"
    using st o(1,2) by (auto simp: user_op_def contribution_def split: option.splits call.splits dest!: init_semop_done)
  have "tally creating (ps[i := q]) = 0" using tally_upd[OF i, of creating q] p q(2) o(3) by (simp add: creating_def)
  moreover have "sum_list (map contribution (ps[i := q])) = sum_list (map contribution ps) + contribution q"
    using contribution_change[OF i, of q] p by (simp add: contribution_def)
  ultimately show ?thesis using o t by (simp add: good_inv_def)
qed

fun init_rank :: "init_proc \<Rightarrow> nat" where
  "init_rank (oper, G_create) = 14"
| "init_rank (oper, G_setval) = 13"
| "init_rank (oper, G_dummy) = 12"
| "init_rank (oper, G_try j) = 2 + (MAX_TRIES - j)"
| "init_rank (oper, G_op) = 1"
| "init_rank (oper, pc) = 0"

lemma good_rank: "good_init new p s = Some (q, t) \<Longrightarrow> init_rank q < init_rank p"
  by (cases p rule: init_rank.cases)
    (auto simp: MAX_TRIES_def user_op_def split: if_splits call.splits option.splits)

interpretation good: ending_protocol "good_init new" good_inv "\<lambda>s ps. sum_list (map init_rank ps)" for new
proof (unfold_locales, goal_cases)
  case (1 s ps i q t)
  obtain oper pc where p: "ps ! i = (oper, pc)" by fastforce
  then have st: "good_init new (oper, pc) s = Some (q, t)" using 1(3) by simp
  show ?case
  proof (cases pc)
    case G_create
    then show ?thesis using good_step_create[of s ps i oper new q t] 1(1,2) p st by simp
  next
    case (G_try j)
    then show ?thesis using good_step_try[of s ps i oper j new q t] 1(1,2) p st by simp
  next
    case G_op
    then show ?thesis using good_step_op[of s ps i oper new q t] 1(1,2) p st by simp
  qed (use good_step_init[of s ps i oper pc new q t] 1(1,2) p st in simp_all)
next
  case (2 s ps i q t)
  then show ?case using sum_list_upd_nat[of i ps init_rank q] good_rank[of new "ps ! i" s q t] by simp
qed

text \<open>A process that has ended, or one whose operation cannot proceed at the end.\<close>

definition settled :: "init_sys \<Rightarrow> init_proc \<Rightarrow> bool" where
  "settled s p \<longleftrightarrow> snd p = G_done \<or> snd p = G_failed \<or> snd p = G_op \<and> (\<exists>n. fst p = Some n \<and> init_semop n s = Would_block)"

lemma good_stuck:
  assumes inv: "good_inv s ps" and st: "stuck (good_init new) (s, ps)" and ne: "ps \<noteq> []"
  shows "sem_otime s \<and> semval s = sum_list (map contribution ps) \<and> list_all (settled s) ps"
proof -
  have n: "good_init new p s = None" if "p \<in> set ps" for p using st that by (simp add: stuck_def list_all_iff)
  have e: "sem_exists s"
  proof (rule ccontr)
    assume "\<not> sem_exists s"
    moreover from this have "snd (hd ps) = G_create" using inv ne by (auto simp: good_inv_def list_all_iff)
    moreover have "hd ps \<in> set ps" using ne by simp
    ultimately show False using n[of "hd ps"] by (cases "hd ps") auto
  qed
  have o: "sem_otime s"
  proof (rule ccontr)
    assume o: "\<not> sem_otime s"
    then have t: "tally creating ps = 1" "list_all (\<lambda>p. snd p = G_dummy \<longrightarrow> semval s = 0) ps" using inv e by (auto simp: good_inv_def)
    then obtain p where p: "p \<in> set ps" "creating p" using tally_zero[of creating ps] by (auto simp: list_all_iff)
    obtain oper pc where pc: "p = (oper, pc)" by fastforce
    have "snd p = G_dummy \<longrightarrow> semval s = 0" using t(2) p(1) by (auto simp: list_all_iff)
    then show False using n[OF p(1)] p(2) by (auto simp: pc creating_def init_semop_zero)
  qed
  have c: "\<not> creating p" if "p \<in> set ps" for p using inv e o that by (auto simp: good_inv_def tally_zero list_all_iff)
  have "settled s p" if "p \<in> set ps" for p
    using n[OF that] c[OF that] e
    by (cases p rule: init_rank.cases) (auto simp: settled_def creating_def user_op_def split: if_splits option.splits call.splits)
  then show ?thesis using inv e o by (simp add: good_inv_def list_all_iff)
qed



text \<open>
  The other program: a process that finds the semaphore can add to it before the one that has created it sets its value, and
  its addition is lost.
\<close>

theorem bad_init_race:
  "\<exists>s ps. (interleave (bad_init 0))\<^sup>*\<^sup>* (init_start, [svsem_bad_init_main, svsem_bad_init_main]) (s, ps) \<and>
    map snd ps = [G_done, G_done] \<and> performed s = [1, 1] \<and> semval s = 1"
  by (rule scheduled_run[where sched = "[0, 1, 1, 0, 0]"]) code_simp

end
