(* ===== verification/Posix_Objects.thy ===== *)
theory Posix_Objects
  imports Msg_Queues
begin

text \<open>
  POSIX named semaphores and shared memory objects: \<^verbatim>\<open>psem_create.c\<close>, \<^verbatim>\<open>psem_post.c\<close>, \<^verbatim>\<open>psem_wait.c\<close>, \<^verbatim>\<open>psem_trywait.c\<close>,
  \<^verbatim>\<open>psem_timedwait.c\<close>, \<^verbatim>\<open>psem_getvalue.c\<close> and \<^verbatim>\<open>psem_unlink.c\<close> (\<^verbatim>\<open>tlpi-dist/psem\<close>), and \<^verbatim>\<open>pshm_create.c\<close>, \<^verbatim>\<open>pshm_write.c\<close>,
  \<^verbatim>\<open>pshm_read.c\<close> and \<^verbatim>\<open>pshm_unlink.c\<close> (\<^verbatim>\<open>tlpi-dist/pshm\<close>).  The programs run as the owner of the objects, and one after the other.
\<close>

section \<open>Named objects\<close>

text \<open>Slashes at the start of a name are skipped, and there may be no other one.\<close>

definition object_name :: "string \<Rightarrow> string option" where
  "object_name name =
     (let n = dropWhile (\<lambda>c. c = CHR ''/'') name in if n = [] \<or> CHR ''/'' \<in> set n then None else Some n)"

record 'a object =
  obj_perms :: int
  obj_data :: 'a

text \<open>Opening gives the name of the object, and the objects with a new one if it was created.\<close>

definition open_object ::
  "bool \<Rightarrow> bool \<Rightarrow> bool \<Rightarrow> int \<Rightarrow> 'a \<Rightarrow> string \<Rightarrow> (string \<rightharpoonup> 'a object) \<Rightarrow> (string \<times> (string \<rightharpoonup> 'a object)) option" where
  "open_object wr creat excl perms new name objs =
     (case object_name name of
        None \<Rightarrow> None
      | Some n \<Rightarrow>
          (case objs n of
             Some ob \<Rightarrow> if creat \<and> excl \<or> \<not> allowed True wr (obj_perms ob) then None else Some (n, objs)
           | None \<Rightarrow> if creat then Some (n, objs(n \<mapsto> \<lparr>obj_perms = perms, obj_data = new\<rparr>)) else None))"

definition data_of :: "(string \<rightharpoonup> 'a object) \<Rightarrow> string \<Rightarrow> 'a" where
  "data_of objs n = obj_data (the (objs n))"

definition set_data :: "string \<Rightarrow> 'a \<Rightarrow> (string \<rightharpoonup> 'a object) \<Rightarrow> (string \<rightharpoonup> 'a object)" where
  "set_data n d objs = objs(n \<mapsto> (the (objs n))\<lparr>obj_data := d\<rparr>)"

definition unlink_object :: "string \<Rightarrow> (string \<rightharpoonup> 'a object) \<Rightarrow> (string \<rightharpoonup> 'a object) option" where
  "unlink_object name objs =
     (case object_name name of None \<Rightarrow> None | Some n \<Rightarrow> if objs n = None then None else Some (objs(n := None)))"

text \<open>The options \<^verbatim>\<open>-c\<close> and \<^verbatim>\<open>-x\<close>, or no value for another one.\<close>

definition create_flags :: "opt_result list \<Rightarrow> (bool \<times> bool) option" where
  "create_flags rs =
     (if list_all (\<lambda>r. r = Opt CHR ''c'' None \<or> r = Opt CHR ''x'' None) rs
      then Some (Opt CHR ''c'' None \<in> set rs, Opt CHR ''x'' None \<in> set rs) else None)"

section \<open>Semaphores\<close>

type_synonym psems = "string \<rightharpoonup> nat object"

definition psem_create_main :: "string list \<Rightarrow> psems \<Rightarrow> psems run" where
  "psem_create_main argv sems =
     (case getopt ''cx'' argv of (rs, ops) \<Rightarrow>
      (case create_flags rs of
         None \<Rightarrow> Usage
       | Some (creat, excl) \<Rightarrow>
           if ops = [] then Usage
           else (case (octal_perms (tl ops), if length ops \<le> 2 then Inr 0 else getInt (Some (ops ! 2)) 0 (Some ''value'')) of
               (Inl e, _) \<Rightarrow> Failed e
             | (_, Inl e) \<Rightarrow> Failed e
             | (Inr perms, Inr value) \<Rightarrow>
                 if creat \<and> (value < 0 \<or> INT_MAX < value) then Failed ''sem_open''
                 else (case open_object True creat excl perms (nat value) (hd ops) sems of
                     None \<Rightarrow> Failed ''sem_open''
                   | Some (n, sems') \<Rightarrow> Ran [] sems'))))"

text \<open>What the programs on an existing semaphore do with it.\<close>

definition with_sem :: "string \<Rightarrow> psems \<Rightarrow> (string \<Rightarrow> nat \<Rightarrow> psems run) \<Rightarrow> psems run" where
  "with_sem name sems f =
     (case open_object True False False 0 0 name sems of None \<Rightarrow> Failed ''sem_open'' | Some (n, _) \<Rightarrow> f n (data_of sems n))"

definition psem_post_main :: "string list \<Rightarrow> psems \<Rightarrow> psems run" where
  "psem_post_main argv sems =
     (if length argv \<noteq> 2 then Usage
      else with_sem (argv ! 1) sems (\<lambda>n v. if int v = INT_MAX then Failed ''sem_post'' else Ran [] (set_data n (Suc v) sems)))"

definition psem_wait_main :: "int \<Rightarrow> string list \<Rightarrow> psems \<Rightarrow> psems run" where
  "psem_wait_main pid argv sems =
     (if length argv < 2 \<or> argv ! 1 = ''--help'' then Usage
      else with_sem (argv ! 1) sems (\<lambda>n v.
        if v = 0 then Blocks else Ran (show_int pid @ '' sem_wait() succeeded'' @ [CHR 0x0A]) (set_data n (v - 1) sems)))"

definition psem_trywait_main :: "string list \<Rightarrow> psems \<Rightarrow> psems run" where
  "psem_trywait_main argv sems =
     (if length argv < 2 \<or> argv ! 1 = ''--help'' then Usage
      else with_sem (argv ! 1) sems (\<lambda>n v. if v = 0 then Failed ''sem_trywait'' else Ran [] (set_data n (v - 1) sems)))"

text \<open>A wait ends with a failure when the time is over.\<close>

definition psem_timedwait_main :: "int \<Rightarrow> string list \<Rightarrow> psems \<Rightarrow> psems run" where
  "psem_timedwait_main pid argv sems =
     (if length argv \<noteq> 3 \<or> argv ! 1 = ''--help'' then Usage
      else with_sem (argv ! 1) sems (\<lambda>n v.
        if v = 0 then Failed ''sem_timedwait''
        else Ran (show_int pid @ '' sem_wait() succeeded'' @ [CHR 0x0A]) (set_data n (v - 1) sems)))"

definition psem_getvalue_main :: "string list \<Rightarrow> psems \<Rightarrow> psems run" where
  "psem_getvalue_main argv sems =
     (if length argv \<noteq> 2 then Usage
      else with_sem (argv ! 1) sems (\<lambda>n v. Ran (show_nat v @ [CHR 0x0A]) sems))"

definition psem_unlink_main :: "string list \<Rightarrow> psems \<Rightarrow> psems run" where
  "psem_unlink_main argv sems =
     (if length argv \<noteq> 2 \<or> argv ! 1 = ''--help'' then Usage
      else (case unlink_object (argv ! 1) sems of None \<Rightarrow> Failed ''sem_unlink'' | Some sems' \<Rightarrow> Ran [] sems'))"

section \<open>Shared memory\<close>

text \<open>What the system has besides the result: a failing program may have changed an object already.\<close>

type_synonym pshms = "string \<rightharpoonup> string object"

definition ftruncate_to :: "nat \<Rightarrow> string \<Rightarrow> string" where
  "ftruncate_to len bytes = take len bytes @ replicate (len - length bytes) CHR 0x00"

definition pshm_create_main :: "string list \<Rightarrow> pshms \<Rightarrow> unit run \<times> pshms" where
  "pshm_create_main argv shms =
     (case getopt ''cx'' argv of (rs, ops) \<Rightarrow>
      (case create_flags rs of
         None \<Rightarrow> (Usage, shms)
       | Some (creat, excl) \<Rightarrow>
           if length ops < 2 then (Usage, shms)
           else (case (getLong (Some (ops ! 1)) GN_ANY_BASE (Some ''size''),
                       if length ops \<le> 2 then Inr 384 else getLong (Some (ops ! 2)) GN_BASE_8 (Some ''octal-perms'')) of
               (Inl e, _) \<Rightarrow> (Failed e, shms)
             | (_, Inl e) \<Rightarrow> (Failed e, shms)
             | (Inr len, Inr perms) \<Rightarrow>
                 (case open_object True creat excl perms [] (hd ops) shms of
                    None \<Rightarrow> (Failed ''shm_open'', shms)
                  | Some (n, shms1) \<Rightarrow>
                      if len < 0 then (Failed ''ftruncate'', shms1)
                      else (Ran [] (), set_data n (ftruncate_to (nat len) (data_of shms1 n)) shms1)))))"

text \<open>A mapping of no bytes is refused.\<close>

definition pshm_write_main :: "string list \<Rightarrow> pshms \<Rightarrow> unit run \<times> pshms" where
  "pshm_write_main argv shms =
     (if length argv \<noteq> 3 \<or> argv ! 1 = ''--help'' then (Usage, shms)
      else (case open_object True False False 0 [] (argv ! 1) shms of
          None \<Rightarrow> (Failed ''shm_open'', shms)
        | Some (n, _) \<Rightarrow>
            let len = length (argv ! 2); shms1 = set_data n (ftruncate_to len (data_of shms n)) shms in
            if len = 0 then (Failed ''mmap'', shms1)
            else (Ran (''Resized to '' @ show_nat len @ '' bytes'' @ [CHR 0x0A] @ ''copying '' @ show_nat len @ '' bytes'' @ [CHR 0x0A]) (),
                  set_data n (argv ! 2 @ drop len (data_of shms1 n)) shms1)))"

definition pshm_read_main :: "string list \<Rightarrow> pshms \<Rightarrow> unit run \<times> pshms" where
  "pshm_read_main argv shms =
     (if length argv \<noteq> 2 \<or> argv ! 1 = ''--help'' then (Usage, shms)
      else (case open_object False False False 0 [] (argv ! 1) shms of
          None \<Rightarrow> (Failed ''shm_open'', shms)
        | Some (n, _) \<Rightarrow>
            if data_of shms n = [] then (Failed ''mmap'', shms) else (Ran (data_of shms n @ [CHR 0x0A]) (), shms)))"

definition pshm_unlink_main :: "string list \<Rightarrow> pshms \<Rightarrow> unit run \<times> pshms" where
  "pshm_unlink_main argv shms =
     (if length argv \<noteq> 2 \<or> argv ! 1 = ''--help'' then (Usage, shms)
      else (case unlink_object (argv ! 1) shms of None \<Rightarrow> (Failed ''shm_unlink'', shms) | Some shms' \<Rightarrow> (Ran [] (), shms')))"

section \<open>Counting\<close>

text \<open>The state of one semaphore in the objects.\<close>

definition sem_is :: "string \<Rightarrow> nat \<Rightarrow> psems \<Rightarrow> bool" where
  "sem_is name v sems \<longleftrightarrow> name \<noteq> ''--help'' \<and>
     (\<exists>n ob. object_name name = Some n \<and> sems n = Some ob \<and> allowed True True (obj_perms ob) \<and> obj_data ob = v)"

lemma with_sem_is:
  assumes "sem_is name v sems"
  shows "\<exists>n. with_sem name sems f = f n v \<and> (\<forall>w. sem_is name w (set_data n w sems))"
  using assms by (auto simp: sem_is_def with_sem_def open_object_def data_of_def set_data_def)

datatype sem_prog = Post | Trywait

text \<open>A run of several programs on one semaphore, with those that succeed.\<close>

fun run_sem :: "string \<Rightarrow> sem_prog list \<Rightarrow> psems \<Rightarrow> bool list \<times> psems" where
  "run_sem name [] sems = ([], sems)"
| "run_sem name (p # ps) sems =
     (case (case p of Post \<Rightarrow> psem_post_main [''psem_post'', name] sems | Trywait \<Rightarrow> psem_trywait_main [''psem_trywait'', name] sems) of
        Ran _ sems' \<Rightarrow> (case run_sem name ps sems' of (bs, s) \<Rightarrow> (True # bs, s))
      | _ \<Rightarrow> (case run_sem name ps sems of (bs, s) \<Rightarrow> (False # bs, s)))"

definition counted :: "sem_prog \<times> bool \<Rightarrow> int" where
  "counted pb = (if snd pb then (if fst pb = Post then 1 else -1) else 0)"

text \<open>
  The value of a semaphore counts the programs: it is what it was, and one more for each program that has posted and one less for
  each that has waited.  It stays between zero and the greatest value, and \<^verbatim>\<open>psem_getvalue\<close> prints it.
\<close>

theorem psem_counts:
  "sem_is name v sems \<Longrightarrow> int v \<le> INT_MAX \<Longrightarrow>
    (let (bs, sems') = run_sem name ps sems; w = int v + sum_list (map counted (zip ps bs)) in
     0 \<le> w \<and> w \<le> INT_MAX \<and> length bs = length ps \<and> sem_is name (nat w) sems' \<and>
     psem_getvalue_main [''psem_getvalue'', name] sems' = Ran (show_nat (nat w) @ [CHR 0x0A]) sems')"
proof (induction ps arbitrary: v sems)
  case Nil
  then show ?case using with_sem_is[OF Nil(1)] by (auto simp: psem_getvalue_main_def INT_MAX_def)
next
  case (Cons p ps)
  have h: "name \<noteq> ''--help''" using Cons.prems(1) by (simp add: sem_is_def)
  have step: "\<exists>b sems1 v1. run_sem name (p # ps) sems = (b # fst (run_sem name ps sems1), snd (run_sem name ps sems1)) \<and>
      sem_is name v1 sems1 \<and> int v1 = int v + counted (p, b) \<and> int v1 \<le> INT_MAX"
  proof (cases p)
    case Post
    obtain n where n: "with_sem name sems f = f n v" "\<forall>w. sem_is name w (set_data n w sems)" for f
      using Cons.prems(1) by (auto simp: sem_is_def with_sem_def open_object_def data_of_def set_data_def)
    show ?thesis
    proof (cases "int v = INT_MAX")
      case True
      then show ?thesis using Post Cons.prems(1) n by (intro exI[of _ False] exI[of _ sems] exI[of _ v])
          (simp add: psem_post_main_def counted_def case_prod_beta)
    next
      case False
      then show ?thesis using Post Cons.prems(2) n by (intro exI[of _ True] exI[of _ "set_data n (Suc v) sems"] exI[of _ "Suc v"])
          (simp add: psem_post_main_def counted_def case_prod_beta)
    qed
  next
    case Trywait
    obtain n where n: "with_sem name sems f = f n v" "\<forall>w. sem_is name w (set_data n w sems)" for f
      using Cons.prems(1) by (auto simp: sem_is_def with_sem_def open_object_def data_of_def set_data_def)
    show ?thesis
    proof (cases "v = 0")
      case True
      then show ?thesis using Trywait Cons.prems h n by (intro exI[of _ False] exI[of _ sems] exI[of _ v])
          (simp add: psem_trywait_main_def counted_def case_prod_beta)
    next
      case False
      then show ?thesis using Trywait Cons.prems(2) h n by (intro exI[of _ True] exI[of _ "set_data n (v - 1) sems"] exI[of _ "v - 1"])
          (simp add: psem_trywait_main_def counted_def case_prod_beta)
    qed
  qed
  then obtain b sems1 v1 where s: "run_sem name (p # ps) sems = (b # fst (run_sem name ps sems1), snd (run_sem name ps sems1))"
    "sem_is name v1 sems1" "int v1 = int v + counted (p, b)" "int v1 \<le> INT_MAX" by blast
  show ?case using Cons.IH[OF s(2,4)] s(1,3) by (simp add: Let_def case_prod_beta add.assoc)
qed

theorem psem_counts_witness:
  "let (bs, sems') = run_sem ''/s'' [Post, Trywait, Trywait, Trywait] [''s'' \<mapsto> \<lparr>obj_perms = 384, obj_data = 1\<rparr>] in
   bs = [True, True, True, False] \<and> psem_getvalue_main [''psem_getvalue'', ''/s''] sems' = Ran (show_nat 0 @ [CHR 0x0A]) sems'"
proof -
  let ?sems = "[''s'' \<mapsto> \<lparr>obj_perms = 384, obj_data = 1\<rparr>] :: psems"
  have i: "sem_is ''/s'' 1 ?sems" "int 1 \<le> INT_MAX" by (simp_all add: sem_is_def object_name_def allowed_def INT_MAX_def)
  have b: "fst (run_sem ''/s'' [Post, Trywait, Trywait, Trywait] ?sems) = [True, True, True, False]" by code_simp
  show ?thesis using psem_counts[OF i, of "[Post, Trywait, Trywait, Trywait]"] b
    by (cases "run_sem ''/s'' [Post, Trywait, Trywait, Trywait] ?sems") (simp add: counted_def)
qed

section \<open>Writing and reading\<close>

text \<open>
  C40: A text that \<^verbatim>\<open>pshm_write\<close> puts into an object is what \<^verbatim>\<open>pshm_read\<close> prints, whatever was there; except for the empty text, for which
  both programs fail and the object has lost its contents.
\<close>

theorem pshm_round_trip:
  assumes "object_name name = Some n" "shms n = Some ob" "allowed True True (obj_perms ob)" "name \<noteq> ''--help''"
  shows "\<exists>r shms'. pshm_write_main [''pshm_write'', name, txt] shms = (r, shms') \<and> shms' n = Some (ob\<lparr>obj_data := txt\<rparr>) \<and>
    (if txt = [] then r = Failed ''mmap'' \<and> pshm_read_main [''pshm_read'', name] shms' = (Failed ''mmap'', shms')
     else (\<exists>out. r = Ran out ()) \<and> pshm_read_main [''pshm_read'', name] shms' = (Ran (txt @ [CHR 0x0A]) (), shms'))"
proof -
  have o: "open_object True False False 0 [] name shms = Some (n, shms)" using assms by (simp add: open_object_def)
  have r: "open_object False False False 0 [] name (shms(n \<mapsto> ob\<lparr>obj_data := txt\<rparr>)) = Some (n, shms(n \<mapsto> ob\<lparr>obj_data := txt\<rparr>))"
    using assms by (simp add: open_object_def allowed_def)
  show ?thesis
  proof (cases "txt = []")
    case True
    then have "pshm_write_main [''pshm_write'', name, txt] shms = (Failed ''mmap'', shms(n \<mapsto> ob\<lparr>obj_data := txt\<rparr>))"
      using assms o by (simp add: pshm_write_main_def ftruncate_to_def set_data_def)
    then show ?thesis using True r assms(4) by (simp add: pshm_read_main_def data_of_def)
  next
    case False
    then have "\<exists>out. pshm_write_main [''pshm_write'', name, txt] shms = (Ran out (), shms(n \<mapsto> ob\<lparr>obj_data := txt\<rparr>))"
      using assms o by (simp add: pshm_write_main_def ftruncate_to_def set_data_def data_of_def Let_def)
    then show ?thesis using False r assms(4) by (auto simp: pshm_read_main_def data_of_def)
  qed
qed

theorem pshm_round_trip_witness:
  "\<exists>out shms'. pshm_write_main [''pshm_write'', ''/m'', ''hi''] [''m'' \<mapsto> \<lparr>obj_perms = 384, obj_data = ''longer''\<rparr>] = (Ran out (), shms') \<and>
    pshm_read_main [''pshm_read'', ''/m''] shms' = (Ran (''hi'' @ [CHR 0x0A]) (), shms')"
  using pshm_round_trip[of "''/m''" "''m''" "[''m'' \<mapsto> \<lparr>obj_perms = 384, obj_data = ''longer''\<rparr>]" "\<lparr>obj_perms = 384, obj_data = ''longer''\<rparr>" "''hi''"]
  by (auto simp: object_name_def allowed_def)

end
