(* ===== verification/Spec2Isabelle.thy ===== *)
theory Spec2Isabelle
  imports Heap_Alloc_Correct Env_Functions Error_Functions Num_Args File_Races Inotify_Dtree_Correct Thread_Incr Thread_Condvar Thread_Once Shm_Transfer
    Seccomp_Notify Seqnum_Service Case_Services Msg_File Ns_Capable Thread_Multijoin Thread_Barrier Pid_File Userns_Exec Sem_Programs Posix_Objects
begin

text \<open>
  A verification of the C programs of this repository: the exercises of the directories \<^verbatim>\<open>ch04\<close> to \<^verbatim>\<open>ch17\<close>, and
  the programs and library functions of \<^verbatim>\<open>tlpi-dist\<close>.  The repository is a collection of programs that share a small
  library; the parts that have an algorithm, a protocol or a contract of their own are modelled, function by
  function, as definitions that can be evaluated, and their correctness is proved.

  \<^bold>\<open>How code becomes definitions.\<close>  A function of the source is a HOL function of the same name (with a prefix or suffix
  where two sources use one name); a struct is a record, an enumeration a datatype, a string a list of characters
  without the null byte.  State that a program changes is an explicit argument and result: the heap of the allocator is
  a store of headers by address, files are inodes behind open file descriptions and descriptors, credentials are a
  record of capability sets and IDs.  Errors are values: no value, or the left side of a sum.  Integers have their
  width where that matters: machine words for flags, BPF registers and clone flags, explicit wrap-around for
  \<^verbatim>\<open>size_t\<close> and \<^verbatim>\<open>int\<close>.  Whole programs are functions from the command line and the state around them to what they do.
  Programs of several processes or threads are given by the next step of each process; theory Interleave runs
  the steps in any order.  System calls follow their documentation; code that is not in the repository (the
  C library's databases, libcap, generated tables) is a parameter.

  \<^bold>\<open>Foundations.\<close>
  \<^item> Tlpi\_Prelude, C\_Strings: size arithmetic, lists; character classes, \<^verbatim>\<open>strtol\<close>, \<^verbatim>\<open>atoi\<close>, decimal output and the round
    trips between them.
  \<^item> Getopt: \<^verbatim>\<open>getopt\<close> with clusters, arguments and permutation; what was written on a command line is what is parsed.
  \<^item> Posix\_Files: names, inodes, open file descriptions and descriptors, with \<^verbatim>\<open>open\<close>, \<^verbatim>\<open>read\<close>, \<^verbatim>\<open>write\<close>, \<^verbatim>\<open>lseek\<close>, \<^verbatim>\<open>dup\<close>,
    \<^verbatim>\<open>fcntl\<close> and \<^verbatim>\<open>unlink\<close>.
  \<^item> Interleave: interleaved steps, invariants of all reachable states (locale \<open>interleaved\<close>) and total correctness under
    every schedule (\<open>always_ends\<close>, locale \<open>ending_protocol\<close>): executions are bounded, and where no process can
    go on, the result holds.

  \<^bold>\<open>Memory, environment, messages, numbers.\<close>
  \<^item> Heap\_Alloc, Heap\_Alloc\_Correct (\<^verbatim>\<open>ch07/malloc_and_free.c\<close>): the allocator refines a specification on the list of blocks;
    areas handed out are disjoint; \<^verbatim>\<open>my_free\<close> merges and releases.  Two flaws are proved: a stale link after a split can make
    two live areas overlap, and a refused extension of the heap is not noticed.  Access outside the heap and a list that does not
    end are the outcome without value.
  \<^item> Env\_Functions (\<^verbatim>\<open>ch06/3_env.c\<close>, \<^verbatim>\<open>tlpi-dist/proc/setenv.c\<close>): both implementations refine a map from names to values
    (locale \<open>env_ops\<close>).  Error\_Functions (\<^verbatim>\<open>lib/error_functions.c\<close>): messages, \<^verbatim>\<open>errno\<close> and exit of the diagnostic functions.
  \<^item> Num\_Args (\<^verbatim>\<open>lib/get_num.c\<close>, \<^verbatim>\<open>timers/itimerspec_from_str.c\<close>): conversions of arguments, all error branches included.

  \<^bold>\<open>Files.\<close>
  \<^item> File\_Programs, File\_Programs\_Correct (\<^verbatim>\<open>ch04\<close>, \<^verbatim>\<open>ch05\<close>, \<^verbatim>\<open>fileio\<close>): the copying loops through one contract (locale
    \<open>chunk_io\<close>), descriptor duplication against the system's, scatter and gather input against one call.
  \<^item> File\_Races: concurrent appending loses nothing in append mode, and can lose data with seek; the exclusive open race.
  \<^item> File\_Locks, Lock\_Programs, Pid\_File (\<^verbatim>\<open>filelock\<close>): record locks refine a map from bytes to locks; sessions of the
    interactive program; at most one instance behind a PID file, and the race when the file is deleted.
  \<^item> Inotify\_Dtree, Inotify\_Dtree\_Correct (\<^verbatim>\<open>inotify/inotify_dtree.c\<close>): the whole monitor; its cache stays well-formed under
    every event, command and failure (locales \<open>monitor_core\<close>, \<open>monitor_invariant\<close>), and a rebuild covers the tree.

  \<^bold>\<open>Threads and shared memory.\<close>
  \<^item> Thread\_Incr (five versions of the counter over locale \<open>exclusive_lock\<close>), Thread\_Condvar, Thread\_Once, Thread\_Multijoin,
    Thread\_Barrier (\<^verbatim>\<open>threads\<close>, \<^verbatim>\<open>psem\<close>): every access to a shared variable is a step, with spurious wakeups; all
    synchronised programs end with the right result under every schedule, the unsynchronised one can lose updates.
  \<^item> Shm\_Transfer (\<^verbatim>\<open>svsem\<close>, \<^verbatim>\<open>svshm\<close>): the stream arrives complete through shared memory, whatever calls are interrupted.

  \<^bold>\<open>Communication.\<close>
  \<^item> Socket\_IO, Seqnum\_Service (\<^verbatim>\<open>sockets\<close>, \<^verbatim>\<open>pipes\<close>): reading and writing with partial transfers; the granted ranges
    are disjoint, also end to end.  Case\_Services (\<^verbatim>\<open>pipes/change_case.c\<close>, datagram services): no deadlock and the whole
    text converted.  Msg\_File (\<^verbatim>\<open>svmsg\<close>): file transfer over message queues.

  \<^bold>\<open>Privilege and isolation.\<close>
  \<^item> Seccomp\_Filters, Seccomp\_Notify (\<^verbatim>\<open>seccomp\<close>): the filters as BPF programs on a machine model; accepted filters return,
    and decide as their comments say; the supervisors act only for a target that is still the one that asked.
  \<^item> Capabilities (\<^verbatim>\<open>cap\<close>, \<^verbatim>\<open>namespaces/cred_launcher.c\<close>): credentials and the rules of the kernel for them (locale \<open>cred_call\<close>: no
    call gains privilege); launchers give exactly the named capabilities, the password checker has none when it reads.
  \<^item> Ns\_Capable, Ns\_Exec, Userns\_Exec (\<^verbatim>\<open>namespaces\<close>): the verdict on capabilities in a namespace is that of the kernel; the
    launchers create exactly the namespaces asked for; the maps of a user namespace are written before the command runs,
    under every schedule of parent and child.

  \<^bold>\<open>Bounds and termination.\<close>  Loops over data are recursive functions with a termination proof.  Loops over the outside
  (requests, events, lines) recurse on the list of what comes in.  The list walks of the allocator, which would run in a
  circle on a damaged heap, and the copying loops are partial functions without fuel, for which not returning is the absence of
  a value; that they return, on a well-formed heap and for a finite input, is part of the theorems.  The concurrent programs have no fuel: a rank
  that every step decreases bounds their executions.

  \<^bold>\<open>Not modelled.\<close>  Output for diagnosis, unless it is what a program is for.  Signals and their asynchronous handlers,
  terminals and pseudoterminals, job control, timers, memory mappings and the memory layout of processes, the dynamic
  linker, \<^verbatim>\<open>longjmp\<close>: their meaning is that of the kernel or the machine, and the programs only show it.  Programs that make one
  system call and print its result, programs that measure time, shell scripts.  Access control lists, which are a
  library outside the sources.  Processes other than those of a program change nothing during a run, unless
  a theory says so.
\<close>

end
